(* ===== verification/Kernel_Prelude.thy ===== *)
theory Kernel_Prelude
  imports Main "HOL-Library.Word"
begin

text \<open>
  Shared vocabulary of the development: the machine integers of the kernel, the outcome of a
  Rust computation that may panic, the arithmetic of the debug build, and the lemmas on words
  and lists that the component theories use.

  The kernel is built and shipped as a debug build (\<^verbatim>\<open>make.sh\<close> runs \<^verbatim>\<open>cargo build\<close> and
  copies \<^verbatim>\<open>target/.../debug/tomorrow\<close>), so \<^verbatim>\<open>+\<close>, \<^verbatim>\<open>-\<close> and \<^verbatim>\<open>*\<close> on machine integers panic on
  overflow. A panic prints its place and spins for ever (\<^verbatim>\<open>main.rs\<close>, \<^verbatim>\<open>fn panic\<close>), so nothing
  runs after it: a panicking computation has a left value and no state.
\<close>

unbundle bit_operations_syntax

section \<open>Machine integers\<close>

type_synonym u8 = "8 word"
type_synonym u16 = "16 word"
type_synonym u32 = "32 word"
type_synonym u64 = "64 word"

section \<open>Panics\<close>

datatype panic =
    Overflow            \<comment> \<open>arithmetic overflow check of the debug build\<close>
  | BadIndex            \<comment> \<open>slice or array index out of range\<close>
  | AssertFailed        \<comment> \<open>\<^verbatim>\<open>assert!\<close> or \<^verbatim>\<open>assert_eq!\<close>\<close>
  | UnwrapNone          \<comment> \<open>\<^verbatim>\<open>unwrap\<close> or \<^verbatim>\<open>expect\<close> without a value\<close>
  | OutOfMemory         \<comment> \<open>\<^verbatim>\<open>panic!("PMM: out of memory")\<close>\<close>
  | NonContiguous       \<comment> \<open>\<^verbatim>\<open>assert!\<close> of \<^verbatim>\<open>pmm::alloc_pages\<close>\<close>
  | TooManyProcesses    \<comment> \<open>\<^verbatim>\<open>panic!("scheduler: too many processes")\<close>\<close>
  | PageFault           \<comment> \<open>exception 14: \<^verbatim>\<open>pf_handler_asm\<close> prints and halts\<close>
  | Diverges            \<comment> \<open>a loop that the environment can keep running for ever\<close>
  | VmmOutOfMemory      \<comment> \<open>\<^verbatim>\<open>panic!("VMM: out of memory")\<close>\<close>

type_synonym 'a res = "panic + 'a"

definition rbind :: "'a res \<Rightarrow> ('a \<Rightarrow> 'b res) \<Rightarrow> 'b res" where
  "rbind m f = (case m of Inl e \<Rightarrow> Inl e | Inr x \<Rightarrow> f x)"

definition unwrap :: "'a option \<Rightarrow> 'a res" where
  "unwrap v = (case v of None \<Rightarrow> Inl UnwrapNone | Some x \<Rightarrow> Inr x)"

definition rassert :: "bool \<Rightarrow> unit res" where
  "rassert b = (if b then Inr () else Inl AssertFailed)"

named_theorems res_simps \<open>equations and inversions of computations that may panic\<close>

lemma rbind_simps [simp]:
  "rbind (Inl e) f = Inl e"
  "rbind (Inr x) f = f x"
  by (simp_all add: rbind_def)

lemma rbind_cong [fundef_cong]:
  "m = m' \<Longrightarrow> (\<And>x. m' = Inr x \<Longrightarrow> f x = g x) \<Longrightarrow> rbind m f = rbind m' g"
  by (cases m') auto

lemma rbind_eq_Inr [res_simps]: "rbind m f = Inr y \<longleftrightarrow> (\<exists>x. m = Inr x \<and> f x = Inr y)"
  by (cases m) auto

lemma rbind_eq_Inl [res_simps]:
  "rbind m f = Inl e \<longleftrightarrow> m = Inl e \<or> (\<exists>x. m = Inr x \<and> f x = Inl e)"
  by (cases m) auto

lemma rbind_assoc: "rbind (rbind m f) g = rbind m (\<lambda>x. rbind (f x) g)"
  by (cases m) auto

lemma rbind_right [simp]: "rbind m Inr = m"
  by (cases m) auto

lemma unwrap_simps [simp]:
  "unwrap (Some x) = Inr x"
  "unwrap None = Inl UnwrapNone"
  by (simp_all add: unwrap_def)

lemma unwrap_eq_Inr [res_simps]: "unwrap v = Inr x \<longleftrightarrow> v = Some x"
  by (cases v) auto

lemma rassert_eq_Inr [res_simps]: "rassert b = Inr u \<longleftrightarrow> b"
  by (simp add: rassert_def)

lemma rassert_True [simp]: "b \<Longrightarrow> rassert b = Inr ()"
  by (simp add: rassert_def)

text \<open>A \<^verbatim>\<open>for\<close> loop whose body may panic.\<close>

fun rfold :: "('a \<Rightarrow> 's \<Rightarrow> 's res) \<Rightarrow> 'a list \<Rightarrow> 's \<Rightarrow> 's res" where
  "rfold f [] s = Inr s"
| "rfold f (x # xs) s = rbind (f x s) (rfold f xs)"

lemma rfold_Nil [simp]: "rfold f [] = Inr"
  by (rule ext) simp

lemma rfold_append [simp]: "rfold f (xs @ ys) s = rbind (rfold f xs s) (rfold f ys)"
  by (induction xs arbitrary: s) (auto simp: rbind_def split: sum.splits)

lemma rfold_inv:
  assumes "\<And>x s. x \<in> set xs \<Longrightarrow> P s \<Longrightarrow> \<exists>s'. f x s = Inr s' \<and> P s'" "P s"
  shows "\<exists>s'. rfold f xs s = Inr s' \<and> P s'"
  using assms
proof (induction xs arbitrary: s)
  case (Cons x xs)
  from Cons.prems(1) [of x s] Cons.prems(2) obtain s' where s': "f x s = Inr s'" "P s'" by auto
  have "\<exists>s''. rfold f xs s' = Inr s'' \<and> P s''" using s'(2) Cons.prems(1) by (intro Cons.IH) auto
  then show ?case using s'(1) by simp
qed simp

lemma rfold_cong [fundef_cong]:
  "xs = ys \<Longrightarrow> s = t \<Longrightarrow> (\<And>x s. x \<in> set ys \<Longrightarrow> f x s = g x s) \<Longrightarrow> rfold f xs s = rfold g ys t"
proof (induction ys arbitrary: xs s t)
  case (Cons y ys)
  then show ?case by (auto intro!: rbind_cong)
qed simp

section \<open>Arithmetic of the debug build\<close>

definition padd :: "'a::len word \<Rightarrow> 'a word \<Rightarrow> 'a word res" where
  "padd a b = (if unat a + unat b < 2 ^ LENGTH('a) then Inr (a + b) else Inl Overflow)"

definition psub :: "'a::len word \<Rightarrow> 'a word \<Rightarrow> 'a word res" where
  "psub a b = (if b \<le> a then Inr (a - b) else Inl Overflow)"

definition pmul :: "'a::len word \<Rightarrow> 'a word \<Rightarrow> 'a word res" where
  "pmul a b = (if unat a * unat b < 2 ^ LENGTH('a) then Inr (a * b) else Inl Overflow)"

definition checked_add :: "'a::len word \<Rightarrow> 'a word \<Rightarrow> 'a word option" where
  "checked_add a b = (if unat a + unat b < 2 ^ LENGTH('a) then Some (a + b) else None)"

definition checked_mul :: "'a::len word \<Rightarrow> 'a word \<Rightarrow> 'a word option" where
  "checked_mul a b = (if unat a * unat b < 2 ^ LENGTH('a) then Some (a * b) else None)"

lemma padd_eq_Inr [res_simps]:
  "padd a b = Inr c \<longleftrightarrow> unat a + unat b < 2 ^ LENGTH('a) \<and> c = a + b" for a :: "'a::len word"
  by (auto simp: padd_def)

lemma psub_eq_Inr [res_simps]: "psub a b = Inr c \<longleftrightarrow> b \<le> a \<and> c = a - b"
  by (auto simp: psub_def)

lemma pmul_eq_Inr [res_simps]:
  "pmul a b = Inr c \<longleftrightarrow> unat a * unat b < 2 ^ LENGTH('a) \<and> c = a * b" for a :: "'a::len word"
  by (auto simp: pmul_def)

lemma checked_add_eq_Some:
  "checked_add a b = Some c \<longleftrightarrow> unat a + unat b < 2 ^ LENGTH('a) \<and> c = a + b" for a :: "'a::len word"
  by (auto simp: checked_add_def)

lemma unat_add_small:
  "unat a + unat b < 2 ^ LENGTH('a) \<Longrightarrow> unat (a + b) = unat a + unat b" for a :: "'a::len word"
  by (simp add: unat_add_lem)

lemma unat_mult_small:
  "unat a * unat b < 2 ^ LENGTH('a) \<Longrightarrow> unat (a * b) = unat a * unat b" for a :: "'a::len word"
  by (simp add: unat_mult_lem)

lemma unat_of_nat_small: "n < 2 ^ LENGTH('a) \<Longrightarrow> unat (of_nat n :: 'a::len word) = n"
  by (simp add: unat_of_nat)

lemma unat_lt_64 [simp]: "unat (a :: u64) < 18446744073709551616"
  using unsigned_less [of a, where ?'a = nat] by simp

lemma unat_max_64 [simp]: "unat (- 1 :: u64) = 18446744073709551615"
  by (simp add: unsigned_minus_1_eq_mask mask_eq_exp_minus_1)

lemma unat_plus_nat: "unat a + k < 2 ^ 64 \<Longrightarrow> unat (a + of_nat k) = unat a + k" for a :: u64
  by (subst unat_add_small) (simp_all add: unat_of_nat_small)

lemma aligned_room:
  fixes a :: u64
  assumes "unat a mod n = 0" "k < n" "n dvd 2 ^ 64"
  shows "unat a + k < 2 ^ 64"
proof -
  from assms(1,3) obtain q r where q: "unat a = n * q" and r: "(2::nat) ^ 64 = n * r"
    by (meson dvdE mod_0_imp_dvd)
  have "unat a < 2 ^ 64" by simp
  then have "q < r" by (simp only: q r) simp
  then have "n * Suc q \<le> n * r" by (intro mult_le_mono2) simp
  with q r assms(2) show ?thesis by simp
qed

section \<open>Masks and single bits\<close>

lemma unat_and_mask: "unat (x AND mask n) = unat x mod 2 ^ n" for x :: "'a::len word"
  by (simp only: unsigned_take_bit_eq take_bit_eq_mod [of _ "unat x"] flip: take_bit_eq_mask)

lemma and_not_mask_eq: "x AND NOT (mask n) = push_bit n (drop_bit n x)" for x :: "'a::len word"
  by (rule bit_word_eqI)
    (auto simp: bit_and_iff bit_not_iff bit_mask_iff bit_push_bit_iff bit_drop_bit_eq)

lemma unat_and_not_mask: "unat (x AND NOT (mask n)) = unat x div 2 ^ n * 2 ^ n" for x :: "'a::len word"
proof -
  have small: "unat x div 2 ^ n * 2 ^ n < 2 ^ LENGTH('a)"
    using unsigned_less [of x] by (meson div_times_less_eq_dividend le_less_trans)
  have "unat (push_bit n (drop_bit n x)) =
      take_bit LENGTH('a) (push_bit n (drop_bit n (take_bit LENGTH('a) (unat x))))"
    by (simp only: unsigned_push_bit_eq unsigned_drop_bit_eq)
  also have "\<dots> = unat x div 2 ^ n * 2 ^ n"
    using small unsigned_less [of x, where ?'a = nat]
    by (simp add: take_bit_eq_mod push_bit_eq_mult drop_bit_eq_div)
  finally show ?thesis by (simp only: and_not_mask_eq)
qed

lemma unat_page_offset: "unat (x AND 0xFFF) = unat x mod 4096" for x :: u64
  using unat_and_mask [of x 12] by (simp add: mask_eq_exp_minus_1)

lemma unat_page_base: "unat (x AND NOT 0xFFF) = unat x div 4096 * 4096" for x :: u64
  using unat_and_not_mask [of x 12] by (simp add: mask_eq_exp_minus_1)

lemma bit_set_bit64: "bit (w OR push_bit b 1) i \<longleftrightarrow> bit w i \<or> i = b \<and> i < 64" for w :: u64
  by (auto simp: bit_or_iff bit_exp_iff)

lemma bit_clear_bit64: "bit (w AND NOT (push_bit b 1)) i \<longleftrightarrow> bit w i \<and> i \<noteq> b" for w :: u64
  by (auto simp: bit_and_iff bit_not_iff bit_exp_iff dest: bit_imp_le_length)

lemma and_bit64_eq_0: "w AND push_bit b 1 = 0 \<longleftrightarrow> \<not> bit w b" for w :: u64
  by (simp add: and_exp_eq_0_iff_not_bit)

lemma not_max_iff: "w \<noteq> 0xFFFFFFFFFFFFFFFF \<longleftrightarrow> (\<exists>i<64. \<not> bit w i)" for w :: u64
proof -
  have "(0xFFFFFFFFFFFFFFFF :: u64) = -1" by simp
  then show ?thesis by (auto simp: bit_eq_iff)
qed

section \<open>Rounded division\<close>

lemma less_ceil_div_iff:
  fixes k l s :: nat
  assumes "0 < s"
  shows "k < (l + s - 1) div s \<longleftrightarrow> k * s < l"
proof -
  have "k < (l + s - 1) div s \<longleftrightarrow> Suc k * s \<le> l + s - 1"
    using assms by (simp only: Suc_le_eq [symmetric] less_eq_div_iff_mult_less_eq)
  also have "\<dots> \<longleftrightarrow> k * s < l" using assms by auto
  finally show ?thesis .
qed

section \<open>First match in a list\<close>

text \<open>\<^verbatim>\<open>Iterator::position\<close>: the index of the first element that satisfies a predicate.\<close>

fun position :: "('a \<Rightarrow> bool) \<Rightarrow> 'a list \<Rightarrow> nat option" where
  "position P [] = None"
| "position P (x # xs) = (if P x then Some 0 else map_option Suc (position P xs))"

lemma position_Some:
  "position P xs = Some i \<longleftrightarrow> i < length xs \<and> P (xs ! i) \<and> (\<forall>j<i. \<not> P (xs ! j))"
proof (induction xs arbitrary: i)
  case (Cons x xs)
  then show ?case by (cases i) (auto simp: less_Suc_eq_0_disj)
qed simp

lemma position_None: "position P xs = None \<longleftrightarrow> (\<forall>x \<in> set xs. \<not> P x)"
  by (induction xs) auto

end
