(* ===== verification/Phys_Memory.thy ===== *)
theory Phys_Memory
  imports Kernel_Prelude
begin

text \<open>
  Byte-addressed memory. The boot page tables map physical memory one to one, and the kernel
  dereferences physical addresses directly (\<^verbatim>\<open>vmm.rs\<close>, \<^verbatim>\<open>pmm.rs\<close>, \<^verbatim>\<open>ramfs.rs\<close>), so a raw pointer
  access of the source is a read or write of this memory. Values are stored little-endian.
  Validity and alignment of raw pointers are the caller's obligation in the source (unsafe code)
  and are not checked here.
\<close>

type_synonym mem = "u64 \<Rightarrow> u8"

section \<open>Accesses\<close>

definition read16 :: "mem \<Rightarrow> u64 \<Rightarrow> u16" where
  "read16 m a = ucast (m a) OR push_bit 8 (ucast (m (a + 1)))"

definition read32 :: "mem \<Rightarrow> u64 \<Rightarrow> u32" where
  "read32 m a = ucast (m a) OR push_bit 8 (ucast (m (a + 1)))
     OR push_bit 16 (ucast (m (a + 2))) OR push_bit 24 (ucast (m (a + 3)))"

definition read64 :: "mem \<Rightarrow> u64 \<Rightarrow> u64" where
  "read64 m a = ucast (m a) OR push_bit 8 (ucast (m (a + 1)))
     OR push_bit 16 (ucast (m (a + 2))) OR push_bit 24 (ucast (m (a + 3)))
     OR push_bit 32 (ucast (m (a + 4))) OR push_bit 40 (ucast (m (a + 5)))
     OR push_bit 48 (ucast (m (a + 6))) OR push_bit 56 (ucast (m (a + 7)))"

definition write64 :: "mem \<Rightarrow> u64 \<Rightarrow> u64 \<Rightarrow> mem" where
  "write64 m a v = (\<lambda>x. let k = unat (x - a) in
     if k < 8 then ucast (drop_bit (8 * k) v) else m x)"

text \<open>\<^verbatim>\<open>core::ptr::write_bytes(a, v, n)\<close> fills \<open>n\<close> bytes; \<^verbatim>\<open>from_raw_parts(a, n)\<close> reads them.\<close>

definition write_bytes :: "mem \<Rightarrow> u64 \<Rightarrow> u8 \<Rightarrow> nat \<Rightarrow> mem" where
  "write_bytes m a v n = (\<lambda>x. if unat (x - a) < n then v else m x)"

definition read_slice :: "mem \<Rightarrow> u64 \<Rightarrow> nat \<Rightarrow> u8 list" where
  "read_slice m a n = map (\<lambda>i. m (a + of_nat i)) [0..<n]"

section \<open>Bytes of a value\<close>

lemma bit_ucast8: "bit (ucast (b :: u8) :: 'a::len word) i \<longleftrightarrow> i < 8 \<and> bit b i \<and> i < LENGTH('a)"
  by (auto simp: bit_ucast_iff dest: bit_imp_le_length)

lemma bit_shifted_byte:
  "bit (push_bit n (ucast (b :: u8)) :: 'a::len word) i \<longleftrightarrow>
     n \<le> i \<and> i < n + 8 \<and> i < LENGTH('a) \<and> bit b (i - n)"
  by (auto simp: bit_push_bit_iff bit_ucast8)

lemma byte_offsets:
  fixes m :: mem
  assumes "\<And>k. k < 8 \<Longrightarrow> m (a + of_nat k) = f k"
  shows "m a = f 0" "m (a + 1) = f 1" "m (a + 2) = f 2" "m (a + 3) = f 3"
    "m (a + 4) = f 4" "m (a + 5) = f 5" "m (a + 6) = f 6" "m (a + 7) = f 7"
  using assms [of 0] assms [of 1] assms [of 2] assms [of 3] assms [of 4] assms [of 5] assms [of 6]
    assms [of 7] by simp_all

lemma read64_join:
  assumes "\<And>k. k < 8 \<Longrightarrow> m (a + of_nat k) = ucast (drop_bit (8 * k) v)"
  shows "read64 m a = v"
proof (rule bit_word_eqI)
  fix i assume "i < LENGTH(64)"
  then have i: "i < 64" by simp
  note bytes = byte_offsets [of m a "\<lambda>k. ucast (drop_bit (8 * k) v)", OF assms]
  consider "i < 8" | "8 \<le> i" "i < 16" | "16 \<le> i" "i < 24" | "24 \<le> i" "i < 32" | "32 \<le> i" "i < 40"
    | "40 \<le> i" "i < 48" | "48 \<le> i" "i < 56" | "56 \<le> i" "i < 64"
    using i by linarith
  then show "bit (read64 m a) i = bit v i"
    by cases (simp_all add: read64_def bytes bit_or_iff bit_shifted_byte bit_ucast8 bit_ucast_iff
        bit_drop_bit_eq less_diff_conv2)
qed

lemma read64_cong: "(\<And>k. k < 8 \<Longrightarrow> m (a + of_nat k) = m' (a + of_nat k)) \<Longrightarrow> read64 m a = read64 m' a"
  using byte_offsets [of m a "\<lambda>k. m' (a + of_nat k)"] by (simp add: read64_def)

section \<open>Reading back\<close>

lemma unat_offset [simp]: "k < 2 ^ 64 \<Longrightarrow> unat (a + of_nat k - a :: u64) = k"
  by (simp add: unat_of_nat_small)

lemma read64_write64_same [simp]: "read64 (write64 m a v) a = v"
  by (rule read64_join) (simp add: write64_def unat_of_nat_small)

text \<open>Two accesses of eight bytes are disjoint when the distance either way is at least eight.\<close>

definition apart64 :: "u64 \<Rightarrow> u64 \<Rightarrow> bool" where
  "apart64 a b \<longleftrightarrow> (\<forall>k<8. unat (b + of_nat k - a) \<ge> 8)"

lemma read64_write64_apart: "apart64 a b \<Longrightarrow> read64 (write64 m a v) b = read64 m b"
  by (rule read64_cong) (force simp: apart64_def write64_def Let_def)

lemma apart64_aligned:
  assumes "unat a mod 8 = 0" "unat b mod 8 = 0" "a \<noteq> b"
  shows "apart64 a b"
  unfolding apart64_def
proof (intro allI impI)
  fix k :: nat assume k: "k < 8"
  obtain p q where p: "unat a = 8 * p" and q: "unat b = 8 * q"
    using assms(1,2) by (meson dvdE mod_0_imp_dvd)
  have "p \<noteq> q" using assms(3) p q by (auto simp: word_unat_eq_iff)
  moreover have "p < 2305843009213693952" using unat_lt_64 [of a] p by simp
  moreover have "unat (b + of_nat k) = 8 * q + k"
    using aligned_room [of b 8 k] k assms(2) q by (subst unat_plus_nat) simp_all
  ultimately show "unat (b + of_nat k - a) \<ge> 8"
    using k p by (simp add: unat_sub_if') linarith
qed

lemma read64_write_bytes_zero:
  "(\<And>k. k < 8 \<Longrightarrow> unat (a + of_nat k - b) < n) \<Longrightarrow> read64 (write_bytes m b 0 n) a = 0"
  by (rule read64_join) (simp add: write_bytes_def)

lemma read64_write_bytes_apart:
  "(\<And>k. k < 8 \<Longrightarrow> unat (a + of_nat k - b) \<ge> n) \<Longrightarrow> read64 (write_bytes m b v n) a = read64 m a"
  by (rule read64_cong) (force simp: write_bytes_def)

lemma length_read_slice [simp]: "length (read_slice m a n) = n"
  by (simp add: read_slice_def)

lemma nth_read_slice [simp]: "i < n \<Longrightarrow> read_slice m a n ! i = m (a + of_nat i)"
  by (simp add: read_slice_def)

lemma read_slice_Suc: "read_slice m a (Suc n) = m a # read_slice m (a + 1) n"
proof -
  have "map (\<lambda>i. m (a + of_nat i)) [0..<Suc n] = m a # map (\<lambda>i. m (a + of_nat (Suc i))) [0..<n]"
    by (simp only: map_upt_Suc) simp
  then show ?thesis by (simp add: read_slice_def add.assoc)
qed

lemma read_slice_eval:
  "read_slice m a 0 = []"
  "read_slice m a (Suc 0) = [m a]"
  "read_slice m a (numeral k) = m a # read_slice m (a + 1) (pred_numeral k)"
  by (simp_all only: read_slice_Suc numeral_eq_Suc) (simp_all add: read_slice_def)

end
