(* ===== verification/Pmm.thy ===== *)
theory Pmm
  imports Phys_Memory
begin

text \<open>
  The physical page allocator (\<^verbatim>\<open>src/pmm.rs\<close>). \<open>bitmap\<close> is \<^verbatim>\<open>BITMAP: [u64; 32768]\<close>: bit \<open>p mod 64\<close>
  of word \<open>p div 64\<close> is set when page \<open>p\<close> is in use. The linker symbols \<^verbatim>\<open>_kernel_start\<close> and
  \<^verbatim>\<open>_kernel_end\<close> are the record \<open>kimage\<close>. The abstract view of a bitmap is the set of free page
  numbers, \<open>free_set\<close>; the interface that the rest of the kernel relies on is the locale
  \<open>page_allocator\<close>.
\<close>

section \<open>State\<close>

type_synonym bitmap = "u64 list"

definition BITMAP_LEN :: nat where
  "BITMAP_LEN = 32768"

definition BITMAP_INIT :: bitmap where
  "BITMAP_INIT = replicate BITMAP_LEN 0xFFFFFFFFFFFFFFFF"

record kimage =
  kernel_start :: u64
  kernel_end :: u64

record mb_memory_entry =
  base_addr :: u64
  mb_length :: u64
  mb_typ :: u32
  mb_reserved :: u32

section \<open>Marking pages\<close>

definition mark_free :: "u64 \<Rightarrow> bitmap \<Rightarrow> bitmap" where
  "mark_free addr bm =
     (let page = unat (addr div 4096); idx = page div 64; bt = page mod 64 in
      if idx \<ge> BITMAP_LEN then bm
      else bm[idx := bm ! idx AND NOT (push_bit bt 1)])"

definition mark_used :: "u64 \<Rightarrow> bitmap \<Rightarrow> bitmap" where
  "mark_used addr bm =
     (let page = unat (addr div 4096); idx = page div 64; bt = page mod 64 in
      if idx \<ge> BITMAP_LEN then bm
      else bm[idx := bm ! idx OR push_bit bt 1])"

text \<open>The loop \<^verbatim>\<open>while addr < end { mark_used(addr); addr += 4096; }\<close> of \<^verbatim>\<open>init\<close> and \<^verbatim>\<open>reserve\<close>.\<close>

function mark_used_range :: "u64 \<Rightarrow> u64 \<Rightarrow> bitmap \<Rightarrow> bitmap res" where
  "mark_used_range addr end bm =
     (if addr < end
      then rbind (padd addr 4096) (\<lambda>next. mark_used_range next end (mark_used addr bm))
      else Inr bm)"
  by pat_completeness auto
termination
  by (relation "measure (\<lambda>(addr, end, bm). 2 ^ 64 - unat addr)")
    (auto simp: padd_eq_Inr unat_add_small)

declare mark_used_range.simps [simp del]

definition reserve :: "u64 \<Rightarrow> u64 \<Rightarrow> bitmap \<Rightarrow> bitmap res" where
  "reserve start end bm =
     rbind (padd end 0xFFF) (\<lambda>e. mark_used_range (start AND NOT 0xFFF) (e AND NOT 0xFFF) bm)"

section \<open>Initialisation from the multiboot2 memory map\<close>

definition read_entry :: "mem \<Rightarrow> u64 \<Rightarrow> mb_memory_entry" where
  "read_entry m a = \<lparr>base_addr = read64 m a, mb_length = read64 m (a + 8),
     mb_typ = read32 m (a + 16), mb_reserved = read32 m (a + 20)\<rparr>"

text \<open>The inner loop: free every whole page of one available region.\<close>

function mark_free_region :: "mb_memory_entry \<Rightarrow> u64 \<Rightarrow> bitmap \<Rightarrow> bitmap res" where
  "mark_free_region entry addr bm =
     rbind (padd addr 4096) (\<lambda>next.
     rbind (padd (base_addr entry) (mb_length entry)) (\<lambda>end.
     if next \<le> end then mark_free_region entry next (mark_free addr bm) else Inr bm))"
  by pat_completeness auto
termination
  by (relation "measure (\<lambda>(entry, addr, bm). 2 ^ 64 - unat addr)")
    (auto simp: padd_eq_Inr unat_add_small)

declare mark_free_region.simps [simp del]

definition mmap_entry :: "mb_memory_entry \<Rightarrow> bitmap \<Rightarrow> bitmap res" where
  "mmap_entry entry bm =
     (if mb_typ entry = 1
      then mark_free_region entry (if base_addr entry = 0 then 4096 else base_addr entry) bm
      else Inr bm)"

text \<open>
  The outer loop runs over the entries in steps of \<^verbatim>\<open>entry_size\<close>, a value read from the boot
  information; \<open>None\<close> is a loop that does not end (\<^verbatim>\<open>entry_size = 0\<close>).
\<close>

partial_function (option) mmap_loop ::
    "mem \<Rightarrow> u64 \<Rightarrow> u32 \<Rightarrow> u32 \<Rightarrow> u32 \<Rightarrow> bitmap \<Rightarrow> bitmap res option" where
  "mmap_loop m entries_start entries_len entry_size offset bm =
     (if offset < entries_len
      then (case rbind (padd entries_start (ucast offset)) (\<lambda>a. mmap_entry (read_entry m a) bm) of
              Inl e \<Rightarrow> Some (Inl e)
            | Inr bm' \<Rightarrow>
                (case padd offset entry_size of
                   Inl e \<Rightarrow> Some (Inl e)
                 | Inr offset' \<Rightarrow> mmap_loop m entries_start entries_len entry_size offset' bm'))
      else Some (Inr bm))"

definition mark_reserved :: "kimage \<Rightarrow> bitmap \<Rightarrow> bitmap res" where
  "mark_reserved ki bm =
     rbind (mark_used_range 0 0x100000 bm) (\<lambda>bm.
     rbind (padd (kernel_end ki) 0xFFF) (\<lambda>e.
       mark_used_range (kernel_start ki AND NOT 0xFFF) (e AND NOT 0xFFF) bm))"

definition pmm_init :: "kimage \<Rightarrow> mem \<Rightarrow> u64 \<Rightarrow> u32 \<Rightarrow> u32 \<Rightarrow> bitmap \<Rightarrow> bitmap res option" where
  "pmm_init ki m mmap_addr mmap_size entry_size bm =
     (case rbind (padd mmap_addr 16) (\<lambda>s. rbind (psub mmap_size 16) (\<lambda>l. Inr (s, l))) of
        Inl e \<Rightarrow> Some (Inl e)
      | Inr (entries_start, entries_len) \<Rightarrow>
          map_option (\<lambda>r. rbind r (mark_reserved ki))
            (mmap_loop m entries_start entries_len entry_size 0 bm))"

section \<open>Allocation and release\<close>

text \<open>\<^verbatim>\<open>u64::trailing_ones\<close> and \<^verbatim>\<open>u64::count_zeros\<close>.\<close>

definition trailing_ones :: "u64 \<Rightarrow> nat" where
  "trailing_ones w = length (takeWhile (bit w) [0..<64])"

definition count_zeros :: "u64 \<Rightarrow> nat" where
  "count_zeros w = length (filter (\<lambda>i. \<not> bit w i) [0..<64])"

function alloc_loop :: "nat \<Rightarrow> bitmap \<Rightarrow> (u64 \<times> bitmap) res" where
  "alloc_loop idx bm =
     (if idx < BITMAP_LEN
      then if bm ! idx \<noteq> 0xFFFFFFFFFFFFFFFF
           then let page = idx * 64 + trailing_ones (bm ! idx) in
                rbind (pmul (of_nat page) 4096) (\<lambda>addr. Inr (addr, mark_used addr bm))
           else alloc_loop (idx + 1) bm
      else Inl OutOfMemory)"
  by pat_completeness auto
termination
  by (relation "measure (\<lambda>(idx, bm). BITMAP_LEN - idx)") auto

declare alloc_loop.simps [simp del]

definition pmm_alloc :: "bitmap \<Rightarrow> (u64 \<times> bitmap) res" where
  "pmm_alloc bm = alloc_loop 0 bm"

fun alloc_pages_loop :: "nat \<Rightarrow> nat \<Rightarrow> u64 \<Rightarrow> bitmap \<Rightarrow> bitmap res" where
  "alloc_pages_loop i 0 first bm = Inr bm"
| "alloc_pages_loop i (Suc k) first bm =
     rbind (pmm_alloc bm) (\<lambda>(next, bm').
     rbind (pmul (of_nat i) 4096) (\<lambda>d.
     rbind (padd first d) (\<lambda>expected.
     if next = expected then alloc_pages_loop (Suc i) k first bm' else Inl NonContiguous)))"

text \<open>\<^verbatim>\<open>for i in 1..n\<close> runs \<open>n - 1\<close> times, starting at \<open>1\<close>.\<close>

definition alloc_pages :: "nat \<Rightarrow> bitmap \<Rightarrow> (u64 \<times> bitmap) res" where
  "alloc_pages n bm =
     rbind (pmm_alloc bm) (\<lambda>(first, bm').
     rbind (alloc_pages_loop 1 (n - 1) first bm') (\<lambda>bm''. Inr (first, bm'')))"

definition pmm_free :: "kimage \<Rightarrow> u64 \<Rightarrow> bitmap \<Rightarrow> bitmap res" where
  "pmm_free ki addr bm =
     (let addr = addr AND NOT 0xFFF; kstart = kernel_start ki AND NOT 0xFFF in
      rbind (padd (kernel_end ki) 0xFFF) (\<lambda>e.
      let kend = e AND NOT 0xFFF in
      if addr < 0x100000 \<or> addr \<ge> kstart \<and> addr < kend then Inr bm
      else let page = unat (addr div 4096); idx = page div 64; bt = page mod 64 in
           if idx \<ge> BITMAP_LEN then Inr bm
           else if bm ! idx AND push_bit bt 1 = 0 then Inr bm
           else Inr (mark_free addr bm)))"

definition free_pages :: "bitmap \<Rightarrow> u64" where
  "free_pages bm = foldl (\<lambda>free w. free + of_nat (count_zeros w)) 0 bm"

section \<open>Abstraction\<close>

definition bitmap_ok :: "bitmap \<Rightarrow> bool" where
  "bitmap_ok bm \<longleftrightarrow> length bm = BITMAP_LEN"

definition page_no :: "u64 \<Rightarrow> nat" where
  "page_no addr = unat addr div 4096"

definition free_set :: "bitmap \<Rightarrow> nat set" where
  "free_set bm = {p. p < 64 * BITMAP_LEN \<and> \<not> bit (bm ! (p div 64)) (p mod 64)}"

lemmas pmm_defs = BITMAP_LEN_def bitmap_ok_def page_no_def

lemma page_no_div: "unat (addr div 4096) = page_no addr"
  by (simp add: page_no_def unat_div)

lemma bitmap_ok_mark [simp]:
  "bitmap_ok (mark_free a bm) = bitmap_ok bm"
  "bitmap_ok (mark_used a bm) = bitmap_ok bm"
  by (simp_all add: bitmap_ok_def mark_free_def mark_used_def Let_def)

lemma div_mod_64_eq: "p div 64 = q div 64 \<Longrightarrow> p mod 64 = q mod 64 \<longleftrightarrow> p = q" for p q :: nat
  by (metis div_mult_mod_eq)

lemma word_index_lt: "p < 64 * BITMAP_LEN \<longleftrightarrow> p div 64 < BITMAP_LEN"
  by (auto simp: BITMAP_LEN_def)

lemma free_set_mark_used [simp]:
  assumes "bitmap_ok bm"
  shows "free_set (mark_used a bm) = free_set bm - {page_no a}"
proof (rule set_eqI)
  fix p
  show "p \<in> free_set (mark_used a bm) \<longleftrightarrow> p \<in> free_set bm - {page_no a}"
    using assms div_mod_64_eq [of p "page_no a"]
    by (cases "p div 64 = page_no a div 64")
      (auto simp: free_set_def mark_used_def Let_def page_no_div bitmap_ok_def word_index_lt
        bit_set_bit64 [simplified])
qed

lemma free_set_mark_free [simp]:
  assumes "bitmap_ok bm"
  shows "free_set (mark_free a bm) = free_set bm \<union> ({page_no a} \<inter> {..<64 * BITMAP_LEN})"
proof (rule set_eqI)
  fix p
  show "p \<in> free_set (mark_free a bm) \<longleftrightarrow> p \<in> free_set bm \<union> ({page_no a} \<inter> {..<64 * BITMAP_LEN})"
    using assms div_mod_64_eq [of p "page_no a"]
    by (cases "p div 64 = page_no a div 64")
      (auto simp: free_set_def mark_free_def Let_def page_no_div bitmap_ok_def word_index_lt
        bit_clear_bit64 [simplified])
qed

lemma finite_free_set [simp]: "finite (free_set bm)"
  by (rule finite_subset [of _ "{..<64 * BITMAP_LEN}"]) (auto simp: free_set_def)

lemma free_set_bound: "p \<in> free_set bm \<Longrightarrow> p < 2097152"
  by (simp add: free_set_def BITMAP_LEN_def)

lemma page_no_of_nat: "p < 2097152 \<Longrightarrow> page_no (of_nat p * 4096) = p"
proof -
  assume p: "p < 2097152"
  then have "unat (of_nat p :: u64) * unat (4096 :: u64) = p * 4096"
    by (simp add: unat_of_nat_small)
  with p have "unat (of_nat p * 4096 :: u64) = p * 4096"
    by (subst unat_mult_small) simp_all
  then show ?thesis by (simp add: page_no_def)
qed

lemma unat_page_addr: "p < 2097152 \<Longrightarrow> unat (of_nat p * 4096 :: u64) = p * 4096"
  by (subst unat_mult_small) (simp_all add: unat_of_nat_small)

subsection \<open>The allocator picks the lowest free page\<close>

lemma trailing_ones_spec:
  assumes "w \<noteq> 0xFFFFFFFFFFFFFFFF"
  shows "trailing_ones w < 64 \<and> \<not> bit w (trailing_ones w) \<and> (\<forall>j<trailing_ones w. bit w j)"
proof -
  let ?t = "takeWhile (bit w) [0..<64]"
  from assms obtain i where i: "i < 64" "\<not> bit w i" using not_max_iff by blast
  have "length ?t < 64"
  proof (rule ccontr)
    assume "\<not> length ?t < 64"
    then have "?t = [0..<64]"
      by (metis length_takeWhile_le length_upt diff_zero le_antisym linorder_not_less takeWhile_eq_take
          take_all_iff)
    then have "\<forall>x \<in> set [0..<64]. bit w x" by (metis set_takeWhileD)
    with i show False by simp
  qed
  then show ?thesis
    using nth_length_takeWhile [of "bit w" "[0..<64]"] takeWhile_nth [of _ "bit w" "[0..<64]"]
      nth_mem [of _ ?t] set_takeWhileD [of _ "bit w" "[0..<64]"]
    by (fastforce simp: trailing_ones_def)
qed

lemma alloc_loop_eq:
  assumes "bitmap_ok bm" "idx \<le> BITMAP_LEN" "\<forall>p \<in> free_set bm. idx * 64 \<le> p"
  shows "alloc_loop idx bm =
    (if free_set bm = {} then Inl OutOfMemory
     else let a = of_nat (Min (free_set bm)) * 4096 in Inr (a, mark_used a bm))"
  using assms
proof (induction idx bm rule: alloc_loop.induct)
  case (1 idx bm)
  consider (oom) "idx = BITMAP_LEN" | (found) "idx < BITMAP_LEN" "bm ! idx \<noteq> 0xFFFFFFFFFFFFFFFF"
    | (skip) "idx < BITMAP_LEN" "bm ! idx = 0xFFFFFFFFFFFFFFFF"
    using "1.prems"(2) by linarith
  then show ?case
  proof cases
    case oom
    with "1.prems"(3) have "free_set bm = {}" by (force simp: free_set_def)
    with oom show ?thesis by (simp add: alloc_loop.simps)
  next
    case found
    define p where "p = idx * 64 + trailing_ones (bm ! idx)"
    note t = trailing_ones_spec [OF found(2)]
    have pd: "p div 64 = idx" "p mod 64 = trailing_ones (bm ! idx)"
      using t by (simp_all add: p_def)
    have mem: "p \<in> free_set bm"
      using found(1) t pd by (simp add: free_set_def word_index_lt)
    have "p \<le> q" if q: "q \<in> free_set bm" for q
    proof (rule ccontr)
      assume less: "\<not> p \<le> q"
      have "idx * 64 \<le> q" using "1.prems"(3) q by blast
      then obtain r where r: "q = idx * 64 + r" using le_iff_add by blast
      with less t have "r < trailing_ones (bm ! idx)" "r < 64" by (simp_all add: p_def)
      with q t r show False by (simp add: free_set_def)
    qed
    then have "Min (free_set bm) = p" using mem by (intro Min_eqI) auto
    moreover have "free_set bm \<noteq> {}" using mem by blast
    moreover have "pmul (of_nat p) 4096 = Inr (of_nat p * 4096 :: u64)"
      using free_set_bound [OF mem] by (simp add: pmul_def unat_of_nat_small)
    ultimately show ?thesis
      using found by (simp add: alloc_loop.simps [of idx] Let_def p_def)
  next
    case skip
    have "Suc idx * 64 \<le> q" if q: "q \<in> free_set bm" for q
    proof -
      have "q div 64 \<noteq> idx"
        using q skip(2) not_max_iff [of "bm ! idx"] by (auto simp: free_set_def)
      moreover have "idx * 64 \<le> q" using "1.prems"(3) q by blast
      ultimately show ?thesis by simp
    qed
    with "1.IH" "1.prems"(1) skip show ?thesis
      by (simp add: alloc_loop.simps [of idx])
  qed
qed

lemma pmm_alloc_eq:
  "bitmap_ok bm \<Longrightarrow> pmm_alloc bm =
    (if free_set bm = {} then Inl OutOfMemory
     else let a = of_nat (Min (free_set bm)) * 4096 in Inr (a, mark_used a bm))"
  unfolding pmm_alloc_def by (rule alloc_loop_eq) simp_all

lemma pmm_alloc_InrD:
  assumes "bitmap_ok bm" "pmm_alloc bm = Inr (a, bm')"
  shows "bitmap_ok bm'" "unat a = page_no a * 4096" "page_no a = Min (free_set bm)"
    "page_no a \<in> free_set bm" "free_set bm' = free_set bm - {page_no a}"
proof -
  from assms have ne: "free_set bm \<noteq> {}" and a: "a = of_nat (Min (free_set bm)) * 4096"
    and bm': "bm' = mark_used a bm"
    by (auto simp: pmm_alloc_eq Let_def split: if_splits)
  have m: "Min (free_set bm) \<in> free_set bm" using ne by simp
  then have b: "Min (free_set bm) < 2097152" by (rule free_set_bound)
  show p: "page_no a = Min (free_set bm)" using b by (simp add: a page_no_of_nat)
  show "unat a = page_no a * 4096" using b by (simp add: p) (simp add: a unat_page_addr)
  show "page_no a \<in> free_set bm" using m p by simp
  show "bitmap_ok bm'" "free_set bm' = free_set bm - {page_no a}"
    using assms(1) by (simp_all add: bm')
qed

subsection \<open>The interface of the allocator\<close>

text \<open>
  What the page tables, the processes and the drivers rely on: a page comes from the free set,
  is page-aligned, and leaves the free set; allocation fails only when nothing is free.
\<close>

locale page_allocator =
  fixes ok :: "'s \<Rightarrow> bool" and frees :: "'s \<Rightarrow> nat set" and alloc :: "'s \<Rightarrow> (u64 \<times> 's) res"
  assumes alloc_fails: "ok s \<Longrightarrow> alloc s = Inl e \<Longrightarrow> e = OutOfMemory \<and> frees s = {}"
    and alloc_ok: "ok s \<Longrightarrow> alloc s = Inr (a, s') \<Longrightarrow> ok s'"
    and alloc_page: "ok s \<Longrightarrow> alloc s = Inr (a, s') \<Longrightarrow> page_no a \<in> frees s"
    and alloc_frees: "ok s \<Longrightarrow> alloc s = Inr (a, s') \<Longrightarrow> frees s' = frees s - {page_no a}"
    and alloc_aligned: "ok s \<Longrightarrow> alloc s = Inr (a, s') \<Longrightarrow> unat a = page_no a * 4096"
begin

lemma alloc_succeeds: "ok s \<Longrightarrow> frees s \<noteq> {} \<Longrightarrow> \<exists>a s'. alloc s = Inr (a, s')"
  using alloc_fails by (cases "alloc s") auto

lemma alloc_distinct:
  assumes "ok s" "alloc s = Inr (a, s1)" "ok s1" "alloc s1 = Inr (b, s2)"
  shows "page_no a \<noteq> page_no b"
  using alloc_frees [OF assms(1,2)] alloc_page [OF assms(3,4)] by auto

lemma alloc_not_free: "ok s \<Longrightarrow> alloc s = Inr (a, s') \<Longrightarrow> page_no a \<notin> frees s'"
  by (simp add: alloc_frees)

lemma alloc_frees_subset: "ok s \<Longrightarrow> alloc s = Inr (a, s') \<Longrightarrow> frees s' \<subseteq> frees s"
  by (simp add: alloc_frees)

lemma two_allocs:
  assumes "ok s" "rbind (alloc s) (\<lambda>(a, s1). rbind (alloc s1) (\<lambda>(b, s2). Inr (a, b, s2))) = Inr (a, b, s')"
  shows "ok s' \<and> {page_no a, page_no b} \<subseteq> frees s \<and> page_no a \<noteq> page_no b
    \<and> frees s' = frees s - {page_no a, page_no b}"
proof -
  from assms(2) obtain s1 where 1: "alloc s = Inr (a, s1)" and 2: "alloc s1 = Inr (b, s')"
    by (auto simp: rbind_eq_Inr)
  note o1 = alloc_ok [OF assms(1) 1]
  show ?thesis
    using alloc_ok [OF o1 2] alloc_page [OF assms(1) 1] alloc_page [OF o1 2]
      alloc_frees [OF assms(1) 1] alloc_frees [OF o1 2] by auto
qed

end

interpretation pmm: page_allocator bitmap_ok free_set pmm_alloc
proof unfold_locales
  fix s e assume "bitmap_ok s" "pmm_alloc s = Inl e"
  then show "e = OutOfMemory \<and> free_set s = {}"
    by (auto simp: pmm_alloc_eq Let_def split: if_splits)
qed (auto dest: pmm_alloc_InrD)

subsection \<open>Contiguous allocation\<close>

lemma alloc_pages_loop_spec:
  assumes "bitmap_ok bm" "alloc_pages_loop i k first bm = Inr bm'"
    "unat first = page_no first * 4096" "page_no first + i \<le> 2097152"
  shows "bitmap_ok bm' \<and> (let ps = {page_no first + i ..< page_no first + i + k} in
    ps \<subseteq> free_set bm \<and> free_set bm' = free_set bm - ps)"
  using assms
proof (induction k arbitrary: i bm)
  case 0
  then show ?case by simp
next
  case (Suc k)
  let ?p = "page_no first + i"
  from Suc.prems(2) obtain bm1 where
    al: "pmm_alloc bm = Inr (first + of_nat i * 4096, bm1)"
    and rest: "alloc_pages_loop (Suc i) k first bm1 = Inr bm'"
    and no_ovf: "unat first + unat (of_nat i * 4096 :: u64) < 2 ^ 64"
    by (auto simp: res_simps split: if_splits)
  have i: "i < 2 ^ 64" "i \<le> 2097152" using Suc.prems(4) by simp_all
  have "unat (of_nat i * 4096 :: u64) = i * 4096"
    using i by (subst unat_mult_small) (simp_all add: unat_of_nat_small)
  then have "unat (first + of_nat i * 4096) = page_no first * 4096 + i * 4096"
    using unat_add_small [of first "of_nat i * 4096"] no_ovf Suc.prems(3) by simp
  also have "\<dots> = ?p * 4096" by (simp add: add_mult_distrib)
  finally have pn: "page_no (first + of_nat i * 4096) = ?p"
    unfolding page_no_def [of "first + of_nat i * 4096"] by (simp only:) simp
  note A = pmm_alloc_InrD [OF Suc.prems(1) al, unfolded pn]
  have "?p < 2097152" using A(4) by (rule free_set_bound)
  then have IH: "bitmap_ok bm' \<and> (let ps = {page_no first + Suc i ..< page_no first + Suc i + k} in
      ps \<subseteq> free_set bm1 \<and> free_set bm' = free_set bm1 - ps)"
    using Suc.IH [OF A(1) rest Suc.prems(3)] by simp
  have "{?p ..< ?p + Suc k} = insert ?p {page_no first + Suc i ..< page_no first + Suc i + k}"
    by auto
  then show ?case using IH A(4,5) by (auto simp: Let_def)
qed

lemma alloc_pages_spec:
  assumes "bitmap_ok bm" "alloc_pages n bm = Inr (first, bm')"
  shows "bitmap_ok bm' \<and> unat first = page_no first * 4096
    \<and> {page_no first ..< page_no first + max 1 n} \<subseteq> free_set bm
    \<and> free_set bm' = free_set bm - {page_no first ..< page_no first + max 1 n}"
proof -
  from assms(2) obtain bm1 where al: "pmm_alloc bm = Inr (first, bm1)"
    and rest: "alloc_pages_loop 1 (n - 1) first bm1 = Inr bm'"
    by (auto simp: alloc_pages_def res_simps)
  note A = pmm_alloc_InrD [OF assms(1) al]
  have "page_no first + 1 \<le> 2097152" using free_set_bound [OF A(4)] by simp
  note L = alloc_pages_loop_spec [OF A(1) rest A(2) this]
  have "{page_no first ..< page_no first + max 1 n} =
      insert (page_no first) {page_no first + 1 ..< page_no first + 1 + (n - 1)}"
    by (cases n) auto
  then show ?thesis using L A by (auto simp: Let_def)
qed

subsection \<open>Reserved pages are never handed back\<close>

definition page_ceil :: "u64 \<Rightarrow> nat" where
  "page_ceil a = (unat a + 4095) div 4096"

definition reserved_pages :: "kimage \<Rightarrow> nat set" where
  "reserved_pages ki = {..<256} \<union> {page_no (kernel_start ki) ..< page_ceil (kernel_end ki)}"

definition kimage_ok :: "kimage \<Rightarrow> bool" where
  "kimage_ok ki \<longleftrightarrow> unat (kernel_end ki) + 4095 < 2 ^ 64"

lemma unat_page_base_no: "unat (a AND NOT 0xFFF) = page_no a * 4096"
  unfolding page_no_def by (rule unat_page_base)

lemma page_no_base [simp]: "page_no (a AND NOT 0xFFF) = page_no a"
  by (simp only: page_no_def [of "a AND NOT 0xFFF"] unat_page_base_no)

lemma padd_round: "unat a + 4095 < 2 ^ 64 \<Longrightarrow> padd a 0xFFF = Inr (a + 0xFFF)" for a :: u64
  by (simp add: padd_def)

lemma unat_round_up:
  "unat a + 4095 < 2 ^ 64 \<Longrightarrow> unat ((a + 0xFFF) AND NOT 0xFFF) = page_ceil a * 4096"
  using unat_add_small [of a "0xFFF"] by (simp only: unat_page_base page_ceil_def) simp

lemma pmm_free_spec:
  assumes "bitmap_ok bm" "kimage_ok ki"
  shows "\<exists>bm'. pmm_free ki a bm = Inr bm' \<and> bitmap_ok bm' \<and>
    free_set bm' = free_set bm \<union> ({page_no a} \<inter> {..<64 * BITMAP_LEN} - reserved_pages ki)"
proof -
  let ?a = "a AND NOT 0xFFF" and ?e = "(kernel_end ki + 0xFFF) AND NOT 0xFFF"
    and ?s = "kernel_start ki AND NOT 0xFFF"
  have ke: "unat (kernel_end ki) + 4095 < 2 ^ 64" using assms(2) by (simp add: kimage_ok_def)
  have low: "?a < 0x100000 \<longleftrightarrow> page_no a < 256"
    unfolding word_less_nat_alt unat_page_base_no by simp
  have ks: "?a \<ge> ?s \<longleftrightarrow> page_no (kernel_start ki) \<le> page_no a"
    unfolding word_le_nat_alt unat_page_base_no by simp
  have kend: "?a < ?e \<longleftrightarrow> page_no a < page_ceil (kernel_end ki)"
    by (simp only: word_less_nat_alt unat_round_up [OF ke]) (simp add: unat_page_base_no [simplified])
  have res: "?a < 0x100000 \<or> ?a \<ge> ?s \<and> ?a < ?e \<longleftrightarrow> page_no a \<in> reserved_pages ki"
    unfolding low ks kend reserved_pages_def by auto
  have idx: "unat (?a div 4096) = page_no a" by (simp only: page_no_div page_no_base)
  have free_bit: "bm ! (page_no a div 64) AND push_bit (page_no a mod 64) 1 = 0 \<longleftrightarrow>
      page_no a \<in> free_set bm" if "page_no a div 64 < BITMAP_LEN"
    using that unfolding and_bit64_eq_0 by (simp add: free_set_def word_index_lt)
  have mf: "mark_free ?a bm = mark_free a bm"
    unfolding mark_free_def page_no_div page_no_base ..
  show ?thesis
    unfolding pmm_free_def Let_def padd_round [OF ke] rbind_simps res idx mf
    using assms(1) free_bit by (auto simp: word_index_lt)
qed

lemma mark_used_range_spec:
  assumes "bitmap_ok bm" "unat addr = i * 4096" "unat end = j * 4096"
  shows "\<exists>bm'. mark_used_range addr end bm = Inr bm' \<and> bitmap_ok bm' \<and>
    free_set bm' = free_set bm - {i..<j}"
  using assms
proof (induction addr "end" bm arbitrary: i rule: mark_used_range.induct)
  case (1 addr "end" bm)
  show ?case
  proof (cases "addr < end")
    case True
    then have "i < j" using "1.prems" by (simp add: word_less_nat_alt)
    then have "unat addr + 4096 \<le> unat end" using "1.prems"(2,3) by simp
    then have "unat addr + 4096 < 18446744073709551616"
      using unat_lt_64 [of "end"] by linarith
    then have small: "unat addr + unat (4096::u64) < 2 ^ 64" by simp
    then have p: "padd addr 4096 = Inr (addr + 4096)" by (simp add: padd_def)
    have "unat (addr + 4096) = Suc i * 4096"
      using unat_add_small [of addr 4096] small "1.prems"(2) by simp
    moreover have "page_no addr = i" using "1.prems"(2) by (simp add: page_no_def)
    ultimately show ?thesis
      using "1.IH" [OF True p, of "Suc i"] "1.prems" True p \<open>i < j\<close>
      by (auto simp: mark_used_range.simps [of addr] insert_Diff_if)
  next
    case False
    then have "j \<le> i" using "1.prems" by (simp add: word_less_nat_alt)
    with False "1.prems"(1) show ?thesis by (simp add: mark_used_range.simps [of addr])
  qed
qed

lemma reserve_spec:
  assumes "bitmap_ok bm" "unat end + 4095 < 2 ^ 64"
  shows "\<exists>bm'. reserve start end bm = Inr bm' \<and> bitmap_ok bm' \<and>
    free_set bm' = free_set bm - {page_no start ..< page_ceil end}"
  unfolding reserve_def padd_round [OF assms(2)] rbind_simps
  by (rule mark_used_range_spec [OF assms(1) unat_page_base_no unat_round_up [OF assms(2)]])

lemma mark_reserved_spec:
  assumes "bitmap_ok bm" "kimage_ok ki"
  shows "\<exists>bm'. mark_reserved ki bm = Inr bm' \<and> bitmap_ok bm' \<and>
    free_set bm' = free_set bm - reserved_pages ki"
proof -
  have ke: "unat (kernel_end ki) + 4095 < 2 ^ 64" using assms(2) by (simp add: kimage_ok_def)
  obtain bm1 where 1: "mark_used_range 0 0x100000 bm = Inr bm1" "bitmap_ok bm1"
    "free_set bm1 = free_set bm - {0..<256}"
    using mark_used_range_spec [OF assms(1), of 0 0 "0x100000" 256] by auto
  obtain bm2 where 2: "mark_used_range (kernel_start ki AND NOT 0xFFF)
      ((kernel_end ki + 0xFFF) AND NOT 0xFFF) bm1 = Inr bm2" "bitmap_ok bm2"
    "free_set bm2 = free_set bm1 - {page_no (kernel_start ki) ..< page_ceil (kernel_end ki)}"
    using mark_used_range_spec [OF 1(2) unat_page_base_no unat_round_up [OF ke]] by blast
  have "free_set bm2 = free_set bm - reserved_pages ki"
    unfolding 1(3) 2(3) reserved_pages_def by auto
  then show ?thesis
    unfolding mark_reserved_def padd_round [OF ke] rbind_simps 1(1) 2(1) using 2(2) by simp
qed

subsection \<open>Initialisation\<close>

text \<open>The pages of an available region that the inner loop frees: one for every step of 4096
  bytes that still fits, counted from the page that holds the first byte.\<close>

definition region_start :: "mb_memory_entry \<Rightarrow> u64" where
  "region_start e = (if base_addr e = 0 then 4096 else base_addr e)"

definition region_end :: "mb_memory_entry \<Rightarrow> nat" where
  "region_end e = unat (base_addr e) + unat (mb_length e)"

definition avail_pages :: "mb_memory_entry \<Rightarrow> nat set" where
  "avail_pages e = (if mb_typ e = 1
     then {page_no (region_start e) ..<
           page_no (region_start e) + (region_end e - unat (region_start e)) div 4096}
     else {})"

lemma mark_free_region_spec:
  assumes "bitmap_ok bm" "region_end e + 4096 < 2 ^ 64" "unat addr \<le> max 4096 (region_end e)"
  shows "\<exists>bm'. mark_free_region e addr bm = Inr bm' \<and> bitmap_ok bm' \<and>
    free_set bm' = free_set bm \<union>
      ({page_no addr ..< page_no addr + (region_end e - unat addr) div 4096} \<inter> {..<64 * BITMAP_LEN})"
  using assms
proof (induction e addr bm rule: mark_free_region.induct)
  case (1 e addr bm)
  have small: "unat addr + unat (4096::u64) < 2 ^ 64" using "1.prems"(2,3) by simp
  then have nx: "padd addr 4096 = Inr (addr + 4096)" "unat (addr + 4096) = unat addr + 4096"
    using unat_add_small [of addr 4096] by (simp_all add: padd_def)
  have "unat (base_addr e) + unat (mb_length e) < 2 ^ 64"
    using "1.prems"(2) by (simp add: region_end_def)
  then have endv: "padd (base_addr e) (mb_length e) = Inr (base_addr e + mb_length e)"
    "unat (base_addr e + mb_length e) = region_end e"
    using unat_add_small [of "base_addr e" "mb_length e"] by (simp_all add: padd_def region_end_def)
  show ?case
  proof (cases "addr + 4096 \<le> base_addr e + mb_length e")
    case True
    then have le: "unat addr + 4096 \<le> region_end e" by (simp add: word_le_nat_alt nx endv)
    have pn: "page_no (addr + 4096) = Suc (page_no addr)"
      by (simp add: page_no_def nx)
    obtain d where "region_end e = unat addr + 4096 + d" using le le_iff_add by blast
    then have "(region_end e - unat addr) div 4096 = Suc ((region_end e - unat (addr + 4096)) div 4096)"
      by (simp add: nx)
    moreover have "unat (addr + 4096) \<le> max 4096 (region_end e)" using le by (simp add: nx)
    ultimately show ?thesis
      using "1.IH" [OF nx(1) endv(1) True] "1.prems" True
      by (auto simp: mark_free_region.simps [of e addr] nx endv pn)
  next
    case False
    then have "region_end e < unat addr + 4096" by (simp add: word_le_nat_alt nx endv)
    then have "(region_end e - unat addr) div 4096 = 0" by simp
    with False "1.prems"(1) show ?thesis
      by (simp add: mark_free_region.simps [of e addr] nx endv)
  qed
qed

fun mmap_entries :: "mb_memory_entry list \<Rightarrow> bitmap \<Rightarrow> bitmap res" where
  "mmap_entries [] bm = Inr bm"
| "mmap_entries (e # es) bm = rbind (mmap_entry e bm) (mmap_entries es)"

definition entry_ok :: "mb_memory_entry \<Rightarrow> bool" where
  "entry_ok e \<longleftrightarrow> mb_typ e = 1 \<longrightarrow> region_end e + 4096 < 2 ^ 64"

lemma mmap_entry_spec:
  assumes "bitmap_ok bm" "entry_ok e"
  shows "\<exists>bm'. mmap_entry e bm = Inr bm' \<and> bitmap_ok bm' \<and>
    free_set bm' = free_set bm \<union> (avail_pages e \<inter> {..<64 * BITMAP_LEN})"
proof (cases "mb_typ e = 1")
  case True
  have "unat (region_start e) \<le> max 4096 (region_end e)"
    by (simp add: region_start_def region_end_def max_def)
  then show ?thesis
    using True assms mark_free_region_spec [OF assms(1), of e "region_start e"]
    by (simp add: mmap_entry_def avail_pages_def entry_ok_def region_start_def)
next
  case False
  then show ?thesis using assms(1) by (simp add: mmap_entry_def avail_pages_def)
qed

lemma mmap_entries_spec:
  assumes "bitmap_ok bm" "\<forall>e \<in> set es. entry_ok e"
  shows "\<exists>bm'. mmap_entries es bm = Inr bm' \<and> bitmap_ok bm' \<and>
    free_set bm' = free_set bm \<union> ((\<Union>e \<in> set es. avail_pages e) \<inter> {..<64 * BITMAP_LEN})"
  using assms
proof (induction es arbitrary: bm)
  case (Cons e es)
  from Cons.prems obtain bm1 where 1: "mmap_entry e bm = Inr bm1" "bitmap_ok bm1"
    "free_set bm1 = free_set bm \<union> (avail_pages e \<inter> {..<64 * BITMAP_LEN})"
    using mmap_entry_spec by (metis list.set_intros(1))
  from Cons.IH [OF 1(2)] Cons.prems(2) show ?case using 1 by auto
qed simp

text \<open>The entries at offsets \<open>0, entry_size, 2 * entry_size, \<dots>\<close> below \<open>entries_len\<close>.\<close>

definition mmap_list :: "mem \<Rightarrow> u64 \<Rightarrow> u32 \<Rightarrow> u32 \<Rightarrow> mb_memory_entry list" where
  "mmap_list m start len esize =
     map (\<lambda>k. read_entry m (start + of_nat (k * unat esize)))
       [0..<(unat len + unat esize - 1) div unat esize]"

lemma mmap_loop_from:
  assumes "unat esize > 0" "unat len + unat esize < 2 ^ 32" "unat start + unat len < 2 ^ 64"
    and "n = (unat len + unat esize - 1) div unat esize" "k \<le> n"
    and "unat offset = k * unat esize"
  shows "mmap_loop m start len esize offset bm =
    Some (mmap_entries (map (\<lambda>k. read_entry m (start + of_nat (k * unat esize))) [k..<n]) bm)"
  using assms(5,6)
proof (induction "n - k" arbitrary: k offset bm)
  case 0
  then have "\<not> k < n" by simp
  then have "\<not> k * unat esize < unat len"
    by (simp only: assms(4) less_ceil_div_iff [OF assms(1)]) simp
  then have "\<not> offset < len" using 0 by (simp add: word_less_nat_alt)
  then show ?case using \<open>\<not> k < n\<close> by (subst mmap_loop.simps) simp
next
  case (Suc d)
  then have k: "k < n" by simp
  then have kl: "k * unat esize < unat len"
    by (simp only: assms(4) less_ceil_div_iff [OF assms(1)])
  then have lt: "offset < len" using Suc.prems by (simp add: word_less_nat_alt)
  have uo: "unat (ucast offset :: u64) = unat offset"
    by (simp add: unsigned_ucast_eq take_bit_nat_eq_self_iff)
      (rule less_trans [OF unsigned_less], simp)
  have "unat start + unat (ucast offset :: u64) < 2 ^ 64"
    using assms(3) kl Suc.prems(2) unfolding uo by simp
  then have p1: "padd start (ucast offset) = Inr (start + ucast offset)" by (simp add: padd_def)
  have uc: "(ucast offset :: u64) = of_nat (k * unat esize)"
    by (simp only: of_nat_unat flip: Suc.prems(2))
  have "unat offset + unat esize < 2 ^ 32" using assms(2) kl Suc.prems(2) by simp
  then have p2: "padd offset esize = Inr (offset + esize)"
    and "unat (offset + esize) = Suc k * unat esize"
    using unat_add_small [of offset esize] Suc.prems(2) by (simp_all add: padd_def)
  with Suc.hyps k have IH: "mmap_loop m start len esize (offset + esize) bm' =
      Some (mmap_entries (map (\<lambda>k. read_entry m (start + of_nat (k * unat esize))) [Suc k..<n]) bm')"
    for bm' by (simp add: Suc_leI)
  show ?case
    using k lt by (subst mmap_loop.simps)
      (simp add: p1 [unfolded uc] p2 IH uc upt_conv_Cons del: of_nat_mult split: sum.split)
qed

lemma mmap_loop_eq:
  assumes "unat esize > 0" "unat len + unat esize < 2 ^ 32" "unat start + unat len < 2 ^ 64"
  shows "mmap_loop m start len esize 0 bm = Some (mmap_entries (mmap_list m start len esize) bm)"
  unfolding mmap_list_def by (rule mmap_loop_from [OF assms refl]) simp_all

lemma free_set_init [simp]: "free_set BITMAP_INIT = {}"
  using not_max_iff [of "0xFFFFFFFFFFFFFFFF"]
  by (auto simp: free_set_def BITMAP_INIT_def BITMAP_LEN_def)

lemma bitmap_ok_init [simp]: "bitmap_ok BITMAP_INIT"
  by (simp add: bitmap_ok_def BITMAP_INIT_def)

lemma pmm_init_spec:
  assumes "kimage_ok ki" "16 \<le> msize" "unat esize > 0" "unat msize + unat esize < 2 ^ 32"
    and "unat addr + unat msize < 2 ^ 64"
    and "\<forall>e \<in> set (mmap_list m (addr + 16) (msize - 16) esize). entry_ok e"
  shows "\<exists>bm. pmm_init ki m addr msize esize BITMAP_INIT = Some (Inr bm) \<and> bitmap_ok bm \<and>
    free_set bm = (\<Union>e \<in> set (mmap_list m (addr + 16) (msize - 16) esize). avail_pages e)
      \<inter> {..<64 * BITMAP_LEN} - reserved_pages ki"
proof -
  let ?es = "mmap_list m (addr + 16) (msize - 16) esize"
  have s16: "16 \<le> unat msize" using assms(2) by (simp add: word_le_nat_alt)
  have us: "unat (msize - 16) = unat msize - 16" using assms(2) by (simp add: unat_sub)
  have a16: "unat addr + unat (16::u64) < 2 ^ 64" using assms(5) s16 by simp
  then have ua: "unat (addr + 16) = unat addr + 16" using unat_add_small [of addr 16] by simp
  have pre: "rbind (padd addr 16) (\<lambda>s. rbind (psub msize 16) (\<lambda>l. Inr (s, l))) = Inr (addr + 16, msize - 16)"
    using a16 assms(2) by (simp add: padd_def psub_def)
  have loop: "mmap_loop m (addr + 16) (msize - 16) esize 0 BITMAP_INIT = Some (mmap_entries ?es BITMAP_INIT)"
    using assms(3-5) s16 by (intro mmap_loop_eq) (simp_all add: us ua)
  obtain bm1 where 1: "mmap_entries ?es BITMAP_INIT = Inr bm1" "bitmap_ok bm1"
    "free_set bm1 = (\<Union>e \<in> set ?es. avail_pages e) \<inter> {..<64 * BITMAP_LEN}"
    using mmap_entries_spec [OF bitmap_ok_init assms(6)] by auto
  show ?thesis
    using mark_reserved_spec [OF 1(2) assms(1)]
    by (simp add: pmm_init_def pre loop 1(1) 1(3))
qed

subsection \<open>Counting\<close>

lemma card_word_zeros: "card {j. j < 64 \<and> \<not> bit w j} = count_zeros w"
proof -
  have "{j. j < 64 \<and> \<not> bit w j} = set (filter (\<lambda>i. \<not> bit w i) [0..<64])" by auto
  then show ?thesis by (simp only: count_zeros_def distinct_card distinct_filter distinct_upt)
qed

lemma card_clear_bits:
  "card {p. p < 64 * length bm \<and> \<not> bit (bm ! (p div 64)) (p mod 64)} = sum_list (map count_zeros bm)"
proof (induction bm rule: rev_induct)
  case (snoc w bm)
  let ?A = "{p. p < 64 * length bm \<and> \<not> bit (bm ! (p div 64)) (p mod 64)}"
  let ?B = "(\<lambda>j. 64 * length bm + j) ` {j. j < 64 \<and> \<not> bit w j}"
  have split: "{p. p < 64 * length (bm @ [w]) \<and> \<not> bit ((bm @ [w]) ! (p div 64)) (p mod 64)} = ?A \<union> ?B"
    (is "?L = _")
  proof (rule set_eqI)
    fix p
    show "p \<in> ?L \<longleftrightarrow> p \<in> ?A \<union> ?B"
    proof (cases "p < 64 * length bm")
      case True
      then have "p div 64 < length bm" by simp
      with True show ?thesis by (auto simp: nth_append)
    next
      case False
      then obtain j where j: "p = 64 * length bm + j"
        using le_Suc_ex [of "64 * length bm" p] by auto
      have "p \<in> ?L \<longleftrightarrow> j < 64 \<and> \<not> bit w j"
      proof (cases "j < 64")
        case True
        then have "p div 64 = length bm" "p mod 64 = j" by (simp_all add: j)
        with True show ?thesis by (simp add: nth_append) (simp add: j)
      qed (simp add: j)
      moreover have "p \<in> ?B \<longleftrightarrow> j < 64 \<and> \<not> bit w j" by (auto simp: j)
      moreover have "p \<notin> ?A" using False by simp
      ultimately show ?thesis by blast
    qed
  qed
  have "card ?B = count_zeros w"
    by (subst card_image) (auto simp: card_word_zeros inj_on_def)
  moreover have "?A \<inter> ?B = {}" by auto
  moreover have "finite ?A" "finite ?B" by auto
  ultimately show ?case using snoc by (simp only: split card_Un_disjoint) simp
qed simp

lemma count_zeros_le: "count_zeros w \<le> 64"
  using length_filter_le [of _ "[0..<64]"] by (simp add: count_zeros_def)

lemma free_pages_sum:
  "unat c + 64 * length bm < 2 ^ 64 \<Longrightarrow>
   unat (foldl (\<lambda>free w. free + of_nat (count_zeros w)) c bm) = unat c + sum_list (map count_zeros bm)"
  for c :: u64
proof (induction bm arbitrary: c)
  case (Cons w bm)
  have z: "count_zeros w \<le> 64" by (rule count_zeros_le)
  have "unat (c + of_nat (count_zeros w)) = unat c + count_zeros w"
    using Cons.prems z by (intro unat_plus_nat) simp
  then show ?case using Cons z by simp
qed simp

section \<open>Properties\<close>

text \<open>C7. Allocation is exact: \<^verbatim>\<open>pmm::alloc\<close> returns the address of the lowest free page and marks
  exactly that page used; it panics (out of memory) precisely when no page is free.\<close>

theorem pmm_alloc_lowest_free:
  assumes "bitmap_ok bm"
  shows "if free_set bm = {} then pmm_alloc bm = Inl OutOfMemory
    else \<exists>a bm'. pmm_alloc bm = Inr (a, bm') \<and> unat a = 4096 * Min (free_set bm)
      \<and> bitmap_ok bm' \<and> free_set bm' = free_set bm - {Min (free_set bm)}"
proof (cases "free_set bm = {}")
  case True
  then show ?thesis using assms by (simp add: pmm_alloc_eq)
next
  case False
  then obtain a bm' where al: "pmm_alloc bm = Inr (a, bm')"
    using pmm.alloc_succeeds [OF assms] by blast
  from False show ?thesis using pmm_alloc_InrD [OF assms al] al by simp
qed

definition sample_bitmap :: bitmap where
  "sample_bitmap = replicate 4 0xFFFFFFFFFFFFFFFF @ 0xFFFFFFFFFFFFFFF5 # replicate 32763 0xFFFFFFFFFFFFFFFF"

lemma sample_bitmap_ok: "bitmap_ok sample_bitmap"
  by (simp add: bitmap_ok_def sample_bitmap_def BITMAP_LEN_def)

theorem pmm_alloc_lowest_free_witness:
  "bitmap_ok sample_bitmap \<and> (if free_set sample_bitmap = {} then pmm_alloc sample_bitmap = Inl OutOfMemory
    else \<exists>a bm'. pmm_alloc sample_bitmap = Inr (a, bm') \<and> unat a = 4096 * Min (free_set sample_bitmap)
      \<and> bitmap_ok bm' \<and> free_set bm' = free_set sample_bitmap - {Min (free_set sample_bitmap)})"
  using sample_bitmap_ok pmm_alloc_lowest_free [OF sample_bitmap_ok] by blast

text \<open>C8. Releasing a page is safe: \<^verbatim>\<open>pmm::free\<close> never makes a page of the first megabyte or of the
  kernel image available, frees exactly the page of its argument otherwise, ignores addresses
  beyond the bitmap and leaves the bitmap as it is when the page is already free.\<close>

theorem pmm_free_respects_reserved:
  assumes "bitmap_ok bm" "kimage_ok ki"
  shows "\<exists>bm'. pmm_free ki a bm = Inr bm' \<and> bitmap_ok bm'
    \<and> free_set bm' \<inter> reserved_pages ki = free_set bm \<inter> reserved_pages ki
    \<and> free_set bm' - reserved_pages ki =
        (free_set bm \<union> ({page_no a} \<inter> {..<2097152})) - reserved_pages ki
    \<and> (page_no a \<in> free_set bm \<longrightarrow> free_set bm' = free_set bm)"
proof -
  obtain bm' where b: "pmm_free ki a bm = Inr bm'" "bitmap_ok bm'"
    "free_set bm' = free_set bm \<union> ({page_no a} \<inter> {..<64 * BITMAP_LEN} - reserved_pages ki)"
    using pmm_free_spec [OF assms] by blast
  have n: "64 * BITMAP_LEN = 2097152" by (simp add: BITMAP_LEN_def)
  show ?thesis using b(1,2) by (intro exI [of _ bm']) (auto simp: b(3) n)
qed

definition sample_kimage :: kimage where
  "sample_kimage = \<lparr>kernel_start = 0x100000, kernel_end = 0x1A3010\<rparr>"

lemma sample_kimage_ok: "kimage_ok sample_kimage"
  by (simp add: kimage_ok_def sample_kimage_def)

theorem pmm_free_respects_reserved_witness:
  "\<exists>bm'. pmm_free sample_kimage 0x200123 sample_bitmap = Inr bm' \<and> bitmap_ok bm'
    \<and> free_set bm' \<inter> reserved_pages sample_kimage = free_set sample_bitmap \<inter> reserved_pages sample_kimage
    \<and> free_set bm' - reserved_pages sample_kimage =
        (free_set sample_bitmap \<union> ({page_no 0x200123} \<inter> {..<2097152})) - reserved_pages sample_kimage
    \<and> (page_no 0x200123 \<in> free_set sample_bitmap \<longrightarrow> free_set bm' = free_set sample_bitmap)"
  by (rule pmm_free_respects_reserved [OF sample_bitmap_ok sample_kimage_ok])


text \<open>A memory map with one available region of 16 MiB at 2 MiB, at address \<open>0x9000\<close>.\<close>

definition sample_mmap :: mem where
  "sample_mmap = write64 (write64 (write64 (\<lambda>_. 0) 0x9010 0x200000) 0x9018 0x1000000) 0x9020 1"

lemma sample_mmap_list:
  "mmap_list sample_mmap (0x9000 + 16) (40 - 16) 24 =
     [\<lparr>base_addr = 0x200000, mb_length = 0x1000000, mb_typ = 1, mb_reserved = 0\<rparr>]"
  by (simp add: mmap_list_def upt_rec read_entry_def sample_mmap_def read64_def read32_def write64_def)


text \<open>\<^verbatim>\<open>pmm::alloc_pages(n)\<close>: when it returns, the \<open>n\<close> consecutive pages from the returned address
  were all free before, are all used after, and no other page changed.\<close>

theorem alloc_pages_contiguous:
  assumes "bitmap_ok bm" "alloc_pages n bm = Inr (first, bm')"
  shows "bitmap_ok bm' \<and> unat first = page_no first * 4096
    \<and> {page_no first ..< page_no first + max 1 n} \<subseteq> free_set bm
    \<and> free_set bm' = free_set bm - {page_no first ..< page_no first + max 1 n}"
  using assms by (rule alloc_pages_spec)

definition pair_bitmap :: bitmap where
  "pair_bitmap = 0xFFFFFFFFFFFFFFF9 # replicate 32767 0xFFFFFFFFFFFFFFFF"

definition pair_bitmap_used :: bitmap where
  "pair_bitmap_used = 0xFFFFFFFFFFFFFFFF # replicate 32767 0xFFFFFFFFFFFFFFFF"

lemma pair_bitmap_steps:
  "pmm_alloc pair_bitmap = Inr (4096, 0xFFFFFFFFFFFFFFFB # replicate 32767 0xFFFFFFFFFFFFFFFF)"
  "pmm_alloc (0xFFFFFFFFFFFFFFFB # replicate 32767 0xFFFFFFFFFFFFFFFF) = Inr (8192, pair_bitmap_used)"
  by (simp_all add: pmm_alloc_def alloc_loop.simps [of 0] pair_bitmap_def pair_bitmap_used_def
      BITMAP_LEN_def trailing_ones_def upt_rec mark_used_def pmul_def)

lemma pair_bitmap_alloc: "alloc_pages 2 pair_bitmap = Inr (4096, pair_bitmap_used)"
  by (simp add: alloc_pages_def pair_bitmap_steps pmul_def padd_def)

theorem alloc_pages_contiguous_witness:
  "bitmap_ok pair_bitmap_used \<and> unat (4096 :: u64) = page_no 4096 * 4096
    \<and> {page_no 4096 ..< page_no 4096 + max 1 2} \<subseteq> free_set pair_bitmap
    \<and> free_set pair_bitmap_used = free_set pair_bitmap - {page_no 4096 ..< page_no 4096 + max 1 2}"
  by (rule alloc_pages_contiguous [OF _ pair_bitmap_alloc])
    (simp add: bitmap_ok_def pair_bitmap_def BITMAP_LEN_def)

lemma free_pages_card:
  assumes "bitmap_ok bm"
  shows "unat (free_pages bm) = card (free_set bm)"
proof -
  have "unat (free_pages bm) = sum_list (map count_zeros bm)"
    using free_pages_sum [of 0 bm] assms
    by (simp add: free_pages_def bitmap_ok_def BITMAP_LEN_def)
  also have "\<dots> = card (free_set bm)"
    using card_clear_bits [of bm] assms by (simp add: free_set_def bitmap_ok_def)
  finally show ?thesis .
qed

text \<open>\<^verbatim>\<open>pmm::free_pages\<close> is the number of free pages (the count never wraps).\<close>

theorem free_pages_counts:
  assumes "bitmap_ok bm"
  shows "unat (free_pages bm) = card (free_set bm)"
  using assms by (rule free_pages_card)

theorem free_pages_counts_witness: "unat (free_pages sample_bitmap) = card (free_set sample_bitmap)"
  by (rule free_pages_counts [OF sample_bitmap_ok])

end
