(* ===== verification/Vmm.thy ===== *)
theory Vmm
  imports Pmm
begin

text \<open>
  Page tables (\<^verbatim>\<open>src/vmm.rs\<close>). A table is 512 entries of eight bytes in one physical page, read and
  written through the identity map; new tables come from the physical page allocator. The state is the
  memory and the allocator's bitmap. The walk of the processor's MMU is written down as the
  specification that \<open>map\<close> is proved against.
\<close>

section \<open>Page tables\<close>

definition PAGE_PRESENT :: u64 where "PAGE_PRESENT = 1"
definition PAGE_WRITABLE :: u64 where "PAGE_WRITABLE = 2"
definition PAGE_USER :: u64 where "PAGE_USER = 4"
definition PAGE_SIZE :: u64 where "PAGE_SIZE = 4096"
definition PAGE_NO_EXECUTE :: u64 where "PAGE_NO_EXECUTE = 0x8000000000000000"
definition PS :: u64 where "PS = 0x80"

type_synonym vm = "mem \<times> bitmap"

definition alloc_table :: "vm \<Rightarrow> (u64 \<times> vm) res" where
  "alloc_table s = (case s of (m, bm) \<Rightarrow>
     rbind (pmm_alloc bm) (\<lambda>(phys, bm).
     if phys = 0 then Inl VmmOutOfMemory
     else Inr (phys, write_bytes m phys 0 4096, bm)))"

definition entry_to_table :: "u64 \<Rightarrow> u64" where
  "entry_to_table e = e AND 0x000FFFFFFFFFF000"

text \<open>The address of \<^verbatim>\<open>entries[i]\<close>; the masks of the callers keep \<open>i\<close> below 512.\<close>

definition entry_addr :: "u64 \<Rightarrow> nat \<Rightarrow> u64" where
  "entry_addr table i = table + of_nat (8 * i)"

definition pml4_idx :: "u64 \<Rightarrow> nat" where "pml4_idx virt = unat (drop_bit 39 virt AND 0x1FF)"
definition pdpt_idx :: "u64 \<Rightarrow> nat" where "pdpt_idx virt = unat (drop_bit 30 virt AND 0x1FF)"
definition pd_idx :: "u64 \<Rightarrow> nat" where "pd_idx virt = unat (drop_bit 21 virt AND 0x1FF)"
definition pt_idx :: "u64 \<Rightarrow> nat" where "pt_idx virt = unat (drop_bit 12 virt AND 0x1FF)"

text \<open>The step through a PML4 entry at \<open>ea\<close>: the value of the entry after it.\<close>

definition map_pml4 :: "u64 \<Rightarrow> u64 \<Rightarrow> vm \<Rightarrow> (u64 \<times> vm) res" where
  "map_pml4 ea user_bit s = (case s of (m, bm) \<Rightarrow>
     let e = read64 m ea in
     if e AND PAGE_PRESENT = 0 then
       rbind (alloc_table (m, bm)) (\<lambda>(t, m, bm).
         let e = t OR PAGE_PRESENT OR PAGE_WRITABLE OR user_bit in
         Inr (e, write64 m ea e, bm))
     else if user_bit \<noteq> 0 then
       let e = e OR PAGE_USER in Inr (e, write64 m ea e, bm)
     else Inr (e, m, bm))"

text \<open>The step through a PDPT or PD entry at \<open>ea\<close>; \<open>None\<close> is the early return at a large page.\<close>

definition map_dir :: "u64 \<Rightarrow> u64 \<Rightarrow> vm \<Rightarrow> (u64 option \<times> vm) res" where
  "map_dir ea user_bit s = (case s of (m, bm) \<Rightarrow>
     let e = read64 m ea in
     if e AND PAGE_PRESENT = 0 then
       rbind (alloc_table (m, bm)) (\<lambda>(t, m, bm).
         let e = t OR PAGE_PRESENT OR PAGE_WRITABLE OR user_bit in
         Inr (Some e, write64 m ea e, bm))
     else if e AND PS \<noteq> 0 then
       Inr (None, if user_bit \<noteq> 0 then write64 m ea (e OR PAGE_USER) else m, bm)
     else if user_bit \<noteq> 0 then
       let e = e OR PAGE_USER in Inr (Some e, write64 m ea e, bm)
     else Inr (Some e, m, bm))"

definition vmm_map :: "u64 \<Rightarrow> u64 \<Rightarrow> u64 \<Rightarrow> u64 \<Rightarrow> vm \<Rightarrow> vm res" where
  "vmm_map pml4 virt phys flags s =
     (let user_bit = flags AND PAGE_USER in
      rbind (map_pml4 (entry_addr pml4 (pml4_idx virt)) user_bit s) (\<lambda>(pml4_entry, s).
      let pdpt = entry_to_table pml4_entry in
      rbind (map_dir (entry_addr pdpt (pdpt_idx virt)) user_bit s) (\<lambda>(r, s).
      case r of None \<Rightarrow> Inr s
      | Some pdpt_entry \<Rightarrow>
          let pd = entry_to_table pdpt_entry in
          rbind (map_dir (entry_addr pd (pd_idx virt)) user_bit s) (\<lambda>(r, s).
          case r of None \<Rightarrow> Inr s
          | Some pd_entry \<Rightarrow>
              let pt = entry_to_table pd_entry in
              Inr (write64 (fst s) (entry_addr pt (pt_idx virt)) (phys OR flags OR PAGE_PRESENT), snd s)))))"

section \<open>The walk of the MMU\<close>

text \<open>
  A path is the list of entry indices from a table down. \<open>xlate\<close> gives the entry that ends the walk and
  the number of levels below it: 0 for a 4 KB page, 1 and 2 for the large pages of a PD and a PDPT.
\<close>

definition present :: "u64 \<Rightarrow> bool" where "present e \<longleftrightarrow> e AND PAGE_PRESENT \<noteq> 0"
definition huge :: "u64 \<Rightarrow> bool" where "huge e \<longleftrightarrow> e AND PS \<noteq> 0"

fun xlate :: "mem \<Rightarrow> u64 \<Rightarrow> nat list \<Rightarrow> (u64 \<times> nat) option" where
  "xlate m t [] = None"
| "xlate m t (k # ks) =
     (let e = read64 m (entry_addr t k) in
      if \<not> present e then None
      else if ks = [] \<or> huge e then Some (e, length ks)
      else xlate m (entry_to_table e) ks)"

definition indices :: "u64 \<Rightarrow> nat list" where
  "indices virt = [pml4_idx virt, pdpt_idx virt, pd_idx virt, pt_idx virt]"

definition translate :: "mem \<Rightarrow> u64 \<Rightarrow> u64 \<Rightarrow> u64 option" where
  "translate m pml4 virt = (case xlate m pml4 (indices virt) of
     None \<Rightarrow> None
   | Some (e, d) \<Rightarrow> Some (((e AND 0x000FFFFFFFFFF000) AND NOT (mask (12 + 9 * d)))
       OR (virt AND mask (12 + 9 * d))))"

text \<open>A ring 3 access needs the user bit in every entry of the walk.\<close>

fun user_path :: "mem \<Rightarrow> u64 \<Rightarrow> nat list \<Rightarrow> bool" where
  "user_path m t [] \<longleftrightarrow> True"
| "user_path m t (k # ks) \<longleftrightarrow>
     (let e = read64 m (entry_addr t k) in
      present e \<and> e AND PAGE_USER \<noteq> 0 \<and> (huge e \<or> user_path m (entry_to_table e) ks))"

fun table_at :: "mem \<Rightarrow> u64 \<Rightarrow> nat list \<Rightarrow> u64 option" where
  "table_at m t [] = Some t"
| "table_at m t (k # ks) =
     (let e = read64 m (entry_addr t k) in
      if present e \<and> \<not> huge e then table_at m (entry_to_table e) ks else None)"

definition paged :: "u64 \<Rightarrow> bool" where
  "paged a \<longleftrightarrow> unat a mod 4096 = 0"

definition path :: "nat list \<Rightarrow> bool" where
  "path p \<longleftrightarrow> length p \<le> 3 \<and> (\<forall>k \<in> set p. k < 512)"

text \<open>The tables form a tree of whole pages, none of them free, and no PML4 entry is large.\<close>

definition tables_ok :: "mem \<Rightarrow> bitmap \<Rightarrow> u64 \<Rightarrow> bool" where
  "tables_ok m bm root \<longleftrightarrow> bitmap_ok bm \<and> 0 \<notin> free_set bm \<and> paged root
     \<and> (\<forall>k<512. present (read64 m (entry_addr root k)) \<longrightarrow> \<not> huge (read64 m (entry_addr root k)))
     \<and> (\<forall>p a. path p \<longrightarrow> table_at m root p = Some a \<longrightarrow> page_no a \<notin> free_set bm)
     \<and> (\<forall>p q a. path p \<longrightarrow> path q \<longrightarrow> table_at m root p = Some a \<longrightarrow> table_at m root q = Some a \<longrightarrow> p = q)"

section \<open>Entries\<close>

lemma paged_entry_to_table [simp]: "paged (entry_to_table e)"
proof -
  have "(0x000FFFFFFFFFF000 :: u64) AND mask 12 = 0" by (simp add: mask_eq_exp_minus_1)
  then have "entry_to_table e AND mask 12 = 0" by (simp add: entry_to_table_def and.assoc)
  then have "unat (entry_to_table e AND mask 12) = 0" by simp
  then show ?thesis unfolding unat_and_mask paged_def by simp
qed

lemma unat_entry_addr:
  assumes "paged a" "i < 512"
  shows "unat (entry_addr a i) = unat a + 8 * i"
  unfolding entry_addr_def using aligned_room [of a 4096 "8 * i"] assms
  by (intro unat_plus_nat) (simp_all add: paged_def)

lemma entry_addr_inj:
  assumes "paged a" "paged b" "i < 512" "j < 512" "entry_addr a i = entry_addr b j"
  shows "a = b \<and> i = j"
proof -
  obtain p q where pq: "unat a = 4096 * p" "unat b = 4096 * q"
    using assms(1,2) unfolding paged_def by (meson dvdE mod_0_imp_dvd)
  have "4096 * p + 8 * i = 4096 * q + 8 * j"
    using assms unat_entry_addr pq by metis
  moreover from this have "p = q" using assms(3,4) by linarith
  ultimately show ?thesis using pq by (simp add: word_unat_eq_iff)
qed

lemma paged_mod_8: "paged a \<Longrightarrow> unat a mod 8 = 0"
  using mod_mod_cancel [of 8 4096 "unat a"] by (simp add: paged_def)

lemma read_write_entry:
  assumes "paged a" "paged b" "i < 512" "j < 512"
  shows "read64 (write64 m (entry_addr a i) v) (entry_addr b j) =
    (if a = b \<and> i = j then v else read64 m (entry_addr b j))"
proof (cases "a = b \<and> i = j")
  case False
  have "unat (entry_addr a i) mod 8 = 0" "unat (entry_addr b j) mod 8 = 0"
    using paged_mod_8 assms by (simp_all add: unat_entry_addr mod_add_eq [of _ 8, symmetric])
  moreover have "entry_addr a i \<noteq> entry_addr b j" using False entry_addr_inj [OF assms] by blast
  ultimately show ?thesis using False apart64_aligned read64_write64_apart by (metis (no_types))
qed simp

lemma zero_entry:
  assumes "paged t" "k < 512"
  shows "read64 (write_bytes m t 0 4096) (entry_addr t k) = 0"
proof (rule read64_write_bytes_zero)
  fix i :: nat assume i: "i < 8"
  have "entry_addr t k + of_nat i - t = of_nat (8 * k + i)" by (simp add: entry_addr_def)
  moreover have "unat (of_nat (8 * k + i) :: u64) = 8 * k + i"
    by (rule unat_of_nat_small) (use assms(2) i in simp)
  ultimately have "unat (entry_addr t k + of_nat i - t) = 8 * k + i" by (simp only:)
  then show "unat (entry_addr t k + of_nat i - t) < 4096" using assms(2) i by linarith
qed

lemma zero_page_frame:
  assumes "paged t" "paged b" "b \<noteq> t" "k < 512"
  shows "read64 (write_bytes m t 0 4096) (entry_addr b k) = read64 m (entry_addr b k)"
proof (rule read64_write_bytes_apart)
  fix i :: nat assume i: "i < 8"
  obtain p q where p: "unat t = 4096 * p" and q: "unat b = 4096 * q"
    using assms(1,2) unfolding paged_def by (meson dvdE mod_0_imp_dvd)
  have "p \<noteq> q" using assms(3) p q by (auto simp: word_unat_eq_iff)
  moreover have "p < 4503599627370496" using unat_lt_64 [of t] p by simp
  moreover have e: "entry_addr b k + of_nat i = b + of_nat (8 * k + i)" by (simp add: entry_addr_def)
  have "unat (b + of_nat (8 * k + i)) = 4096 * q + (8 * k + i)"
    using aligned_room [of b 4096 "8 * k + i"] i assms(2,4)
    by (subst unat_plus_nat) (simp_all add: paged_def q)
  then have "unat (entry_addr b k + of_nat i) = 4096 * q + (8 * k + i)" by (simp only: e)
  ultimately show "unat (entry_addr b k + of_nat i - t) \<ge> 4096"
    using i p assms(4) unat_sub_if' [of "entry_addr b k + of_nat i" t] by (simp split: if_splits)
qed

section \<open>Walks that agree up to user bits\<close>

definition same_entry :: "u64 \<Rightarrow> u64 \<Rightarrow> bool" where
  "same_entry e e' \<longleftrightarrow> e OR PAGE_USER = e' OR PAGE_USER"

lemma same_entry_refl [simp]: "same_entry e e"
  by (simp add: same_entry_def)

lemma same_entry_or [simp]: "same_entry (e OR PAGE_USER) e"
  by (simp add: same_entry_def or.assoc)

lemma PAGE_USER_nonzero [simp]: "PAGE_USER \<noteq> 0"
  by (simp add: PAGE_USER_def)

lemma user_bit_or [simp]: "(e OR PAGE_USER) AND PAGE_USER \<noteq> 0"
  by (simp add: bit.conj_disj_distrib2 PAGE_USER_def)

lemma same_entry_and:
  assumes "same_entry e e'" "PAGE_USER AND c = 0"
  shows "e AND c = e' AND c"
proof -
  have "(e OR PAGE_USER) AND c = (e' OR PAGE_USER) AND c" using assms(1) by (simp add: same_entry_def)
  then show ?thesis using assms(2) by (simp add: bit.conj_disj_distrib2)
qed

lemma same_entry_views:
  assumes "same_entry e e'"
  shows "present e = present e'" "huge e = huge e'" "entry_to_table e = entry_to_table e'"
  using same_entry_and [OF assms, of PAGE_PRESENT] same_entry_and [OF assms, of PS]
    same_entry_and [OF assms, of "0x000FFFFFFFFFF000"]
  by (simp_all add: present_def huge_def entry_to_table_def PAGE_USER_def PAGE_PRESENT_def PS_def)

definition same_leaf :: "(u64 \<times> nat) option \<Rightarrow> (u64 \<times> nat) option \<Rightarrow> bool" where
  "same_leaf x y \<longleftrightarrow> rel_option (\<lambda>(e, d) (e', d'). same_entry e e' \<and> d = d') x y"

lemma same_leaf_refl [simp]: "same_leaf x x"
  by (cases x) (auto simp: same_leaf_def)

lemma same_leaf_trans: "same_leaf x y \<Longrightarrow> same_leaf y z \<Longrightarrow> same_leaf x z"
  by (cases x; cases y; cases z) (auto simp: same_leaf_def same_entry_def)

lemma same_leaf_translate:
  assumes "same_leaf (xlate m root (indices v)) (xlate m' root' (indices v))"
  shows "translate m root v = translate m' root' v"
proof (cases "xlate m root (indices v)")
  case None
  with assms show ?thesis by (simp add: translate_def same_leaf_def)
next
  case (Some x)
  with assms obtain e e' d where e: "xlate m root (indices v) = Some (e, d)"
    "xlate m' root' (indices v) = Some (e', d)" "same_entry e e'"
    by (cases "xlate m' root' (indices v)") (auto simp: same_leaf_def)
  have "e AND 0x000FFFFFFFFFF000 = e' AND 0x000FFFFFFFFFF000"
    using same_entry_and [OF e(3), of "0x000FFFFFFFFFF000"] by (simp add: PAGE_USER_def)
  then show ?thesis using e(1,2) by (simp add: translate_def)
qed

text \<open>Two memories whose entries agree along the walk of \<open>ks\<close>.\<close>

lemma walk_cong:
  assumes "\<And>q k r b. ks = q @ k # r \<Longrightarrow> table_at m t q = Some b
    \<Longrightarrow> same_entry (read64 m' (entry_addr b k)) (read64 m (entry_addr b k))"
  shows "table_at m' t ks = table_at m t ks \<and> same_leaf (xlate m' t ks) (xlate m t ks)"
  using assms
proof (induction ks arbitrary: t)
  case (Cons k ks)
  let ?e = "read64 m (entry_addr t k)" and ?e' = "read64 m' (entry_addr t k)"
  have s: "same_entry ?e' ?e" using Cons.prems [of "[]" k ks t] by simp
  note v = same_entry_views [OF s]
  show ?case
  proof (cases "present ?e \<and> \<not> huge ?e")
    case True
    have "table_at m' (entry_to_table ?e) ks = table_at m (entry_to_table ?e) ks
      \<and> same_leaf (xlate m' (entry_to_table ?e) ks) (xlate m (entry_to_table ?e) ks)"
    proof (rule Cons.IH)
      fix q i r b assume "ks = q @ i # r" "table_at m (entry_to_table ?e) q = Some b"
      then show "same_entry (read64 m' (entry_addr b i)) (read64 m (entry_addr b i))"
        using True by (intro Cons.prems [of "k # q" i r b]) simp_all
    qed
    then show ?thesis using True s v by (auto simp: same_leaf_def Let_def)
  next
    case False
    then show ?thesis using s v by (auto simp: same_leaf_def Let_def)
  qed
qed simp

lemma table_at_append:
  "table_at m t (p @ q) = (case table_at m t p of None \<Rightarrow> None | Some a \<Rightarrow> table_at m a q)"
  by (induction p arbitrary: t) (simp_all add: Let_def)

lemma xlate_append: "table_at m t p = Some a \<Longrightarrow> q \<noteq> [] \<Longrightarrow> xlate m t (p @ q) = xlate m a q"
  by (induction p arbitrary: t) (auto simp: Let_def split: if_splits)

lemma user_path_append:
  "table_at m t p = Some a \<Longrightarrow> user_path m t (p @ q) \<longleftrightarrow> user_path m t p \<and> user_path m a q"
  by (induction p arbitrary: t) (auto simp: Let_def split: if_splits)

lemma user_cong:
  assumes "user_path m t ks"
    and "\<And>q k r b. ks = q @ k # r \<Longrightarrow> table_at m t q = Some b
    \<Longrightarrow> same_entry (read64 m' (entry_addr b k)) (read64 m (entry_addr b k))
      \<and> (read64 m (entry_addr b k) AND PAGE_USER \<noteq> 0 \<longrightarrow> read64 m' (entry_addr b k) AND PAGE_USER \<noteq> 0)"
  shows "user_path m' t ks"
  using assms
proof (induction ks arbitrary: t)
  case (Cons k ks)
  let ?e = "read64 m (entry_addr t k)" and ?e' = "read64 m' (entry_addr t k)"
  have s: "same_entry ?e' ?e" "?e AND PAGE_USER \<noteq> 0 \<longrightarrow> ?e' AND PAGE_USER \<noteq> 0"
    using Cons.prems(2) [of "[]" k ks t] by simp_all
  have "user_path m' (entry_to_table ?e) ks" if "\<not> huge ?e" "present ?e"
  proof (rule Cons.IH)
    show "user_path m (entry_to_table ?e) ks" using Cons.prems(1) that by (simp add: Let_def)
    fix q i r b assume "ks = q @ i # r" "table_at m (entry_to_table ?e) q = Some b"
    then show "same_entry (read64 m' (entry_addr b i)) (read64 m (entry_addr b i))
      \<and> (read64 m (entry_addr b i) AND PAGE_USER \<noteq> 0 \<longrightarrow> read64 m' (entry_addr b i) AND PAGE_USER \<noteq> 0)"
      using that by (intro Cons.prems(2) [of "k # q" i r b]) simp_all
  qed
  then show ?case using Cons.prems(1) s(2) same_entry_views [OF s(1)] by (auto simp: Let_def)
qed simp

lemma paged_table_at: "table_at m t p = Some a \<Longrightarrow> paged t \<Longrightarrow> paged a"
  by (induction p arbitrary: t) (auto simp: Let_def split: if_splits)

lemma path_append: "path (p @ q) \<Longrightarrow> path p"
  by (simp add: path_def)

section \<open>One level of a mapping\<close>

lemma present_simps: "e AND PAGE_PRESENT = 0 \<longleftrightarrow> \<not> present e" "e AND PS \<noteq> 0 \<longleftrightarrow> huge e"
  by (simp_all add: present_def huge_def)

lemma tables_okD:
  assumes "tables_ok m bm root"
  shows "bitmap_ok bm" "0 \<notin> free_set bm" "paged root"
    and "\<And>p a. path p \<Longrightarrow> table_at m root p = Some a \<Longrightarrow> page_no a \<notin> free_set bm"
    and "\<And>p q a. path p \<Longrightarrow> path q \<Longrightarrow> table_at m root p = Some a \<Longrightarrow> table_at m root q = Some a \<Longrightarrow> p = q"
    and "\<And>k. k < 512 \<Longrightarrow> present (read64 m (entry_addr root k)) \<Longrightarrow> \<not> huge (read64 m (entry_addr root k))"
  using assms unfolding tables_ok_def by blast+

text \<open>The pages that hold tables.\<close>

definition table_pages :: "mem \<Rightarrow> u64 \<Rightarrow> nat set" where
  "table_pages m pml4 = {page_no a | a q. path q \<and> table_at m pml4 q = Some a}"

lemma table_pagesI: "path q \<Longrightarrow> table_at m pml4 q = Some a \<Longrightarrow> page_no a \<in> table_pages m pml4"
  by (auto simp: table_pages_def)

lemma table_pages_cong: "(\<And>q. path q \<Longrightarrow> table_at m' root q = table_at m root q) \<Longrightarrow> table_pages m' root = table_pages m root"
  by (force simp: table_pages_def)

text \<open>What a step through an entry keeps: the invariant and every translation; new tables lie in pages that were free.\<close>

definition keeps :: "nat \<Rightarrow> mem \<Rightarrow> bitmap \<Rightarrow> u64 \<Rightarrow> mem \<Rightarrow> bitmap \<Rightarrow> bool" where
  "keeps n m bm root m' bm' \<longleftrightarrow> tables_ok m' bm' root \<and> free_set bm' \<subseteq> free_set bm
     \<and> card (free_set bm) \<le> n + card (free_set bm')
     \<and> (\<forall>ks. length ks = 4 \<longrightarrow> (\<forall>k \<in> set ks. k < 512) \<longrightarrow> same_leaf (xlate m' root ks) (xlate m root ks))
     \<and> table_pages m' root \<subseteq> table_pages m root \<union> (free_set bm - free_set bm')
     \<and> (\<forall>q a. path q \<longrightarrow> table_at m root q = Some a \<longrightarrow> table_at m' root q = Some a)
     \<and> (\<forall>q. length q \<le> 4 \<longrightarrow> (\<forall>k \<in> set q. k < 512) \<longrightarrow> user_path m root q \<longrightarrow> user_path m' root q)"

lemma user_bit_write:
  assumes ok: "tables_ok m bm root" and a: "paged a" "j < 512"
    and e': "same_entry e' (read64 m (entry_addr a j))"
      "read64 m (entry_addr a j) AND PAGE_USER \<noteq> 0 \<longrightarrow> e' AND PAGE_USER \<noteq> 0"
  shows "keeps 1 m bm root (write64 m (entry_addr a j) e') bm"
proof -
  let ?m = "write64 m (entry_addr a j) e'"
  note root = tables_okD(3) [OF ok]
  have s: "same_entry (read64 ?m (entry_addr b k)) (read64 m (entry_addr b k))" if "paged b" "k < 512" for b k
    using e' read_write_entry [OF a(1) that(1) a(2) that(2)] by auto
  have w: "table_at ?m root ks = table_at m root ks \<and> same_leaf (xlate ?m root ks) (xlate m root ks)"
    if "\<forall>k \<in> set ks. k < 512" for ks
    by (rule walk_cong) (use that root in \<open>auto intro!: s dest: paged_table_at\<close>)
  have u: "user_path ?m root q" if "user_path m root q" "\<forall>k \<in> set q. k < 512" for q
  proof (rule user_cong [OF that(1)])
    fix x k y b assume x: "q = x @ k # y" "table_at m root x = Some b"
    have b: "paged b" "k < 512" using paged_table_at [OF x(2) root] that(2) x(1) by auto
    show "same_entry (read64 ?m (entry_addr b k)) (read64 m (entry_addr b k))
      \<and> (read64 m (entry_addr b k) AND PAGE_USER \<noteq> 0 \<longrightarrow> read64 ?m (entry_addr b k) AND PAGE_USER \<noteq> 0)"
      using s [OF b] e'(2) read_write_entry [OF a(1) b(1) a(2) b(2)] by auto
  qed
  have "tables_ok ?m bm root"
    unfolding tables_ok_def
  proof (intro conjI allI impI)
    fix k :: nat assume "k < 512" "present (read64 ?m (entry_addr root k))"
    then show "\<not> huge (read64 ?m (entry_addr root k))"
      using same_entry_views [OF s [OF root]] tables_okD(6) [OF ok] by blast
  next
    fix p b assume "path p" "table_at ?m root p = Some b"
    then show "page_no b \<notin> free_set bm" using w [of p] tables_okD(4) [OF ok, of p b] by (simp add: path_def)
  next
    fix p q b assume "path p" "path q" "table_at ?m root p = Some b" "table_at ?m root q = Some b"
    then show "p = q" using w [of p] w [of q] tables_okD(5) [OF ok, of p q b] by (simp add: path_def)
  qed (use tables_okD(1-3) [OF ok] in simp_all)
  moreover have "table_pages ?m root = table_pages m root" using w by (intro table_pages_cong) (simp add: path_def)
  ultimately show ?thesis using w u by (auto simp: keeps_def path_def)
qed

lemma page_no_inj: "paged a \<Longrightarrow> paged b \<Longrightarrow> page_no a = page_no b \<Longrightarrow> a = b"
  unfolding paged_def page_no_def by (metis div_mult_mod_eq word_unat_eq_iff)

definition new_entry :: "u64 \<Rightarrow> u64 \<Rightarrow> u64" where
  "new_entry t user_bit = t OR PAGE_PRESENT OR PAGE_WRITABLE OR user_bit"

lemma new_entry_views:
  assumes "paged t" "unat t < 2 ^ 52" "ub = 0 \<or> ub = PAGE_USER"
  shows "present (new_entry t ub)" "\<not> huge (new_entry t ub)" "entry_to_table (new_entry t ub) = t"
    "ub \<noteq> 0 \<Longrightarrow> new_entry t ub AND PAGE_USER \<noteq> 0"
proof -
  have "unat (t AND mask 12) = 0" using assms(1) by (simp only: unat_and_mask) (simp add: paged_def)
  then have lo: "t AND 0xFFF = 0" by (simp add: mask_eq_exp_minus_1 word_unat_eq_iff)
  have and_lo: "t AND c = 0" if "c AND 0xFFF = c" for c
  proof -
    have "t AND c = (t AND 0xFFF) AND c" by (subst that [symmetric]) (simp only: ac_simps)
    then show ?thesis using lo by simp
  qed
  have "t AND mask 52 = t"
    using assms(2) by (simp only: word_unat_eq_iff unat_and_mask) simp
  then have hi: "t AND 0x000FFFFFFFFFFFFF = t" by (simp add: mask_eq_exp_minus_1)
  have "t AND 0x000FFFFFFFFFF000 = t"
  proof -
    have "t = t AND (0x000FFFFFFFFFF000 OR 0xFFF)" using hi by simp
    also have "\<dots> = t AND 0x000FFFFFFFFFF000" by (simp only: bit.conj_disj_distrib lo) simp
    finally show ?thesis by simp
  qed
  then show "entry_to_table (new_entry t ub) = t"
    using assms(3) by (auto simp: entry_to_table_def new_entry_def bit.conj_disj_distrib2
        PAGE_PRESENT_def PAGE_WRITABLE_def PAGE_USER_def)
  show "present (new_entry t ub)" "\<not> huge (new_entry t ub)"
    using assms(3) and_lo [of 1] and_lo [of "0x80"]
    by (auto simp: present_def huge_def new_entry_def bit.conj_disj_distrib2
        PAGE_PRESENT_def PAGE_WRITABLE_def PAGE_USER_def PS_def)
  show "new_entry t ub AND PAGE_USER \<noteq> 0" if "ub \<noteq> 0"
    using assms(3) that and_lo [of 4] by (auto simp: new_entry_def bit.conj_disj_distrib2
        PAGE_PRESENT_def PAGE_WRITABLE_def PAGE_USER_def)
qed

text \<open>The entry of \<open>p\<close>, \<open>j\<close> gets a fresh empty table.\<close>

lemma fresh_table_write:
  assumes ok: "tables_ok m bm root" and p: "path (p @ [j])" "table_at m root p = Some a"
    and e: "\<not> present (read64 m (entry_addr a j))"
    and t: "page_no t \<in> free_set bm" "paged t" and bm': "bitmap_ok bm'" "free_set bm' = free_set bm - {page_no t}"
    and ub: "ub = 0 \<or> ub = PAGE_USER"
  defines "m' \<equiv> write64 (write_bytes m t 0 4096) (entry_addr a j) (new_entry t ub)"
  shows "keeps 1 m bm root m' bm'" "table_at m' root (p @ [j]) = Some t"
    "ub \<noteq> 0 \<Longrightarrow> user_path m' root p \<Longrightarrow> user_path m' root (p @ [j])"
proof -
  note D = tables_okD [OF ok]
  have pp: "path p" "j < 512" "length p \<le> 2" using p(1) by (auto simp: path_def)
  have a: "paged a" using paged_table_at [OF p(2) D(3)] .
  have t52: "unat t < 2 ^ 52"
    using free_set_bound [OF t(1)] t(2) by (auto simp: page_no_def paged_def)
  note nv = new_entry_views [OF t(2) t52 ub]
  have at: "a \<noteq> t" using D(4) [OF pp(1) p(2)] t(1) by auto
  have r: "read64 m' (entry_addr b k) = (if b = a \<and> k = j then new_entry t ub
      else if b = t then 0 else read64 m (entry_addr b k))" if "paged b" "k < 512" for b k
    using at that zero_entry [OF t(2) that(2)] zero_page_frame [OF t(2) that(1) _ that(2)]
    by (auto simp: m'_def read_write_entry [OF a that(1) pp(2) that(2)])
  have same: "table_at m' root ks = table_at m root ks \<and> same_leaf (xlate m' root ks) (xlate m root ks)"
    if ks: "length ks \<le> 4" "\<forall>k \<in> set ks. k < 512" "\<nexists>r. ks = p @ j # r" for ks
  proof (rule walk_cong)
    fix q k r' b assume q: "ks = q @ k # r'" "table_at m root q = Some b"
    have pq: "path q" "k < 512" using ks(1,2) by (auto simp: q(1) path_def)
    have "b \<noteq> t" using D(4) [OF pq(1) q(2)] t(1) by auto
    moreover have "\<not> (b = a \<and> k = j)" using D(5) [OF pq(1) pp(1) q(2)] p(2) ks(3) q(1) by auto
    ultimately show "same_entry (read64 m' (entry_addr b k)) (read64 m (entry_addr b k))"
      using r [OF paged_table_at [OF q(2) D(3)] pq(2)] by auto
  qed
  have p': "table_at m' root p = Some a" using same [of p] pp p(2) by (simp add: path_def)
  have below: "table_at m' root (p @ j # q) = table_at m' t q" for q
    using p' r [OF a pp(2)] nv by (simp add: table_at_append)
  show new: "table_at m' root (p @ [j]) = Some t" using below [of "[]"] by simp
  have none: "table_at m root (p @ j # q) = None" for q using p(2) e by (simp add: table_at_append)
  have dead: "\<not> present (read64 m' (entry_addr t k))" if "k < 512" for k
    using r [OF t(2) that] at by (simp add: present_def)
  have tab: "table_at m' root q = (if q = p @ [j] then Some t else table_at m root q)" if q: "path q" for q
  proof (cases "\<exists>r. q = p @ j # r")
    case True
    then obtain r' where r': "q = p @ j # r'" by blast
    then have "table_at m' t r' = None" if "r' \<noteq> []"
      using that q dead by (cases r') (auto simp: path_def)
    with r' show ?thesis using below none by (cases "r' = []") simp_all
  next
    case False
    then show ?thesis using same [of q] q by (auto simp: path_def)
  qed
  have leaf: "same_leaf (xlate m' root ks) (xlate m root ks)" if ks: "length ks = 4" "\<forall>k \<in> set ks. k < 512" for ks
  proof (cases "\<exists>r. ks = p @ j # r")
    case True
    then obtain r0 where r0: "ks = p @ j # r0" by blast
    with ks(1) pp(3) obtain k r' where "r0 = k # r'" by (cases r0) auto
    with r0 have ks': "ks = p @ j # k # r'" by simp
    have "xlate m root ks = None" using xlate_append [OF p(2), of "j # k # r'"] e by (simp add: ks')
    moreover have "xlate m' root ks = None"
      using xlate_append [OF p', of "j # k # r'"] r [OF a pp(2)] nv dead [of k] ks(2) by (simp add: ks')
    ultimately show ?thesis by simp
  next
    case False
    then show ?thesis using same [of ks] ks by simp
  qed
  show user: "user_path m' root (p @ [j])" if "ub \<noteq> 0" "user_path m' root p"
    using that p' r [OF a pp(2)] nv by (simp add: user_path_append)
  have usr: "user_path m' root q" if q: "length q \<le> 4" "\<forall>k \<in> set q. k < 512" "user_path m root q" for q
  proof (rule user_cong [OF q(3)])
    fix x k y b assume x: "q = x @ k # y" "table_at m root x = Some b"
    have px: "path x" "k < 512" using q(1,2) by (auto simp: path_def x(1))
    have "present (read64 m (entry_addr b k))"
      using q(3) user_path_append [OF x(2), of "k # y"] by (simp add: x(1) Let_def)
    then have "\<not> (b = a \<and> k = j)" using e by auto
    moreover have "b \<noteq> t" using D(4) [OF px(1) x(2)] t(1) by auto
    ultimately have "read64 m' (entry_addr b k) = read64 m (entry_addr b k)"
      using r [OF paged_table_at [OF x(2) D(3)] px(2)] by auto
    then show "same_entry (read64 m' (entry_addr b k)) (read64 m (entry_addr b k))
      \<and> (read64 m (entry_addr b k) AND PAGE_USER \<noteq> 0 \<longrightarrow> read64 m' (entry_addr b k) AND PAGE_USER \<noteq> 0)"
      by simp
  qed
  have tok: "tables_ok m' bm' root"
    unfolding tables_ok_def
  proof (intro conjI allI impI)
    fix k :: nat assume k: "k < 512" "present (read64 m' (entry_addr root k))"
    show "\<not> huge (read64 m' (entry_addr root k))"
      using r [OF D(3) k(1)] k(2) nv(2) D(6) [OF k(1)] by (auto simp: present_def split: if_splits)
  next
    fix q b assume "path q" "table_at m' root q = Some b"
    then show "page_no b \<notin> free_set bm'" using tab [of q] D(4) [of q b] bm'(2) by (auto split: if_splits)
  next
    fix q q' b
    assume q: "path q" "path q'" "table_at m' root q = Some b" "table_at m' root q' = Some b"
    have k: "q'' = p @ [j] \<and> b = t \<or> b \<noteq> t \<and> table_at m root q'' = Some b"
      if "path q''" "table_at m' root q'' = Some b" for q''
      using tab [OF that(1)] that(2) D(4) [OF that(1), of b] t(1) by (auto split: if_splits)
    show "q = q'" using k [OF q(1,3)] k [OF q(2,4)] D(5) [OF q(1,2), of b] by argo
  qed (use D bm' in auto)
  have cd: "card (free_set bm) = Suc (card (free_set bm'))"
    using card_Suc_Diff1 [OF finite_free_set t(1)] by (simp only: bm'(2))
  have ta: "table_at m' root q = Some b" if "path q" "table_at m root q = Some b" for q b
    using tab [OF that(1)] that(2) none [of "[]"] by auto
  have tp: "table_pages m' root \<subseteq> table_pages m root \<union> (free_set bm - free_set bm')"
    using tab t(1) bm'(2) by (auto simp: table_pages_def split: if_splits)
  show "keeps 1 m bm root m' bm'"
    unfolding keeps_def
    by (intro conjI allI impI; (rule tok leaf ta usr tp; assumption)?) (simp_all add: tok cd bm'(2) tp [unfolded bm'(2)])
qed

lemma keeps_refl: "tables_ok m bm root \<Longrightarrow> keeps 1 m bm root m bm"
  by (simp add: keeps_def)

lemma alloc_table_spec:
  assumes "tables_ok m bm root"
  shows "alloc_table (m, bm) = Inl OutOfMemory \<and> free_set bm = {}
    \<or> (\<exists>t bm'. alloc_table (m, bm) = Inr (t, write_bytes m t 0 4096, bm') \<and> page_no t \<in> free_set bm
        \<and> paged t \<and> bitmap_ok bm' \<and> free_set bm' = free_set bm - {page_no t})"
proof (cases "pmm_alloc bm")
  case (Inl x)
  then show ?thesis using pmm.alloc_fails [OF tables_okD(1) [OF assms] Inl] by (simp add: alloc_table_def)
next
  case (Inr x)
  then obtain t bm' where x: "pmm_alloc bm = Inr (t, bm')" by (cases x) simp
  note a = pmm_alloc_InrD [OF tables_okD(1) [OF assms] x]
  have "t \<noteq> 0" using a(4) tables_okD(2) [OF assms] by (auto simp: page_no_def)
  then show ?thesis using a x by (auto simp: alloc_table_def paged_def)
qed

lemma map_dir_spec:
  assumes ok: "tables_ok m bm root" and p: "path (p @ [j])" "table_at m root p = Some a"
    and ub: "ub = 0 \<or> ub = PAGE_USER"
  shows "map_dir (entry_addr a j) ub (m, bm) = Inl OutOfMemory \<and> free_set bm = {}
    \<or> (\<exists>m' bm'. map_dir (entry_addr a j) ub (m, bm) = Inr (None, m', bm') \<and> keeps 1 m bm root m' bm'
        \<and> present (read64 m (entry_addr a j)) \<and> huge (read64 m (entry_addr a j)))
    \<or> (\<exists>e m' bm'. map_dir (entry_addr a j) ub (m, bm) = Inr (Some e, m', bm') \<and> keeps 1 m bm root m' bm'
        \<and> \<not> (present (read64 m (entry_addr a j)) \<and> huge (read64 m (entry_addr a j)))
        \<and> table_at m' root (p @ [j]) = Some (entry_to_table e)
        \<and> (ub \<noteq> 0 \<and> user_path m root p \<longrightarrow> user_path m' root (p @ [j])))"
proof -
  let ?ea = "entry_addr a j" and ?e = "read64 m (entry_addr a j)"
  have pp: "path p" "j < 512" using p(1) by (auto simp: path_def)
  have a: "paged a" using paged_table_at [OF p(2) tables_okD(3) [OF ok]] .
  have k: "keeps 1 m bm root (write64 m ?ea (?e OR PAGE_USER)) bm"
    by (rule user_bit_write [OF ok a pp(2)]) (simp, simp add: PAGE_USER_def)
  consider (new) "\<not> present ?e" | (huge) "present ?e" "huge ?e" | (tab) "present ?e" "\<not> huge ?e" by blast
  then show ?thesis
  proof cases
    case new
    from alloc_table_spec [OF ok] show ?thesis
    proof (elim disjE exE conjE)
      fix t bm'
      assume t: "alloc_table (m, bm) = Inr (t, write_bytes m t 0 4096, bm')" "page_no t \<in> free_set bm"
        "paged t" "bitmap_ok bm'" "free_set bm' = free_set bm - {page_no t}"
      have t52: "unat t < 2 ^ 52" using free_set_bound [OF t(2)] t(3) by (auto simp: page_no_def paged_def)
      note f = fresh_table_write [OF ok p new t(2-5) ub]
      have "user_path m root p \<longrightarrow>
          user_path (write64 (write_bytes m t 0 4096) ?ea (new_entry t ub)) root p"
        using f(1) pp(1) by (simp add: keeps_def path_def)
      then show ?thesis using t(1) f new_entry_views(3) [OF t(3) t52 ub] new
        by (simp add: map_dir_def present_simps new_entry_def Let_def)
    qed (simp add: map_dir_def present_simps new)
  next
    case huge
    then show ?thesis
      using k keeps_refl [OF ok] by (simp add: map_dir_def present_simps)
  next
    case tab
    have t: "table_at m root (p @ [j]) = Some (entry_to_table ?e)" using tab p(2) by (simp add: table_at_append)
    then have t': "table_at (write64 m ?ea (?e OR PAGE_USER)) root (p @ [j]) = Some (entry_to_table (?e OR PAGE_USER))"
      using k p(1) same_entry_views(3) [of "?e OR PAGE_USER" ?e] by (simp add: keeps_def)
    have "user_path (write64 m ?ea (?e OR PAGE_USER)) root (p @ [j])" if "user_path m root p"
    proof -
      have "table_at (write64 m ?ea (?e OR PAGE_USER)) root p = Some a"
        "user_path (write64 m ?ea (?e OR PAGE_USER)) root p"
        using k that pp(1) p(2) by (simp_all add: keeps_def path_def)
      then show ?thesis using tab same_entry_views [OF same_entry_or [of ?e]] by (simp add: user_path_append)
    qed
    with t t' k tab keeps_refl [OF ok] show ?thesis by (auto simp: map_dir_def present_simps Let_def)
  qed
qed

lemma map_pml4_dir:
  assumes "tables_ok m bm root" "j < 512"
  shows "map_pml4 (entry_addr root j) ub (m, bm) =
    rbind (map_dir (entry_addr root j) ub (m, bm)) (\<lambda>(r, s). Inr (the r, s))"
  using tables_okD(6) [OF assms]
  by (auto simp: map_pml4_def map_dir_def present_simps rbind_assoc Let_def split_beta intro!: rbind_cong)

section \<open>The leaf\<close>

lemma leaf_write:
  assumes ok: "tables_ok m bm root" and p: "length p = 3" "\<forall>k \<in> set p. k < 512" "table_at m root p = Some a"
    and j: "j < 512" and e: "present e"
  defines "m' \<equiv> write64 m (entry_addr a j) e"
  shows "tables_ok m' bm root"
    and "xlate m' root (p @ [j]) = Some (e, 0)"
    and "e AND PAGE_USER \<noteq> 0 \<Longrightarrow> user_path m root p \<Longrightarrow> user_path m' root (p @ [j])"
    and "\<And>ks. length ks = 4 \<Longrightarrow> \<forall>k \<in> set ks. k < 512 \<Longrightarrow> ks \<noteq> p @ [j]
      \<Longrightarrow> same_leaf (xlate m' root ks) (xlate m root ks)"
    and "\<And>ks. length ks = 4 \<Longrightarrow> \<forall>k \<in> set ks. k < 512 \<Longrightarrow> ks \<noteq> p @ [j]
      \<Longrightarrow> user_path m root ks \<Longrightarrow> user_path m' root ks"
    and "table_pages m' root = table_pages m root"
proof -
  note D = tables_okD [OF ok]
  have pp: "path p" using p by (simp add: path_def)
  have a: "paged a" using paged_table_at [OF p(3) D(3)] .
  have r: "read64 m' (entry_addr b k) = read64 m (entry_addr b k)"
    if "path q" "table_at m root q = Some b" "k < 512" "q @ [k] \<noteq> p @ [j]" for q b k
    using D(5) [OF that(1) pp that(2)] p(3) that(4)
      read_write_entry [OF a paged_table_at [OF that(2) D(3)] j that(3)] by (auto simp: m'_def)
  have same: "table_at m' root ks = table_at m root ks \<and> same_leaf (xlate m' root ks) (xlate m root ks)"
    if ks: "length ks \<le> 4" "\<forall>k \<in> set ks. k < 512" "ks \<noteq> p @ [j]" for ks
  proof (rule walk_cong)
    fix q k r' b assume q: "ks = q @ k # r'" "table_at m root q = Some b"
    have "path q" "k < 512" "q @ [k] \<noteq> p @ [j]" using ks p(1) by (auto simp: q(1) path_def)
    then show "same_entry (read64 m' (entry_addr b k)) (read64 m (entry_addr b k))" using r q(2) by simp
  qed
  then show "same_leaf (xlate m' root ks) (xlate m root ks)"
    if "length ks = 4" "\<forall>k \<in> set ks. k < 512" "ks \<noteq> p @ [j]" for ks
    using that by simp
  have tab: "table_at m' root q = table_at m root q" if "path q" for q
    using same [of q] that p(1) by (force simp: path_def)
  then show "table_pages m' root = table_pages m root" by (rule table_pages_cong)
  have le: "read64 m' (entry_addr a j) = e" by (simp add: m'_def)
  show "xlate m' root (p @ [j]) = Some (e, 0)"
    using xlate_append [of m' root p a "[j]"] tab [OF pp] p(3) e le by simp
  have up: "user_path m' root ks"
    if ks: "user_path m root ks" "length ks \<le> 4" "\<forall>k \<in> set ks. k < 512" "ks \<noteq> p @ [j]" for ks
  proof (rule user_cong [OF ks(1)])
    fix x k y b assume x: "ks = x @ k # y" "table_at m root x = Some b"
    have "path x" "k < 512" "x @ [k] \<noteq> p @ [j]" using ks(2-4) p(1) by (auto simp: x(1) path_def)
    then show "same_entry (read64 m' (entry_addr b k)) (read64 m (entry_addr b k))
      \<and> (read64 m (entry_addr b k) AND PAGE_USER \<noteq> 0 \<longrightarrow> read64 m' (entry_addr b k) AND PAGE_USER \<noteq> 0)"
      using r x(2) by simp
  qed
  then show "user_path m' root ks" if "length ks = 4" "\<forall>k \<in> set ks. k < 512" "ks \<noteq> p @ [j]" "user_path m root ks" for ks
    using that by simp
  show "user_path m' root (p @ [j])" if "e AND PAGE_USER \<noteq> 0" "user_path m root p"
    using that up [of p] p user_path_append [of m' root p a "[j]"] tab [OF pp] p(3) e le by simp
  show "tables_ok m' bm root"
    unfolding tables_ok_def
  proof (intro conjI allI impI)
    fix k :: nat assume k: "k < 512" "present (read64 m' (entry_addr root k))"
    have "read64 m' (entry_addr root k) = read64 m (entry_addr root k)"
      using p(1) k(1) by (intro r [of "[]"]) (auto simp: path_def)
    then show "\<not> huge (read64 m' (entry_addr root k))" using D(6) [OF k(1)] k(2) by simp
  qed (use D tab in auto)
qed

section \<open>Mapping\<close>

lemma idx_bound: "unat (x AND 0x1FF) < 512" for x :: u64
  using unat_and_mask [of x 9] by (simp add: mask_eq_exp_minus_1)

lemma idx_bounds [simp]:
  "pml4_idx v < 512" "pdpt_idx v < 512" "pd_idx v < 512" "pt_idx v < 512"
  by (simp_all add: pml4_idx_def pdpt_idx_def pd_idx_def pt_idx_def idx_bound)

lemma indices_bound: "\<forall>k \<in> set (indices v). k < 512" "length (indices v) = 4"
  by (simp_all add: indices_def)

lemma user_bit_cases: "flags AND PAGE_USER = 0 \<or> flags AND PAGE_USER = PAGE_USER"
proof -
  have p: "PAGE_USER = 2 ^ 2" by (simp add: PAGE_USER_def)
  have "flags AND 2 ^ 2 = 2 ^ 2" if "bit flags 2"
    using that by (intro bit_word_eqI) (simp only: bit_and_iff bit_exp_iff, blast)
  then show ?thesis unfolding p and_exp_eq_0_iff_not_bit by blast
qed

lemma present_or: "present (x OR PAGE_PRESENT)"
  by (simp add: present_def PAGE_PRESENT_def bit.conj_disj_distrib2)

text \<open>The page of \<open>virt\<close> lies in a large page.\<close>

definition in_huge :: "mem \<Rightarrow> u64 \<Rightarrow> u64 \<Rightarrow> bool" where
  "in_huge m root virt \<longleftrightarrow> (case xlate m root (indices virt) of Some (_, d) \<Rightarrow> 0 < d | None \<Rightarrow> False)"

definition maps_page :: "mem \<Rightarrow> bitmap \<Rightarrow> u64 \<Rightarrow> u64 \<Rightarrow> u64 \<Rightarrow> u64 \<Rightarrow> mem \<Rightarrow> bitmap \<Rightarrow> bool" where
  "maps_page m bm root virt phys flags m' bm' \<longleftrightarrow> tables_ok m' bm' root
     \<and> free_set bm' \<subseteq> free_set bm \<and> card (free_set bm) \<le> card (free_set bm') + 3
     \<and> table_pages m' root \<subseteq> table_pages m root \<union> (free_set bm - free_set bm')
     \<and> (\<forall>ks. length ks = 4 \<longrightarrow> (\<forall>k \<in> set ks. k < 512) \<longrightarrow> ks \<noteq> indices virt
          \<longrightarrow> same_leaf (xlate m' root ks) (xlate m root ks) \<and> (user_path m root ks \<longrightarrow> user_path m' root ks))
     \<and> (if in_huge m root virt then same_leaf (xlate m' root (indices virt)) (xlate m root (indices virt))
        else xlate m' root (indices virt) = Some (phys OR flags OR PAGE_PRESENT, 0)
          \<and> (flags AND PAGE_USER \<noteq> 0 \<longrightarrow> user_path m' root (indices virt)))"

lemma same_leaf_depth: "same_leaf x y \<Longrightarrow> (case x of Some (_, d) \<Rightarrow> 0 < d | None \<Rightarrow> False)
    = (case y of Some (_, d) \<Rightarrow> 0 < d | None \<Rightarrow> False)"
  by (cases x; cases y) (auto simp: same_leaf_def)

lemma keeps_same_leaf:
  "keeps n m bm root m' bm' \<Longrightarrow> length ks = 4 \<Longrightarrow> \<forall>k \<in> set ks. k < 512 \<Longrightarrow> same_leaf (xlate m' root ks) (xlate m root ks)"
  by (simp add: keeps_def)

lemma keeps_trans:
  assumes "keeps n m bm root m1 b1" "keeps k m1 b1 root m2 b2"
  shows "keeps (n + k) m bm root m2 b2"
proof -
  have "same_leaf (xlate m2 root ks) (xlate m root ks)" if "length ks = 4" "\<forall>k \<in> set ks. k < 512" for ks
    using keeps_same_leaf [OF assms(1) that] keeps_same_leaf [OF assms(2) that] same_leaf_trans by blast
  then show ?thesis using assms by (auto simp: keeps_def)
qed

text \<open>A walk that stops at a large page during the second or the third step.\<close>

lemma huge_stop:
  assumes "tables_ok m bm root" "keeps n m0 b0 root m bm" "table_at m root p = Some a" "indices virt = p @ j # r"
    "r \<noteq> []" "present (read64 m (entry_addr a j))" "huge (read64 m (entry_addr a j))"
  shows "in_huge m0 root virt"
proof -
  have "xlate m root (indices virt) = Some (read64 m (entry_addr a j), length r)"
    using assms(3-7) xlate_append [of m root p a "j # r"] by simp
  moreover have "same_leaf (xlate m root (indices virt)) (xlate m0 root (indices virt))"
    using assms(2) indices_bound by (intro keeps_same_leaf)
  ultimately show ?thesis using assms(5) same_leaf_depth by (fastforce simp: in_huge_def)
qed

lemma maps_page_huge:
  assumes "keeps n m bm root m' bm'" "n \<le> 3" "in_huge m root virt"
  shows "maps_page m bm root virt phys flags m' bm'"
  using assms keeps_same_leaf [OF assms(1)] indices_bound [of virt] by (simp add: maps_page_def keeps_def)

lemma maps_page_leaf:
  assumes k: "keeps n m bm root m1 bm'" "n \<le> 3"
    and t: "table_at m1 root [pml4_idx virt, pdpt_idx virt, pd_idx virt] = Some pt"
    and u: "flags AND PAGE_USER \<noteq> 0 \<Longrightarrow> user_path m1 root [pml4_idx virt, pdpt_idx virt, pd_idx virt]"
  shows "maps_page m bm root virt phys flags
    (write64 m1 (entry_addr pt (pt_idx virt)) (phys OR flags OR PAGE_PRESENT)) bm'"
proof -
  let ?p = "[pml4_idx virt, pdpt_idx virt, pd_idx virt]" and ?e = "phys OR flags OR PAGE_PRESENT"
  let ?m = "write64 m1 (entry_addr pt (pt_idx virt)) ?e"
  have ok: "tables_ok m1 bm' root" using k(1) by (simp add: keeps_def)
  have pe: "present ?e" using present_or [of "phys OR flags"] by (simp add: or.assoc)
  have i: "indices virt = ?p @ [pt_idx virt]" by (simp add: indices_def)
  have p3: "length ?p = 3" "\<forall>k \<in> set ?p. k < 512" by simp_all
  note l = leaf_write [OF ok p3 t idx_bounds(4) [of virt] pe, folded i]
  have old: "same_leaf (xlate ?m root ks) (xlate m root ks)"
    if "length ks = 4" "\<forall>k \<in> set ks. k < 512" "ks \<noteq> indices virt" for ks
    using same_leaf_trans [OF l(4) [OF that] keeps_same_leaf [OF k(1) that(1,2)]] .
  have usr: "user_path ?m root ks"
    if "length ks = 4" "\<forall>k \<in> set ks. k < 512" "ks \<noteq> indices virt" "user_path m root ks" for ks
    using l(5) [OF that(1-3)] that k(1) by (simp add: keeps_def)
  have "xlate m1 root (indices virt) = xlate m1 pt [pt_idx virt]"
    using xlate_append [OF t, of "[pt_idx virt]"] by (simp add: i)
  then have "\<not> in_huge m1 root virt" by (simp add: in_huge_def Let_def split: option.splits)
  then have nh: "\<not> in_huge m root virt"
    using same_leaf_depth [OF keeps_same_leaf [OF k(1) indices_bound(2,1) [of virt]]] by (simp add: in_huge_def)
  have "user_path ?m root (indices virt)" if f: "flags AND PAGE_USER \<noteq> 0"
  proof (rule l(3))
    show "?e AND PAGE_USER \<noteq> 0"
      using f user_bit_cases [of flags] by (auto simp: bit.conj_disj_distrib2)
    show "user_path m1 root ?p" using u [OF f] .
  qed
  then show ?thesis using k old usr nh l(1,2,6) unfolding maps_page_def keeps_def by auto
qed

lemma vmm_map_spec:
  assumes ok: "tables_ok m bm root" and free: "3 \<le> card (free_set bm)"
  shows "\<exists>m' bm'. vmm_map root virt phys flags (m, bm) = Inr (m', bm')
    \<and> maps_page m bm root virt phys flags m' bm'"
proof -
  let ?ub = "flags AND PAGE_USER" and ?i = "pml4_idx virt" and ?j = "pdpt_idx virt" and ?k = "pd_idx virt"
  note ub = user_bit_cases [of flags]
  have p1: "path ([] @ [?i])" and p2: "path ([?i] @ [?j])" and p3: "path ([?i, ?j] @ [?k])"
    by (simp_all add: path_def)
  from map_dir_spec [OF ok p1 _ ub, of root] free tables_okD(6) [OF ok, of ?i]
  obtain e1 m1 b1 where d1: "map_dir (entry_addr root ?i) ?ub (m, bm) = Inr (Some e1, m1, b1)"
    and k1: "keeps 1 m bm root m1 b1" and t1: "table_at m1 root [?i] = Some (entry_to_table e1)"
    and u1: "?ub \<noteq> 0 \<longrightarrow> user_path m1 root [?i]"
    by fastforce
  have s1: "map_pml4 (entry_addr root ?i) ?ub (m, bm) = Inr (e1, m1, b1)"
    using map_pml4_dir [OF ok, of ?i] d1 by simp
  have ok1: "tables_ok m1 b1 root" and c1: "2 \<le> card (free_set b1)" using k1 free by (simp_all add: keeps_def)
  let ?t1 = "entry_to_table e1"
  from map_dir_spec [OF ok1 p2 t1 ub] c1
  consider (huge2) m2 b2 where "map_dir (entry_addr ?t1 ?j) ?ub (m1, b1) = Inr (None, m2, b2)"
      "keeps 1 m1 b1 root m2 b2" "present (read64 m1 (entry_addr ?t1 ?j))" "huge (read64 m1 (entry_addr ?t1 ?j))"
    | (dir2) e2 m2 b2 where "map_dir (entry_addr ?t1 ?j) ?ub (m1, b1) = Inr (Some e2, m2, b2)"
      "keeps 1 m1 b1 root m2 b2" "table_at m2 root [?i, ?j] = Some (entry_to_table e2)"
      "?ub \<noteq> 0 \<and> user_path m1 root [?i] \<longrightarrow> user_path m2 root [?i, ?j]"
    by fastforce
  then show ?thesis
  proof cases
    case huge2
    have "in_huge m root virt"
      by (rule huge_stop [OF ok1 k1 t1 _ _ huge2(3,4), of virt "[?k, pt_idx virt]"]) (simp_all add: indices_def)
    with maps_page_huge [OF keeps_trans [OF k1 huge2(2)]] show ?thesis
      using huge2(1) s1 by (simp add: vmm_map_def Let_def)
  next
    case dir2
    let ?t2 = "entry_to_table e2"
    note k2 = keeps_trans [OF k1 dir2(2)]
    have ok2: "tables_ok m2 b2 root" and c2: "free_set b2 \<noteq> {}"
      using dir2(2) c1 by (auto simp: keeps_def)
    from map_dir_spec [OF ok2 p3 dir2(3) ub] c2
    consider (huge3) m3 b3 where "map_dir (entry_addr ?t2 ?k) ?ub (m2, b2) = Inr (None, m3, b3)"
        "keeps 1 m2 b2 root m3 b3" "present (read64 m2 (entry_addr ?t2 ?k))" "huge (read64 m2 (entry_addr ?t2 ?k))"
      | (dir3) e3 m3 b3 where "map_dir (entry_addr ?t2 ?k) ?ub (m2, b2) = Inr (Some e3, m3, b3)"
        "keeps 1 m2 b2 root m3 b3" "table_at m3 root [?i, ?j, ?k] = Some (entry_to_table e3)"
        "?ub \<noteq> 0 \<and> user_path m2 root [?i, ?j] \<longrightarrow> user_path m3 root [?i, ?j, ?k]"
      by fastforce
    then show ?thesis
    proof cases
      case huge3
      have "in_huge m root virt"
        by (rule huge_stop [OF ok2 k2 dir2(3) _ _ huge3(3,4), of virt "[pt_idx virt]"]) (simp_all add: indices_def)
      with maps_page_huge [OF keeps_trans [OF k2 huge3(2)]] show ?thesis
        using huge3(1) dir2(1) s1 by (simp add: vmm_map_def Let_def)
    next
      case dir3
      have "maps_page m bm root virt phys flags (write64 m3 (entry_addr (entry_to_table e3) (pt_idx virt))
          (phys OR flags OR PAGE_PRESENT)) b3"
        by (rule maps_page_leaf [OF keeps_trans [OF k2 dir3(2)] _ dir3(3)]) (use u1 dir2(4) dir3(4) in auto)
      then show ?thesis using dir3(1) dir2(1) s1 by (simp add: vmm_map_def Let_def)
    qed
  qed
qed

section \<open>Properties\<close>

definition low_bitmap :: bitmap where
  "low_bitmap = BITMAP_INIT[4 := 0]"

lemma low_bitmap_free: "bitmap_ok low_bitmap" "free_set low_bitmap = {256..<320}"
proof -
  show "bitmap_ok low_bitmap" by (simp add: low_bitmap_def bitmap_ok_def BITMAP_INIT_def)
  have full: "bit (0xFFFFFFFFFFFFFFFF :: u64) i" if "i < 64" for i :: nat
    using that not_max_iff [of "0xFFFFFFFFFFFFFFFF"] by auto
  show "free_set low_bitmap = {256..<320}"
  proof (rule set_eqI)
    fix p
    have "p < 64 * BITMAP_LEN \<Longrightarrow> low_bitmap ! (p div 64) = (if p div 64 = 4 then 0 else 0xFFFFFFFFFFFFFFFF)"
      by (simp add: low_bitmap_def BITMAP_INIT_def nth_list_update less_mult_imp_div_less mult.commute)
    then have "p \<in> free_set low_bitmap \<longleftrightarrow> p < 64 * BITMAP_LEN \<and> p div 64 = 4"
      unfolding free_set_def using full [of "p mod 64"] by (cases "p div 64 = 4") auto
    also have "\<dots> \<longleftrightarrow> p \<in> {256..<320}" by (auto simp: BITMAP_LEN_def)
    finally show "p \<in> free_set low_bitmap \<longleftrightarrow> p \<in> {256..<320}" .
  qed
qed

lemma empty_tables_ok: "tables_ok (\<lambda>_. 0) low_bitmap 0x1000"
proof -
  have r: "read64 (\<lambda>_. 0) x = 0" for x by (simp add: read64_def)
  have "p = []" "a = 0x1000" if "table_at (\<lambda>_. 0) 0x1000 p = Some a" for p a
    using that by (cases p; simp add: r present_def)+
  then have t: "table_at (\<lambda>_. 0) 0x1000 p = Some a \<longleftrightarrow> p = [] \<and> a = 0x1000" for p a by auto
  show ?thesis
    using low_bitmap_free unfolding tables_ok_def t by (auto simp: r present_def paged_def page_no_def)
qed

lemma empty_not_huge: "\<not> in_huge (\<lambda>_. 0) 0x1000 v"
  by (simp add: in_huge_def indices_def read64_def present_def)

lemma leaf_translate:
  assumes "xlate m root (indices v) = Some (phys OR flags OR PAGE_PRESENT, 0)" "paged phys" "unat phys < 2 ^ 52"
    "flags AND 0x000FFFFFFFFFF000 = 0"
  shows "translate m root v = Some (phys OR (v AND mask 12))"
proof -
  have e: "(phys OR flags OR PAGE_PRESENT) AND 0x000FFFFFFFFFF000 = phys"
    using new_entry_views(3) [OF assms(2,3), of 0] assms(4)
    by (simp add: new_entry_def entry_to_table_def bit.conj_disj_distrib2 PAGE_PRESENT_def PAGE_WRITABLE_def)
  have "unat (phys AND NOT (mask 12)) = unat phys"
    using assms(2) div_mult_mod_eq [of "unat phys" 4096] by (simp only: unat_and_not_mask) (simp add: paged_def)
  then have "phys AND NOT (mask 12) = phys" by (simp only: word_unat_eq_iff)
  then show ?thesis using assms(1) by (simp add: translate_def e)
qed



text \<open>
  C13. A mapping disturbs no other page: every virtual address outside the mapped page translates as
  before, and a page inside a large page is not remapped at all (\<^verbatim>\<open>map\<close> returns early and keeps the large
  translation). It uses at most three free pages and frees none.
\<close>

theorem vmm_map_frame:
  assumes "tables_ok m bm root" "3 \<le> card (free_set bm)" "vmm_map root virt phys flags (m, bm) = Inr (m', bm')"
  shows "(\<forall>v. indices v \<noteq> indices virt \<or> in_huge m root virt \<longrightarrow> translate m' root v = translate m root v)
    \<and> free_set bm' \<subseteq> free_set bm \<and> card (free_set bm) \<le> card (free_set bm') + 3"
proof -
  have p: "maps_page m bm root virt phys flags m' bm'" using vmm_map_spec [OF assms(1,2), of virt phys flags] assms(3) by auto
  have "same_leaf (xlate m' root (indices v)) (xlate m root (indices v))"
    if "indices v \<noteq> indices virt \<or> in_huge m root virt" for v
    using p that indices_bound [of v] by (cases "indices v = indices virt") (simp_all add: maps_page_def)
  with p show ?thesis using same_leaf_translate by (auto simp: maps_page_def)
qed

theorem vmm_map_frame_witness:
  "\<exists>m' bm'. vmm_map 0x1000 0x10000001000 0x200000 6 (\<lambda>_. 0, low_bitmap) = Inr (m', bm')
    \<and> translate m' 0x1000 0x10000002000 = translate (\<lambda>_. 0) 0x1000 0x10000002000"
proof -
  obtain m' bm' where r: "vmm_map 0x1000 0x10000001000 0x200000 6 (\<lambda>_. 0, low_bitmap) = Inr (m', bm')"
    using vmm_map_spec [OF empty_tables_ok, of "0x10000001000" "0x200000" 6] by (auto simp: low_bitmap_free)
  have "indices 0x10000002000 \<noteq> indices 0x10000001000" by (simp add: indices_def pt_idx_def)
  with vmm_map_frame [OF empty_tables_ok _ r] r show ?thesis by (auto simp: low_bitmap_free)
qed

end
