(* ===== verification/Process.thy ===== *)
theory Process
  imports Vmm
begin

text \<open>
  Processes (\<^verbatim>\<open>src/process.rs\<close>) and the register context of \<^verbatim>\<open>src/scheduler.rs\<close>. A process shares the one
  page table of the kernel; creating it takes two pages for its stacks and maps its user stack and its
  code at virtual addresses that depend on its pid. An open file refers to its inode by its index in
  the inode store.
\<close>

section \<open>Data\<close>

record cpu_context =
  rax :: u64 rbx :: u64 rcx :: u64 rdx :: u64 rsi :: u64 rdi :: u64 rbp :: u64 rsp :: u64
  r8 :: u64 r9 :: u64 r10 :: u64 r11 :: u64 r12 :: u64 r13 :: u64 r14 :: u64 r15 :: u64
  rip :: u64 rflags :: u64 cs :: u64 ss :: u64 cr3 :: u64 ctx_kernel_stack :: u64

definition CODE_PAGES :: u64 where "CODE_PAGES = 2"
definition PERM_READ :: u8 where "PERM_READ = 1"
definition PERM_WRITE :: u8 where "PERM_WRITE = 2"

record grant =
  grant_name :: "u8 list"
  grant_perms :: u8

datatype process_state = Running | Blocked | Dead

record open_file =
  of_perms :: u8
  of_inode :: nat
  of_offset :: nat

record process =
  pid :: u64
  syscall_mask :: u64
  domain :: u8
  token :: u64
  state :: process_state
  kernel_stack :: u64
  user_stack :: u64
  user_regions :: "(u64 \<times> u64) list"
  kernel_stack_phys :: u64
  user_stack_phys :: u64
  ctx :: cpu_context
  fds :: "open_file option list"
  grants :: "grant list"

section \<open>Creation\<close>

definition KERNEL_VIRT :: u64 where "KERNEL_VIRT = 0xFFFF800000000000"

text \<open>\<^verbatim>\<open>for i in 0..CODE_PAGES\<close>: one page of code per round.\<close>

fun map_code :: "u64 \<Rightarrow> u64 \<Rightarrow> u64 \<Rightarrow> nat list \<Rightarrow> vm \<Rightarrow> vm res" where
  "map_code pml4 virt phys [] s = Inr s"
| "map_code pml4 virt phys (i # is) s =
     rbind (pmul (of_nat i) PAGE_SIZE) (\<lambda>d.
     rbind (padd virt d) (\<lambda>v. rbind (padd phys d) (\<lambda>p.
     rbind (vmm_map pml4 v p (PAGE_WRITABLE OR PAGE_USER) s) (\<lambda>s. map_code pml4 virt phys is s))))"

definition context_new :: "u64 \<Rightarrow> u64 \<Rightarrow> u64 \<Rightarrow> u64 \<Rightarrow> cpu_context" where
  "context_new ip sp cr3v kstack = \<lparr>rax = 0, rbx = 0, rcx = 0, rdx = 0, rsi = 0, rdi = 0, rbp = 0, rsp = sp,
     r8 = 0, r9 = 0, r10 = 0, r11 = 0, r12 = 0, r13 = 0, r14 = 0, r15 = 0, rip = ip, rflags = 0x202,
     cs = 0x23, ss = 0x1B, cr3 = cr3v, ctx_kernel_stack = kstack\<rparr>"

definition process_new ::
    "u64 \<Rightarrow> u64 \<Rightarrow> u64 \<Rightarrow> u64 \<Rightarrow> u8 \<Rightarrow> u64 \<Rightarrow> grant list \<Rightarrow> vm \<Rightarrow> (process \<times> vm) res" where
  "process_new pml4 cr3v p smask dom0 entry gs s = (case s of (m, bm) \<Rightarrow>
     rbind (pmm_alloc bm) (\<lambda>(stack, bm).
     rbind (pmm_alloc bm) (\<lambda>(ustack_phys, bm).
     rbind (padd stack 4096) (\<lambda>top.
     let stack_top = top AND NOT 0xF in
     rbind (psub stack_top 8) (\<lambda>stack_ptr.
     let m = write64 m stack_ptr entry in
     rbind (pmul p 0x1000) (\<lambda>d. rbind (padd 0x10000000000 d) (\<lambda>user_stack_virt.
     rbind (psub entry KERNEL_VIRT) (\<lambda>e.
     let fn_phys = e AND NOT 0xFFF; fn_offset = entry AND 0xFFF in
     rbind (pmul p CODE_PAGES) (\<lambda>d. rbind (pmul d PAGE_SIZE) (\<lambda>d.
     rbind (padd 0x20000000000 d) (\<lambda>user_code_virt.
     rbind (vmm_map pml4 user_stack_virt ustack_phys (PAGE_WRITABLE OR PAGE_USER) (m, bm)) (\<lambda>s.
     rbind (map_code pml4 user_code_virt fn_phys [0..<unat CODE_PAGES] s) (\<lambda>s.
     rbind (padd user_stack_virt 4096) (\<lambda>user_stack_top.
     rbind (pmul CODE_PAGES PAGE_SIZE) (\<lambda>clen. rbind (padd user_code_virt clen) (\<lambda>code_end.
     rbind (padd user_stack_virt PAGE_SIZE) (\<lambda>stack_end.
     rbind (padd user_code_virt fn_offset) (\<lambda>ip.
       Inr (\<lparr>pid = p, syscall_mask = smask, domain = dom0, token = 0, state = Running,
             kernel_stack = stack_top, user_stack = user_stack_top,
             user_regions = [(user_code_virt, code_end), (user_stack_virt, stack_end)],
             kernel_stack_phys = stack, user_stack_phys = ustack_phys,
             ctx = context_new ip user_stack_top cr3v stack_top,
             fds = [None, None, None], grants = gs\<rparr>, s)))))))))))))))))))"

section \<open>Pages of the address space\<close>

lemma idx_div:
  "pml4_idx v = unat v div 4096 div 512 div 512 div 512 mod 512"
  "pdpt_idx v = unat v div 4096 div 512 div 512 mod 512"
  "pd_idx v = unat v div 4096 div 512 mod 512"
  "pt_idx v = unat v div 4096 mod 512"
proof -
  have u: "unat (drop_bit n v) = unat v div 2 ^ n" for n
    by (simp only: unat_drop_bit_eq drop_bit_eq_div [of n "unat v"])
  have m: "unat (drop_bit n v AND 0x1FF) = unat v div 2 ^ n mod 512" for n
    using unat_and_mask [of "drop_bit n v" 9] by (simp only: u [symmetric]) (simp add: mask_eq_exp_minus_1)
  show "pml4_idx v = unat v div 4096 div 512 div 512 div 512 mod 512"
    "pdpt_idx v = unat v div 4096 div 512 div 512 mod 512"
    "pd_idx v = unat v div 4096 div 512 mod 512"
    "pt_idx v = unat v div 4096 mod 512"
    unfolding pml4_idx_def pdpt_idx_def pd_idx_def pt_idx_def m by (simp_all add: div_mult2_eq [symmetric])
qed

text \<open>The walk indices of canonical low addresses are those of their page and tell pages apart.\<close>

lemma indices_eq_iff:
  assumes "unat v < 2 ^ 48" "unat w < 2 ^ 48"
  shows "indices v = indices w \<longleftrightarrow> unat v div 4096 = unat w div 4096"
proof
  let ?x = "unat v div 4096" and ?y = "unat w div 4096"
  have split: "a = ((a div 512 div 512 div 512 * 512 + a div 512 div 512 mod 512) * 512 + a div 512 mod 512) * 512
      + a mod 512" for a :: nat by simp
  have t: "?x div 512 div 512 div 512 mod 512 = ?x div 512 div 512 div 512"
    "?y div 512 div 512 div 512 mod 512 = ?y div 512 div 512 div 512"
    using assms by (simp_all add: div_mult2_eq [symmetric] less_mult_imp_div_less)
  assume i: "indices v = indices w"
  then have "?x div 512 div 512 div 512 = ?y div 512 div 512 div 512" "?x div 512 div 512 mod 512 = ?y div 512 div 512 mod 512"
    "?x div 512 mod 512 = ?y div 512 mod 512" "?x mod 512 = ?y mod 512"
    using t by (simp_all only: indices_def idx_div list.inject)
  then show "?x = ?y" using split [of ?x] split [of ?y] by (simp only:)
next
  assume "unat v div 4096 = unat w div 4096"
  then show "indices v = indices w" by (simp only: indices_def idx_div)
qed

section \<open>User mappings\<close>

lemma tables_ok_shrink:
  "tables_ok m bm root \<Longrightarrow> bitmap_ok bm' \<Longrightarrow> free_set bm' \<subseteq> free_set bm \<Longrightarrow> tables_ok m bm' root"
  unfolding tables_ok_def by blast

text \<open>A store into a page that holds no table changes no walk.\<close>

lemma store_outside_tables:
  assumes ok: "tables_ok m bm root" and a: "unat a mod 8 = 0" "page_no a \<in> free_set bm"
  shows "tables_ok (write64 m a v) bm root"
    and "length ks \<le> 4 \<Longrightarrow> \<forall>k \<in> set ks. k < 512 \<Longrightarrow> same_leaf (xlate (write64 m a v) root ks) (xlate m root ks)"
    and "length ks \<le> 4 \<Longrightarrow> \<forall>k \<in> set ks. k < 512 \<Longrightarrow> user_path m root ks \<Longrightarrow> user_path (write64 m a v) root ks"
    and "table_pages (write64 m a v) root = table_pages m root"
proof -
  let ?m = "write64 m a v"
  note D = tables_okD [OF ok]
  have r: "read64 ?m (entry_addr b k) = read64 m (entry_addr b k)"
    if "path p" "table_at m root p = Some b" "k < 512" for p b k
  proof (rule read64_write64_apart, rule apart64_aligned [OF a(1)])
    have b: "paged b" using paged_table_at [OF that(2) D(3)] .
    show "unat (entry_addr b k) mod 8 = 0"
      using b that(3) paged_mod_8 [OF b] by (simp add: unat_entry_addr mod_add_eq [of _ 8, symmetric])
    have "page_no (entry_addr b k) = page_no b"
      using b that(3) by (simp add: page_no_def unat_entry_addr paged_def div_add1_eq)
    then show "a \<noteq> entry_addr b k" using D(4) [OF that(1,2)] a(2) by auto
  qed
  have w: "table_at ?m root ks = table_at m root ks \<and> same_leaf (xlate ?m root ks) (xlate m root ks)"
    if "length ks \<le> 4" "\<forall>k \<in> set ks. k < 512" for ks
  proof (rule walk_cong)
    fix q k y b assume "ks = q @ k # y" "table_at m root q = Some b"
    with r [of q b k] that show "same_entry (read64 ?m (entry_addr b k)) (read64 m (entry_addr b k))"
      by (auto simp: path_def)
  qed
  then show "same_leaf (xlate ?m root ks) (xlate m root ks)" if "length ks \<le> 4" "\<forall>k \<in> set ks. k < 512"
    using that by simp
  show "user_path ?m root ks" if ks: "length ks \<le> 4" "\<forall>k \<in> set ks. k < 512" "user_path m root ks"
  proof (rule user_cong [OF ks(3)])
    fix q k y b assume "ks = q @ k # y" "table_at m root q = Some b"
    with r [of q b k] ks(1,2) show "same_entry (read64 ?m (entry_addr b k)) (read64 m (entry_addr b k)) \<and>
        (read64 m (entry_addr b k) AND PAGE_USER \<noteq> 0 \<longrightarrow> read64 ?m (entry_addr b k) AND PAGE_USER \<noteq> 0)"
      by (auto simp: path_def)
  qed
  have t: "table_at ?m root p = table_at m root p" if "path p" for p using w [of p] that by (simp add: path_def)
  then show "table_pages ?m root = table_pages m root" by (rule table_pages_cong)
  show "tables_ok ?m bm root"
    unfolding tables_ok_def
  proof (intro conjI allI impI)
    fix k :: nat assume k: "k < 512" "present (read64 ?m (entry_addr root k))"
    then show "\<not> huge (read64 ?m (entry_addr root k))" using r [of "[]" root k] D(6) [OF k(1)] by (simp add: path_def)
  qed (use D t in auto)
qed

text \<open>What mapping one user page does.\<close>

definition user_mapped :: "mem \<Rightarrow> u64 \<Rightarrow> u64 \<Rightarrow> u64 \<Rightarrow> bool" where
  "user_mapped m root v phys \<longleftrightarrow> user_path m root (indices v) \<and> \<not> in_huge m root v
     \<and> (\<forall>w. indices w = indices v \<longrightarrow> translate m root w = Some (phys OR (w AND mask 12)))"

text \<open>Walks outside the pages \<open>vs\<close> are as before.\<close>

definition same_outside :: "mem \<Rightarrow> mem \<Rightarrow> u64 \<Rightarrow> u64 set \<Rightarrow> bool" where
  "same_outside m m' root vs \<longleftrightarrow> (\<forall>w. indices w \<notin> indices ` vs \<longrightarrow> translate m' root w = translate m root w
     \<and> in_huge m' root w = in_huge m root w \<and> (user_path m root (indices w) \<longrightarrow> user_path m' root (indices w)))"

lemma same_outside_trans:
  "same_outside m m1 root vs \<Longrightarrow> same_outside m1 m2 root ws \<Longrightarrow> same_outside m m2 root (vs \<union> ws)"
  by (auto simp: same_outside_def image_Un)

lemma user_mapped_frame:
  "user_mapped m root v phys \<Longrightarrow> same_outside m m' root vs \<Longrightarrow> indices v \<notin> indices ` vs \<Longrightarrow> user_mapped m' root v phys"
  unfolding user_mapped_def same_outside_def by metis

lemma same_leaf_huge: "same_leaf (xlate m' root (indices w)) (xlate m root (indices w)) \<Longrightarrow> in_huge m' root w = in_huge m root w"
  using same_leaf_depth by (simp add: in_huge_def)

lemma user_map:
  assumes "tables_ok m bm root" "3 \<le> card (free_set bm)" "\<not> in_huge m root v" "paged phys" "unat phys < 2 ^ 52"
  shows "\<exists>m' bm'. vmm_map root v phys (PAGE_WRITABLE OR PAGE_USER) (m, bm) = Inr (m', bm')
    \<and> tables_ok m' bm' root \<and> free_set bm' \<subseteq> free_set bm \<and> card (free_set bm) \<le> card (free_set bm') + 3
    \<and> table_pages m' root \<subseteq> table_pages m root \<union> (free_set bm - free_set bm')
    \<and> user_mapped m' root v phys \<and> same_outside m m' root {v}"
proof -
  let ?f = "PAGE_WRITABLE OR PAGE_USER"
  obtain m' bm' where r: "vmm_map root v phys ?f (m, bm) = Inr (m', bm')"
    and mp: "maps_page m bm root v phys ?f m' bm'"
    using vmm_map_spec [OF assms(1,2)] by blast
  have f: "?f AND PAGE_USER \<noteq> 0" "?f AND 0x000FFFFFFFFFF000 = 0"
    by (simp_all add: PAGE_WRITABLE_def PAGE_USER_def)
  have x: "xlate m' root (indices v) = Some (phys OR ?f OR PAGE_PRESENT, 0)" "user_path m' root (indices v)"
    using mp assms(3) f(1) by (simp_all add: maps_page_def)
  have "translate m' root w = Some (phys OR (w AND mask 12))" if "indices w = indices v" for w
    using leaf_translate [of m' root w phys ?f] x(1) that assms(4,5) f(2) by simp
  moreover have "same_outside m m' root {v}"
    using mp indices_bound same_leaf_translate same_leaf_huge unfolding same_outside_def maps_page_def by blast
  moreover have "\<not> in_huge m' root v" using x(1) by (simp add: in_huge_def)
  ultimately show ?thesis using r mp x(2) by (auto simp: maps_page_def user_mapped_def)
qed

section \<open>The layout of a process\<close>

definition stack_virt :: "u64 \<Rightarrow> u64" where "stack_virt p = 0x10000000000 + p * 0x1000"
definition code_virt :: "u64 \<Rightarrow> u64" where "code_virt p = 0x20000000000 + p * 0x2000"

text \<open>The virtual pages of a process: two of code and one of stack.\<close>

definition user_pages :: "u64 \<Rightarrow> u64 set" where
  "user_pages p = {code_virt p, code_virt p + 0x1000, stack_virt p}"

lemma region_arith:
  assumes "unat p < 2 ^ 27"
  shows "pmul p 0x1000 = Inr (p * 0x1000)" "padd 0x10000000000 (p * 0x1000) = Inr (stack_virt p)"
    "pmul p CODE_PAGES = Inr (p * 2)" "pmul (p * 2) PAGE_SIZE = Inr (p * 0x2000)"
    "padd 0x20000000000 (p * 0x2000) = Inr (code_virt p)"
    "unat (stack_virt p) = 0x10000000000 + unat p * 0x1000"
    "unat (code_virt p) = 0x20000000000 + unat p * 0x2000"
proof -
  have m: "unat (p * 0x1000) = unat p * 0x1000" "unat (p * 2) = unat p * 2" "unat (p * 0x2000) = unat p * 0x2000"
    using assms unat_mult_small [of p "0x1000"] unat_mult_small [of p 2] unat_mult_small [of p "0x2000"] by simp_all
  show "pmul p 0x1000 = Inr (p * 0x1000)" "pmul p CODE_PAGES = Inr (p * 2)"
    "pmul (p * 2) PAGE_SIZE = Inr (p * 0x2000)"
    using assms m by (simp_all add: pmul_def CODE_PAGES_def PAGE_SIZE_def)
  show "padd 0x10000000000 (p * 0x1000) = Inr (stack_virt p)" "padd 0x20000000000 (p * 0x2000) = Inr (code_virt p)"
    using assms m by (simp_all add: padd_def stack_virt_def code_virt_def)
  show "unat (stack_virt p) = 0x10000000000 + unat p * 0x1000"
    "unat (code_virt p) = 0x20000000000 + unat p * 0x2000"
    using assms m unat_add_small [of "0x10000000000" "p * 0x1000"] unat_add_small [of "0x20000000000" "p * 0x2000"]
    by (simp_all add: stack_virt_def code_virt_def)
qed

lemma code_second:
  assumes "unat p < 2 ^ 27"
  shows "unat (code_virt p + 0x1000) = 0x20000000000 + unat p * 0x2000 + 0x1000"
  using unat_plus_nat [of "code_virt p" 4096] assms by (simp add: region_arith)

lemma page_arith:
  assumes "unat p < 2 ^ 27"
  shows "unat (stack_virt p) div 4096 = 0x10000000 + unat p" "unat (code_virt p) div 4096 = 0x20000000 + unat p * 2"
    "unat (code_virt p + 0x1000) div 4096 = 0x20000001 + unat p * 2"
  using assms by (simp_all only: region_arith code_second)

lemma page_distinct:
  assumes "unat p < 2 ^ 27"
  shows "indices (stack_virt p) \<noteq> indices (code_virt p)" "indices (stack_virt p) \<noteq> indices (code_virt p + 0x1000)"
    "indices (code_virt p) \<noteq> indices (code_virt p + 0x1000)"
proof -
  note b = region_arith(6,7) [OF assms] code_second [OF assms]
  have lt: "unat (stack_virt p) < 2 ^ 48" "unat (code_virt p) < 2 ^ 48" "unat (code_virt p + 0x1000) < 2 ^ 48"
    using assms by (simp_all only: b) simp_all
  note pa = page_arith [OF assms]
  show "indices (stack_virt p) \<noteq> indices (code_virt p)" "indices (stack_virt p) \<noteq> indices (code_virt p + 0x1000)"
    "indices (code_virt p) \<noteq> indices (code_virt p + 0x1000)"
    unfolding indices_eq_iff [OF lt(1,2)] indices_eq_iff [OF lt(1,3)] indices_eq_iff [OF lt(2,3)] pa
    using assms by linarith+
qed

lemma stack_page_facts:
  assumes "paged t" "unat t + 4096 < 2 ^ 64"
  shows "padd t 4096 = Inr (t + 4096)" "(t + 4096) AND NOT 0xF = t + 4096" "psub (t + 4096) 8 = Inr (t + 4088)"
    "unat (t + 4088) mod 8 = 0" "page_no (t + 4088) = page_no t"
proof -
  have u: "unat (t + 4096) = unat t + 4096" "unat (t + 4088) = unat t + 4088"
    using assms unat_plus_nat [of t 4096] unat_plus_nat [of t 4088] by simp_all
  show "padd t 4096 = Inr (t + 4096)" using assms by (simp add: padd_def)
  show "psub (t + 4096) 8 = Inr (t + 4088)" using u by (simp add: psub_def word_le_nat_alt)
  obtain q where q: "unat t = 4096 * q" using assms(1) unfolding paged_def by (meson dvdE mod_0_imp_dvd)
  have "unat ((t + 4096) AND NOT (mask 4)) = unat (t + 4096)"
    by (simp only: unat_and_not_mask u q) simp
  then show "(t + 4096) AND NOT 0xF = t + 4096"
    unfolding word_unat_eq_iff by (simp add: mask_eq_exp_minus_1)
  show "unat (t + 4088) mod 8 = 0" "page_no (t + 4088) = page_no t"
    by (simp_all only: page_no_def u q) (simp_all add: mod_add_eq [symmetric])
qed

lemma paged_stack_code:
  assumes "unat p < 2 ^ 27"
  shows "stack_virt p AND mask 12 = 0" "code_virt p AND mask 12 = 0" "(code_virt p + 0x1000) AND mask 12 = 0"
proof -
  have z: "w AND mask 12 = 0" if "unat w mod 4096 = 0" for w :: u64
    using unat_and_mask [of w 12] that by (simp add: word_unat_eq_iff)
  show "stack_virt p AND mask 12 = 0" "code_virt p AND mask 12 = 0" "(code_virt p + 0x1000) AND mask 12 = 0"
    by (rule z, simp only: region_arith [OF assms] code_second [OF assms], simp add: mod_add_eq [symmetric])+
qed

text \<open>The two pages of code, mapped in order.\<close>

lemma map_code_spec:
  assumes ok: "tables_ok m bm root" and free: "6 \<le> card (free_set bm)" and p: "unat p < 2 ^ 27"
    and h: "\<not> in_huge m root (code_virt p)" "\<not> in_huge m root (code_virt p + 0x1000)"
    and f: "paged f" "unat f + 0x2000 \<le> 2 ^ 52"
  shows "\<exists>m' bm'. map_code root (code_virt p) f [0..<unat CODE_PAGES] (m, bm) = Inr (m', bm')
    \<and> tables_ok m' bm' root \<and> free_set bm' \<subseteq> free_set bm \<and> card (free_set bm) \<le> card (free_set bm') + 6
    \<and> table_pages m' root \<subseteq> table_pages m root \<union> (free_set bm - free_set bm')
    \<and> user_mapped m' root (code_virt p) f \<and> user_mapped m' root (code_virt p + 0x1000) (f + 0x1000)
    \<and> same_outside m m' root {code_virt p, code_virt p + 0x1000}"
proof -
  let ?c = "code_virt p" and ?d = "code_virt p + 0x1000"
  have uf: "unat (f + 0x1000) = unat f + 0x1000" using f(2) unat_plus_nat [of f 4096] by simp
  have f2: "paged (f + 0x1000)" "unat (f + 0x1000) < 2 ^ 52" "unat f < 2 ^ 52"
    using f by (simp_all add: paged_def uf)
  obtain m1 b1 where 1: "vmm_map root ?c f (PAGE_WRITABLE OR PAGE_USER) (m, bm) = Inr (m1, b1)"
    "tables_ok m1 b1 root" "free_set b1 \<subseteq> free_set bm" "card (free_set bm) \<le> card (free_set b1) + 3"
    "user_mapped m1 root ?c f" "same_outside m m1 root {?c}" "table_pages m1 root \<subseteq> table_pages m root \<union> (free_set bm - free_set b1)"
    using user_map [OF ok _ h(1) f(1) f2(3)] free by auto
  have h1: "\<not> in_huge m1 root ?d" using 1(6) h(2) page_distinct(3) [OF p] by (auto simp: same_outside_def)
  obtain m2 b2 where 2: "vmm_map root ?d (f + 0x1000) (PAGE_WRITABLE OR PAGE_USER) (m1, b1) = Inr (m2, b2)"
    "tables_ok m2 b2 root" "free_set b2 \<subseteq> free_set b1" "card (free_set b1) \<le> card (free_set b2) + 3"
    "user_mapped m2 root ?d (f + 0x1000)" "same_outside m1 m2 root {?d}" "table_pages m2 root \<subseteq> table_pages m1 root \<union> (free_set b1 - free_set b2)"
    using user_map [OF 1(2) _ h1 f2(1,2)] 1(4) free by auto
  have "user_mapped m2 root ?c f" using user_mapped_frame [OF 1(5) 2(6)] page_distinct(3) [OF p] by simp
  moreover have "same_outside m m2 root {?c, ?d}" using same_outside_trans [OF 1(6) 2(6)] by (simp add: insert_commute)
  moreover have "map_code root ?c f [0..<unat CODE_PAGES] (m, bm) = Inr (m2, b2)"
  proof -
    have u: "[0..<unat CODE_PAGES] = [0, 1]" by (simp add: CODE_PAGES_def upt_rec)
    have a: "pmul (of_nat 0) PAGE_SIZE = Inr 0" "pmul (of_nat 1) PAGE_SIZE = Inr 0x1000"
      "padd ?c 0 = Inr ?c" "padd f 0 = Inr f" "padd ?c 0x1000 = Inr ?d" "padd f 0x1000 = Inr (f + 0x1000)"
      using region_arith(7) [OF p] p f(2) unat_lt_64 [of ?c] unat_lt_64 [of f]
      by (simp_all add: pmul_def padd_def PAGE_SIZE_def)
    show ?thesis unfolding u map_code.simps a rbind_simps 1(1) 2(1) ..
  qed
  moreover have "table_pages m2 root \<subseteq> table_pages m root \<union> (free_set bm - free_set b2)" using 1(3,7) 2(3,7) by blast
  ultimately show ?thesis using 1(3,4) 2(2-5) by (intro exI [of _ m2] exI [of _ b2]) auto
qed

text \<open>What a created process looks like: its registers, its regions and its mappings.\<close>

definition process_made :: "mem \<Rightarrow> bitmap \<Rightarrow> u64 \<Rightarrow> u64 \<Rightarrow> u64 \<Rightarrow> process \<Rightarrow> mem \<Rightarrow> bitmap \<Rightarrow> bool" where
  "process_made m bm root p entry proc m' bm' \<longleftrightarrow> tables_ok m' bm' root
     \<and> {page_no (kernel_stack_phys proc), page_no (user_stack_phys proc)} \<subseteq> free_set bm - free_set bm'
     \<and> page_no (kernel_stack_phys proc) \<noteq> page_no (user_stack_phys proc)
     \<and> free_set bm' \<subseteq> free_set bm \<and> card (free_set bm) \<le> card (free_set bm') + 11
     \<and> table_pages m' root \<subseteq> table_pages m root
          \<union> (free_set bm - free_set bm' - {page_no (kernel_stack_phys proc), page_no (user_stack_phys proc)})
     \<and> paged (kernel_stack_phys proc) \<and> paged (user_stack_phys proc)
     \<and> pid proc = p \<and> state proc = Running \<and> fds proc = [None, None, None]
     \<and> kernel_stack proc = kernel_stack_phys proc + 4096
     \<and> user_regions proc = [(code_virt p, code_virt p + 0x2000), (stack_virt p, stack_virt p + 0x1000)]
     \<and> rip (ctx proc) = code_virt p + (entry AND 0xFFF) \<and> rsp (ctx proc) = stack_virt p + 0x1000
     \<and> user_stack proc = stack_virt p + 0x1000 \<and> cs (ctx proc) = 0x23 \<and> ss (ctx proc) = 0x1B \<and> rflags (ctx proc) = 0x202
     \<and> user_mapped m' root (stack_virt p) (user_stack_phys proc)
     \<and> user_mapped m' root (code_virt p) ((entry - KERNEL_VIRT) AND NOT 0xFFF)
     \<and> user_mapped m' root (code_virt p + 0x1000) (((entry - KERNEL_VIRT) AND NOT 0xFFF) + 0x1000)
     \<and> same_outside m m' root (user_pages p)"

lemma free_page_facts:
  assumes "unat t = page_no t * 4096" "page_no t \<in> free_set bm"
  shows "paged t" "unat t < 2 ^ 52" "unat t + 4096 < 2 ^ 64"
  using free_set_bound [OF assms(2)] assms(1) by (simp_all add: paged_def)

lemma process_new_spec:
  assumes ok: "tables_ok m bm root" and free: "11 \<le> card (free_set bm)" and p: "unat p < 2 ^ 27"
    and h: "\<forall>v \<in> user_pages p. \<not> in_huge m root v"
    and e: "KERNEL_VIRT \<le> entry" "unat (entry - KERNEL_VIRT) + 0x2000 \<le> 2 ^ 52"
  shows "\<exists>proc m' bm'. process_new root c p smask dom0 entry gs (m, bm) = Inr (proc, m', bm')
    \<and> process_made m bm root p entry proc m' bm' \<and> syscall_mask proc = smask \<and> grants proc = gs"
proof -
  let ?f = "(entry - KERNEL_VIRT) AND NOT 0xFFF"
  note B = tables_okD(1) [OF ok]
  have "free_set bm \<noteq> {}" using free by auto
  then obtain t b1 where a1: "pmm_alloc bm = Inr (t, b1)" using pmm.alloc_succeeds [OF B] by blast
  note A1 = pmm_alloc_InrD [OF B a1]
  have c1: "10 \<le> card (free_set b1)" using free A1(4) by (simp add: A1(5))
  then have "free_set b1 \<noteq> {}" by auto
  then obtain u b2 where a2: "pmm_alloc b1 = Inr (u, b2)" using pmm.alloc_succeeds [OF A1(1)] by blast
  note A2 = pmm_alloc_InrD [OF A1(1) a2]
  have c2: "card (free_set bm) = card (free_set b2) + 2"
  proof -
    have "page_no u \<in> free_set bm - {page_no t}" using A2(4) A1(5) by simp
    then show ?thesis using card_Suc_Diff1 [OF finite_free_set A1(4)] A1(5)
        card_Suc_Diff1 [OF finite_free_set A2(4)] A2(5) by simp
  qed
  note T = free_page_facts [OF A1(2,4)] and U = free_page_facts [OF A2(2,4)]
  note S = stack_page_facts [OF T(1,3)]
  let ?m = "write64 m (t + 4088) entry"
  have pg: "page_no (t + 4088) \<in> free_set bm" using S(5) A1(4) by simp
  note out = store_outside_tables [OF ok S(4) pg, where v = entry]
  have ok2: "tables_ok ?m b2 root"
    by (rule tables_ok_shrink [OF out(1) A2(1)]) (auto simp: A1(5) A2(5))
  have same0: "same_outside m ?m root {}"
    using out(2,3) indices_bound same_leaf_translate same_leaf_huge by (auto simp: same_outside_def)
  have hs: "\<not> in_huge ?m root v" if "v \<in> user_pages p" for v using h that same0 by (auto simp: same_outside_def)
  obtain m1 b3 where 1: "vmm_map root (stack_virt p) u (PAGE_WRITABLE OR PAGE_USER) (?m, b2) = Inr (m1, b3)"
    "tables_ok m1 b3 root" "free_set b3 \<subseteq> free_set b2" "card (free_set b2) \<le> card (free_set b3) + 3"
    "user_mapped m1 root (stack_virt p) u" "same_outside ?m m1 root {stack_virt p}"
    "table_pages m1 root \<subseteq> table_pages ?m root \<union> (free_set b2 - free_set b3)"
    using user_map [OF ok2 _ hs U(1,2), of "stack_virt p"] free c2 by (auto simp: user_pages_def)
  have h1: "\<not> in_huge m1 root (code_virt p)" "\<not> in_huge m1 root (code_virt p + 0x1000)"
    using 1(6) hs page_distinct [OF p] by (auto simp: same_outside_def user_pages_def)
  have uf: "unat ?f = unat (entry - KERNEL_VIRT) div 4096 * 4096" by (rule unat_page_base)
  have F: "paged ?f" "unat ?f + 0x2000 \<le> 2 ^ 52"
    unfolding paged_def uf using e(2) div_times_less_eq_dividend [of "unat (entry - KERNEL_VIRT)" 4096] by simp_all
  have "6 \<le> card (free_set b3)" using free c2 1(4) by linarith
  from map_code_spec [OF 1(2) this p h1 F] obtain m2 b4 where
    2: "map_code root (code_virt p) ?f [0..<unat CODE_PAGES] (m1, b3) = Inr (m2, b4)"
    "tables_ok m2 b4 root" "free_set b4 \<subseteq> free_set b3" "card (free_set b3) \<le> card (free_set b4) + 6"
    "user_mapped m2 root (code_virt p) ?f" "user_mapped m2 root (code_virt p + 0x1000) (?f + 0x1000)"
    "same_outside m1 m2 root {code_virt p, code_virt p + 0x1000}"
    "table_pages m2 root \<subseteq> table_pages m1 root \<union> (free_set b3 - free_set b4)" by blast
  have st: "user_mapped m2 root (stack_virt p) u"
    using user_mapped_frame [OF 1(5) 2(7)] page_distinct [OF p] by simp
  have so: "same_outside m m2 root (user_pages p)"
  proof -
    have "user_pages p = {} \<union> {stack_virt p} \<union> {code_virt p, code_virt p + 0x1000}" by (auto simp: user_pages_def)
    then show ?thesis using same_outside_trans [OF same_outside_trans [OF same0 1(6)] 2(7)] by simp
  qed
  have off: "unat (entry AND 0xFFF) < 4096" by (simp only: unat_page_offset)
  have ar: "padd (stack_virt p) 4096 = Inr (stack_virt p + 0x1000)" "pmul CODE_PAGES PAGE_SIZE = Inr 0x2000"
    "padd (code_virt p) 0x2000 = Inr (code_virt p + 0x2000)" "padd (stack_virt p) PAGE_SIZE = Inr (stack_virt p + 0x1000)"
    "padd (code_virt p) (entry AND 0xFFF) = Inr (code_virt p + (entry AND 0xFFF))"
    using region_arith(6,7) [OF p] p off by (simp_all add: padd_def pmul_def CODE_PAGES_def PAGE_SIZE_def)
  have eb: "psub entry KERNEL_VIRT = Inr (entry - KERNEL_VIRT)" using e(1) by (simp add: psub_def)
  have pg2: "page_no t \<noteq> page_no u" "page_no u \<in> free_set bm" using A2(4) A1(5) by auto
  have fs: "{page_no t, page_no u} \<subseteq> free_set bm - free_set b4" "free_set b4 \<subseteq> free_set bm"
    using A1(4,5) A2(5) pg2 1(3) 2(3) by blast+
  have tp: "table_pages m2 root \<subseteq> table_pages m root \<union> (free_set bm - free_set b4 - {page_no t, page_no u})"
  proof -
    have "table_pages m2 root \<subseteq> table_pages m root \<union> (free_set b2 - free_set b4)"
      using 1(3,7) 2(3,8) out(4) by blast
    moreover have "free_set b2 = free_set bm - {page_no t, page_no u}" using A1(5) A2(5) by blast
    ultimately show ?thesis by blast
  qed
  have cd: "card (free_set bm) \<le> card (free_set b4) + 11" using c2 1(4) 2(4) by linarith
  show ?thesis
    unfolding process_new_def prod.case a1 rbind_simps a2 S(1-3) region_arith(1-5) [OF p] eb Let_def 1(1) 2(1) ar
  proof (intro exI conjI, rule refl, unfold process_made_def, intro conjI)
  qed (simp_all only: process.select_convs cpu_context.select_convs context_new_def 2(2,5,6) st so fs cd pg2 tp T(1) U(1)
      not_False_eq_True)
qed

section \<open>Regions\<close>

definition regions :: "u64 \<Rightarrow> u64 set" where
  "regions p = {code_virt p ..< code_virt p + 0x2000} \<union> {stack_virt p ..< stack_virt p + 0x1000}"

lemma region_page:
  assumes "unat p < 2 ^ 27" "w \<in> regions p"
  shows "unat w div 4096 \<in> {0x20000000 + unat p * 2, 0x20000001 + unat p * 2, 0x10000000 + unat p}" "unat w < 2 ^ 48"
proof -
  have ends: "unat (code_virt p + 0x2000) = 0x20000000000 + unat p * 0x2000 + 0x2000"
    "unat (stack_virt p + 0x1000) = 0x10000000000 + unat p * 0x1000 + 0x1000"
    using assms(1) unat_plus_nat [of "code_virt p" "0x2000"] unat_plus_nat [of "stack_virt p" "0x1000"]
    by (simp_all add: region_arith)
  show "unat w div 4096 \<in> {0x20000000 + unat p * 2, 0x20000001 + unat p * 2, 0x10000000 + unat p}" "unat w < 2 ^ 48"
    using assms
    by (auto simp: regions_def word_less_nat_alt word_le_nat_alt ends region_arith(6,7) [OF assms(1)])
qed

lemma user_pages_low:
  assumes "unat p < 2 ^ 27" "v \<in> user_pages p"
  shows "unat v < 2 ^ 48"
  using assms by (auto simp: user_pages_def region_arith code_second)

text \<open>An address of a region lies in one of the pages of its process, and in none of another's.\<close>

lemma own_region:
  assumes "unat p < 2 ^ 27" "w \<in> regions p"
  shows "indices w \<in> indices ` user_pages p"
proof -
  note w = region_page [OF assms]
  have "\<exists>v \<in> user_pages p. unat w div 4096 = unat v div 4096"
    using w(1) page_arith [OF assms(1)] unfolding user_pages_def by force
  then show ?thesis using indices_eq_iff [OF w(2) user_pages_low [OF assms(1)]] by blast
qed

lemma other_region:
  assumes "unat p < 2 ^ 27" "unat q < 2 ^ 27" "q \<noteq> p" "w \<in> regions q"
  shows "indices w \<notin> indices ` user_pages p"
proof
  assume "indices w \<in> indices ` user_pages p"
  then obtain v where v: "v \<in> user_pages p" "indices w = indices v" by blast
  note w = region_page [OF assms(2,4)]
  have "unat w div 4096 = unat v div 4096" using indices_eq_iff [OF w(2) user_pages_low [OF assms(1) v(1)]] v(2) by simp
  moreover have "unat q \<noteq> unat p" using assms(3) by (simp add: word_unat_eq_iff)
  ultimately show False using v(1) w(1) assms(1,2) page_arith [OF assms(1)] unfolding user_pages_def by auto
qed

section \<open>Properties\<close>

lemma entry_page:
  assumes "unat p < 2 ^ 27" "unat o1 < 4096"
  shows "indices (code_virt p + o1) = indices (code_virt p)" "(code_virt p + o1) AND mask 12 = o1"
proof -
  have u: "unat (code_virt p + o1) = 0x20000000000 + unat p * 0x2000 + unat o1"
    using assms unat_add_small [of "code_virt p" o1] by (simp add: region_arith)
  have "unat (code_virt p + o1) < 2 ^ 48" "unat (code_virt p) < 2 ^ 48"
    using assms by (simp_all only: u region_arith) simp_all
  then show "indices (code_virt p + o1) = indices (code_virt p)"
    using assms by (simp only: indices_eq_iff u region_arith) simp
  have "unat ((code_virt p + o1) AND mask 12) = unat o1"
    unfolding unat_and_mask u using assms(2) by (simp add: mod_add_eq [symmetric])
  then show "(code_virt p + o1) AND mask 12 = o1" by (simp only: word_unat_eq_iff)
qed

lemma kernel_offset: "((entry - KERNEL_VIRT) AND NOT 0xFFF) OR (entry AND 0xFFF) = entry - KERNEL_VIRT"
proof -
  have "entry - KERNEL_VIRT = entry + 0x800000000000" by (simp add: KERNEL_VIRT_def)
  then have "unat (entry - KERNEL_VIRT) = (unat entry + 34359738368 * 4096) mod 2 ^ 64"
    using unat_word_ariths(1) [of entry "0x800000000000"] by (simp only:) simp
  then have "unat (entry - KERNEL_VIRT) mod 4096 = (unat entry + 34359738368 * 4096) mod 4096"
    by (simp only:) (rule mod_mod_cancel, simp)
  then have "unat (entry - KERNEL_VIRT) mod 4096 = unat entry mod 4096"
    using mod_mult_self1 [of "unat entry" 34359738368 4096] by simp
  then have "unat ((entry - KERNEL_VIRT) AND mask 12) = unat (entry AND mask 12)"
    by (simp only: unat_and_mask) simp
  then have "(entry - KERNEL_VIRT) AND mask 12 = entry AND mask 12" by (simp only: word_unat_eq_iff)
  moreover have "(w AND NOT (mask 12)) OR (w AND mask 12) = w" for w :: u64
    by (simp flip: bit.conj_disj_distrib)
  ultimately have "((entry - KERNEL_VIRT) AND NOT (mask 12)) OR (entry AND mask 12) = entry - KERNEL_VIRT" by metis
  moreover have "(mask 12 :: u64) = 0xFFF" by (simp add: mask_eq_exp_minus_1)
  ultimately show ?thesis by metis
qed

text \<open>
  C17. Creating a process succeeds whenever eleven pages are free (two stacks and at most nine tables).
  The process then starts at its entry point: the MMU takes its instruction pointer to the code of the
  entry function and its stack page to the page allocated for it, both accessible from ring 3; its two
  stack pages are different, were free and are free no longer; and its selectors are those of ring 3 with
  interrupts enabled.
\<close>

theorem process_new_runs_entry:
  assumes "tables_ok m bm pml4" "11 \<le> card (free_set bm)" "unat p < 2 ^ 27"
    and "\<forall>v \<in> user_pages p. \<not> in_huge m pml4 v"
    and "KERNEL_VIRT \<le> entry" "unat (entry - KERNEL_VIRT) + 0x2000 \<le> 2 ^ 52"
  shows "\<exists>proc m' bm'. process_new pml4 c p smask dom0 entry gs (m, bm) = Inr (proc, m', bm')
    \<and> tables_ok m' bm' pml4 \<and> pid proc = p \<and> state proc = Running
    \<and> translate m' pml4 (rip (ctx proc)) = Some (entry - KERNEL_VIRT)
    \<and> user_path m' pml4 (indices (rip (ctx proc)))
    \<and> translate m' pml4 (rsp (ctx proc) - 0x1000) = Some (user_stack_phys proc)
    \<and> user_path m' pml4 (indices (rsp (ctx proc) - 0x1000))
    \<and> cs (ctx proc) = 0x23 \<and> ss (ctx proc) = 0x1B \<and> rflags (ctx proc) = 0x202
    \<and> page_no (kernel_stack_phys proc) \<noteq> page_no (user_stack_phys proc)
    \<and> {page_no (kernel_stack_phys proc), page_no (user_stack_phys proc)} \<subseteq> free_set bm - free_set bm'"
proof -
  obtain proc m' bm' where r: "process_new pml4 c p smask dom0 entry gs (m, bm) = Inr (proc, m', bm')"
    and pm: "process_made m bm pml4 p entry proc m' bm'"
    using process_new_spec [OF assms] by blast
  have "unat (entry AND 0xFFF) < 4096" by (simp only: unat_page_offset)
  note ep = entry_page [OF assms(3) this]
  have "user_mapped m' pml4 (code_virt p) ((entry - KERNEL_VIRT) AND NOT 0xFFF)"
    "rip (ctx proc) = code_virt p + (entry AND 0xFFF)" using pm by (simp_all only: process_made_def)
  then have "translate m' pml4 (rip (ctx proc)) = Some (entry - KERNEL_VIRT) \<and> user_path m' pml4 (indices (rip (ctx proc)))"
    using ep kernel_offset [of entry] by (simp only: user_mapped_def)
  moreover have "user_mapped m' pml4 (stack_virt p) (user_stack_phys proc)"
    "rsp (ctx proc) - 0x1000 = stack_virt p" using pm by (simp_all add: process_made_def)
  then have "translate m' pml4 (rsp (ctx proc) - 0x1000) = Some (user_stack_phys proc)
    \<and> user_path m' pml4 (indices (rsp (ctx proc) - 0x1000))"
    using paged_stack_code(1) [OF assms(3)] by (simp add: user_mapped_def)
  ultimately show ?thesis using r pm unfolding process_made_def by blast
qed

theorem process_new_runs_entry_witness:
  "\<exists>proc m' bm'. process_new 0x1000 0x1000 3 0xF 2 0xFFFF800000101234 [] (\<lambda>_. 0, low_bitmap) = Inr (proc, m', bm')
    \<and> translate m' 0x1000 (rip (ctx proc)) = Some 0x101234"
  using process_new_runs_entry [OF empty_tables_ok, of 3 "0xFFFF800000101234" "0x1000" "0xF" 2 "[]"]
  by (auto simp: low_bitmap_free empty_not_huge KERNEL_VIRT_def)

text \<open>
  C4. The address spaces of processes with different pids do not touch: creating a process leaves the
  translation of every address in the code and stack regions of any other process unchanged, and
  keeps what ring 3 may access there.
\<close>

theorem process_new_isolated:
  assumes "tables_ok m bm pml4" "11 \<le> card (free_set bm)" "unat p < 2 ^ 27"
    and "\<forall>v \<in> user_pages p. \<not> in_huge m pml4 v"
    and "KERNEL_VIRT \<le> entry" "unat (entry - KERNEL_VIRT) + 0x2000 \<le> 2 ^ 52"
    and "process_new pml4 c p smask dom0 entry gs (m, bm) = Inr (proc, m', bm')"
    and "unat q < 2 ^ 27" "q \<noteq> p"
    and "w \<in> regions q"
  shows "translate m' pml4 w = translate m pml4 w \<and> (user_path m pml4 (indices w) \<longrightarrow> user_path m' pml4 (indices w))"
proof -
  have so: "same_outside m m' pml4 (user_pages p)"
    using process_new_spec [OF assms(1-6), of c smask dom0 gs] assms(7) by (auto simp: process_made_def)
  have "indices w \<notin> indices ` user_pages p" by (rule other_region [OF assms(3,8-10)])
  with so show ?thesis by (simp add: same_outside_def)
qed

theorem process_new_isolated_witness:
  "\<exists>proc m' bm'. process_new 0x1000 0x1000 3 0xF 2 0xFFFF800000101234 [] (\<lambda>_. 0, low_bitmap) = Inr (proc, m', bm')
    \<and> translate m' 0x1000 (code_virt 4) = translate (\<lambda>_. 0) 0x1000 (code_virt 4)"
proof -
  have h: "11 \<le> card (free_set low_bitmap)" "unat (3 :: u64) < 2 ^ 27"
    "\<forall>v \<in> user_pages 3. \<not> in_huge (\<lambda>_. 0) 0x1000 v" "KERNEL_VIRT \<le> 0xFFFF800000101234"
    "unat (0xFFFF800000101234 - KERNEL_VIRT) + 0x2000 \<le> 2 ^ 52"
    by (simp_all add: low_bitmap_free empty_not_huge KERNEL_VIRT_def)
  have "code_virt 4 \<in> regions 4"
    by (simp add: regions_def code_virt_def)
  moreover obtain proc m' bm' where
    "process_new 0x1000 0x1000 3 0xF 2 0xFFFF800000101234 [] (\<lambda>_. 0, low_bitmap) = Inr (proc, m', bm')"
    using process_new_spec [OF empty_tables_ok h, of "0x1000" "0xF" 2 "[]"] by blast
  ultimately show ?thesis using process_new_isolated [OF empty_tables_ok h, of "0x1000" "0xF" 2 "[]" _ _ _ 4] by auto
qed

end
