(* ===== verification/Scheduler.thy ===== *)
theory Scheduler
  imports Process
begin

text \<open>
  The scheduler (\<^verbatim>\<open>src/scheduler.rs\<close>) and the part of the timer interrupt in \<^verbatim>\<open>src/main.rs\<close> that saves the
  interrupted process and picks the next one. The process table is an array of 64 slots; the state a
  switch changes is the table, the index of the current process and the kernel stack in the TSS. The
  assembly that moves the registers (\<^verbatim>\<open>switch.s\<close>, \<^verbatim>\<open>timer.s\<close>) is outside the model: a switch returns
  which contexts it is to store and load.
\<close>

section \<open>State\<close>

record scheduler =
  processes :: "process option list"
  current :: nat
  count :: nat

definition SCHEDULER_NEW :: scheduler where
  "SCHEDULER_NEW = \<lparr>processes = replicate 64 None, current = 0, count = 0\<rparr>"

text \<open>\<^verbatim>\<open>SCHEDULER\<close> with \<^verbatim>\<open>TSS.rsp0\<close>.\<close>

record sched_state =
  sched :: scheduler
  rsp0 :: u64

definition next_pid :: "u64 \<Rightarrow> (u64 \<times> u64) res" where
  "next_pid nxt = rbind (padd nxt 1) (\<lambda>n. Inr (nxt, n))"

section \<open>Operations\<close>

definition add_process :: "process \<Rightarrow> scheduler \<Rightarrow> scheduler res" where
  "add_process p s = (case position Option.is_none (take 64 (processes s)) of
     Some i \<Rightarrow> Inr (s\<lparr>processes := (processes s)[i := Some p], count := Suc (count s)\<rparr>)
   | None \<Rightarrow> Inl TooManyProcesses)"

definition is_running :: "process option \<Rightarrow> bool" where
  "is_running slot \<longleftrightarrow> (case slot of Some p \<Rightarrow> state p = Running | None \<Rightarrow> False)"

definition next_running :: "scheduler \<Rightarrow> nat option" where
  "next_running s = map_option (\<lambda>i. (current s + i) mod 64)
     (find (\<lambda>i. is_running (processes s ! ((current s + i) mod 64))) [1..<64])"

definition is_dead :: "process \<Rightarrow> bool" where
  "is_dead p \<longleftrightarrow> state p = Dead"

text \<open>\<^verbatim>\<open>for i in 0..64\<close> of \<^verbatim>\<open>reap\<close>, over the indices left.\<close>

fun reap_loop :: "kimage \<Rightarrow> nat list \<Rightarrow> scheduler \<Rightarrow> bitmap \<Rightarrow> (scheduler \<times> bitmap) res" where
  "reap_loop ki [] s bm = Inr (s, bm)"
| "reap_loop ki (i # is) s bm =
     (if i = current s then reap_loop ki is s bm
      else case processes s ! i of
        None \<Rightarrow> reap_loop ki is s bm
      | Some p \<Rightarrow>
          if is_dead p then
            rbind (pmm_free ki (kernel_stack_phys p) bm) (\<lambda>bm.
            rbind (pmm_free ki (user_stack_phys p) bm) (\<lambda>bm.
            let s = s\<lparr>processes := (processes s)[i := None]\<rparr> in
            if count s = 0 then Inl Overflow
            else reap_loop ki is (s\<lparr>count := count s - 1\<rparr>) bm))
          else reap_loop ki is s bm)"

definition reap :: "kimage \<Rightarrow> scheduler \<Rightarrow> bitmap \<Rightarrow> (scheduler \<times> bitmap) res" where
  "reap ki s bm = reap_loop ki [0..<64] s bm"

text \<open>\<^verbatim>\<open>yield_now\<close>: the slots whose contexts \<^verbatim>\<open>context_switch\<close> stores and loads.\<close>

definition yield_now :: "sched_state \<Rightarrow> ((nat \<times> nat) option \<times> sched_state) res" where
  "yield_now st = (let cur = current (sched st) in
     case next_running (sched st) of
       None \<Rightarrow> Inr (None, st)
     | Some idx \<Rightarrow>
         rbind (unwrap (processes (sched st) ! cur)) (\<lambda>_.
         rbind (unwrap (processes (sched st) ! idx)) (\<lambda>new.
           Inr (Some (cur, idx), st\<lparr>sched := (sched st)\<lparr>current := idx\<rparr>, rsp0 := kernel_stack new\<rparr>))))"

text \<open>The frame of \<^verbatim>\<open>iretq\<close>: instruction and stack pointer, selectors, flags.\<close>

record iret_frame =
  f_rip :: u64
  f_cs :: u64
  f_rflags :: u64
  f_rsp :: u64
  f_ss :: u64

definition start_first_process_ring3 :: "sched_state \<Rightarrow> (iret_frame \<times> sched_state) res" where
  "start_first_process_ring3 st =
     rbind (unwrap (processes (sched st) ! 0)) (\<lambda>proc.
       Inr (\<lparr>f_rip = rip (ctx proc), f_cs = 0x23, f_rflags = 0x202, f_rsp = user_stack proc, f_ss = 0x1B\<rparr>,
            st\<lparr>rsp0 := kernel_stack proc\<rparr>))"

section \<open>Timer\<close>

record saved_regs =
  s_rax :: u64 s_rbx :: u64 s_rcx :: u64 s_rdx :: u64 s_rbp :: u64 s_rsi :: u64 s_rdi :: u64
  s_r8 :: u64 s_r9 :: u64 s_r10 :: u64 s_r11 :: u64 s_r12 :: u64 s_r13 :: u64 s_r14 :: u64 s_r15 :: u64

definition save_context :: "saved_regs \<Rightarrow> iret_frame \<Rightarrow> cpu_context \<Rightarrow> cpu_context" where
  "save_context regs fr c = c\<lparr>rax := s_rax regs, rbx := s_rbx regs, rcx := s_rcx regs, rdx := s_rdx regs,
     rbp := s_rbp regs, rsi := s_rsi regs, rdi := s_rdi regs, r8 := s_r8 regs, r9 := s_r9 regs,
     r10 := s_r10 regs, r11 := s_r11 regs, r12 := s_r12 regs, r13 := s_r13 regs, r14 := s_r14 regs,
     r15 := s_r15 regs, rip := f_rip fr, cs := f_cs fr, rflags := f_rflags fr, rsp := f_rsp fr,
     ss := f_ss fr\<rparr>"

text \<open>
  The end of \<^verbatim>\<open>timer_do_switch\<close>, once the interrupt is acknowledged and the keyboard polled: the slot
  whose context is loaded, or \<open>None\<close> for the null pointer (no switch).
\<close>

definition timer_switch :: "bool \<Rightarrow> u64 \<Rightarrow> saved_regs \<Rightarrow> iret_frame \<Rightarrow> sched_state \<Rightarrow> (nat option \<times> sched_state) res" where
  "timer_switch ready ticks regs fr st =
     (if \<not> ready \<or> ticks mod 5 \<noteq> 0 then Inr (None, st)
      else let cur = current (sched st);
        st = (case processes (sched st) ! cur of
          Some proc \<Rightarrow> st\<lparr>sched := (sched st)\<lparr>processes := (processes (sched st))
            [cur := Some (proc\<lparr>ctx := save_context regs fr (ctx proc)\<rparr>)]\<rparr>\<rparr>
        | None \<Rightarrow> st) in
      case next_running (sched st) of
        Some idx \<Rightarrow>
          let st = st\<lparr>sched := (sched st)\<lparr>current := idx\<rparr>\<rparr> in
          rbind (unwrap (processes (sched st) ! idx)) (\<lambda>p.
            Inr (Some idx, st\<lparr>rsp0 := kernel_stack p\<rparr>))
      | None \<Rightarrow> Inr (None, st))"

text \<open>\<^verbatim>\<open>TICKS += 1\<close>, then the switch.\<close>

definition timer_tick :: "bool \<Rightarrow> saved_regs \<Rightarrow> iret_frame \<Rightarrow> u64 \<times> sched_state
    \<Rightarrow> (nat option \<times> u64 \<times> sched_state) res" where
  "timer_tick ready regs fr s = (case s of (ticks, st) \<Rightarrow>
     rbind (padd ticks 1) (\<lambda>ticks.
     rbind (timer_switch ready ticks regs fr st) (\<lambda>(r, st). Inr (r, ticks, st))))"

section \<open>Invariant\<close>

definition used :: "process option list \<Rightarrow> nat" where
  "used ps = length (filter (\<lambda>x. x \<noteq> None) ps)"

definition sched_ok :: "scheduler \<Rightarrow> bool" where
  "sched_ok s \<longleftrightarrow> length (processes s) = 64 \<and> current s < 64 \<and> count s = used (processes s)"

lemma used_update:
  "i < length ps \<Longrightarrow> used (ps[i := x]) + (if ps ! i = None then 0 else 1) = used ps + (if x = None then 0 else 1)"
  unfolding used_def
proof (induction ps arbitrary: i)
  case (Cons p ps)
  show ?case
  proof (cases i)
    case (Suc j)
    then show ?thesis using Cons.IH [of j] Cons.prems
      by (cases p; cases "ps ! j"; cases x) simp_all
  qed (cases p; cases x; simp)
qed simp

lemma used_bound: "used ps \<le> length ps"
  by (simp add: used_def)

lemma used_full: "used ps = length ps \<longleftrightarrow> (\<forall>x \<in> set ps. x \<noteq> None)"
  unfolding used_def by (metis (mono_tags, lifting) filter_True filter_id_conv length_filter_less less_irrefl)

lemma sched_ok_new: "sched_ok SCHEDULER_NEW"
  by (simp add: sched_ok_def SCHEDULER_NEW_def used_def)

lemma add_process_spec:
  assumes "sched_ok s"
  shows "if count s = 64 then add_process p s = Inl TooManyProcesses
    else \<exists>i s'. add_process p s = Inr s' \<and> i < 64 \<and> processes s ! i = None \<and> (\<forall>j<i. processes s ! j \<noteq> None)
      \<and> processes s' = (processes s)[i := Some p] \<and> current s' = current s \<and> count s' = Suc (count s) \<and> sched_ok s'"
proof -
  have l: "length (processes s) = 64" and c: "count s = used (processes s)" using assms by (simp_all add: sched_ok_def)
  show ?thesis
  proof (cases "position Option.is_none (processes s)")
    case None
    then have "used (processes s) = 64"
      using used_full [of "processes s"] l by (auto simp: position_None Option.is_none_def)
    with None c l show ?thesis by (simp add: add_process_def)
  next
    case (Some i)
    then have i: "i < 64" "processes s ! i = None" "\<forall>j<i. processes s ! j \<noteq> None"
      using l by (auto simp: position_Some Option.is_none_def)
    then have "used (processes s) \<noteq> 64" using used_full [of "processes s"] l nth_mem by metis
    moreover have "used ((processes s)[i := Some p]) = Suc (used (processes s))"
      using used_update [of i "processes s" "Some p"] i l by simp
    ultimately show ?thesis
      using Some i assms c l by (auto simp: add_process_def sched_ok_def)
  qed
qed

section \<open>Round robin\<close>

text \<open>The number of slots from the current one to \<open>j\<close>, going round.\<close>

definition dist :: "nat \<Rightarrow> nat \<Rightarrow> nat" where
  "dist c j = (j + 64 - c) mod 64"

lemma dist_reach: "c < 64 \<Longrightarrow> j < 64 \<Longrightarrow> (c + dist c j) mod 64 = j"
  unfolding dist_def by (simp add: mod_add_right_eq)

lemma dist_bound: "dist c j < 64"
  by (simp add: dist_def)

lemma dist_0: "c < 64 \<Longrightarrow> j < 64 \<Longrightarrow> dist c j = 0 \<longleftrightarrow> j = c"
  using dist_reach [of c j] by (auto simp: dist_def)

lemma dist_step:
  assumes "c < 64" "j < 64" "i \<le> dist c j"
  shows "dist ((c + i) mod 64) j = dist c j - i"
proof -
  have a: "dist c j = (if c \<le> j then j - c else j + 64 - c)" if "c < 64" for c
    using that assms(2) by (simp add: dist_def mod_if)
  have m: "(c + i) mod 64 = (if c + i < 64 then c + i else c + i - 64)"
    using assms(1,3) dist_bound [of c j] by (simp add: mod_if)
  show ?thesis
    using assms a [of c] a [of "(c + i) mod 64"] unfolding m by (auto split: if_splits)
qed

lemma find_upt_Some: "find P [a..<b] = Some i \<longleftrightarrow> a \<le> i \<and> i < b \<and> P i \<and> (\<forall>k. a \<le> k \<and> k < i \<longrightarrow> \<not> P k)"
proof -
  have "find P [a..<b] = Some i \<longleftrightarrow> (\<exists>n<b - a. P (a + n) \<and> i = a + n \<and> (\<forall>m<n. \<not> P (a + m)))"
    unfolding find_Some_iff by (rule ex_cong1) auto
  also have "\<dots> \<longleftrightarrow> a \<le> i \<and> i < b \<and> P i \<and> (\<forall>k. a \<le> k \<and> k < i \<longrightarrow> \<not> P k)"
  proof safe
    fix n k assume "n < b - a" "\<forall>m<n. \<not> P (a + m)" "a \<le> k" "k < a + n" "P k"
    then show False by (metis le_add_diff_inverse less_diff_conv2 add.commute)
  next
    assume *: "a \<le> i" "i < b" "P i" "\<forall>k. a \<le> k \<and> k < i \<longrightarrow> \<not> P k"
    then show "\<exists>n<b - a. P (a + n) \<and> i = a + n \<and> (\<forall>m<n. \<not> P (a + m))"
      by (intro exI [of _ "i - a"]) auto
  qed auto
  finally show ?thesis .
qed

lemma next_running_Some:
  assumes "sched_ok s"
  shows "next_running s = Some idx \<longleftrightarrow> idx < 64 \<and> idx \<noteq> current s \<and> is_running (processes s ! idx)
    \<and> (\<forall>j<64. is_running (processes s ! j) \<longrightarrow> j \<noteq> current s \<longrightarrow> dist (current s) idx \<le> dist (current s) j)"
proof -
  let ?c = "current s" and ?run = "\<lambda>j. is_running (processes s ! j)"
  have c: "?c < 64" using assms by (simp add: sched_ok_def)
  have d: "dist ?c ((?c + i) mod 64) = i" if "i < 64" for i
    using that c unfolding dist_def by (auto simp: mod_if)
  show ?thesis
  proof
    assume "next_running s = Some idx"
    then obtain i where i: "1 \<le> i" "i < 64" "?run idx" "idx = (?c + i) mod 64"
        "\<forall>k. 1 \<le> k \<and> k < i \<longrightarrow> \<not> ?run ((?c + k) mod 64)"
      by (auto simp: next_running_def find_upt_Some)
    have di: "dist ?c idx = i" using d i(2,4) by simp
    have "i \<le> dist ?c j" if "j < 64" "?run j" "j \<noteq> ?c" for j
    proof (rule ccontr)
      assume "\<not> i \<le> dist ?c j"
      moreover have "1 \<le> dist ?c j" using dist_0 [OF c that(1)] that(3) by simp
      ultimately show False using i(5) that(2) dist_reach [OF c that(1)] by (metis not_le)
    qed
    moreover have "idx \<noteq> ?c" using di i(1) dist_0 [OF c, of idx] i(4) by auto
    ultimately show "idx < 64 \<and> idx \<noteq> ?c \<and> ?run idx \<and> (\<forall>j<64. ?run j \<longrightarrow> j \<noteq> ?c \<longrightarrow> dist ?c idx \<le> dist ?c j)"
      using i(3,4) di by simp
  next
    assume *: "idx < 64 \<and> idx \<noteq> ?c \<and> ?run idx \<and> (\<forall>j<64. ?run j \<longrightarrow> j \<noteq> ?c \<longrightarrow> dist ?c idx \<le> dist ?c j)"
    let ?i = "dist ?c idx"
    have i: "(?c + ?i) mod 64 = idx" "1 \<le> ?i" "?i < 64"
      using * dist_reach [OF c, of idx] dist_0 [OF c, of idx] dist_bound by auto
    have "\<not> ?run ((?c + k) mod 64)" if k: "1 \<le> k" "k < ?i" for k
    proof
      assume r: "?run ((?c + k) mod 64)"
      have dk: "dist ?c ((?c + k) mod 64) = k" using d k(2) i(3) by simp
      then have "(?c + k) mod 64 \<noteq> ?c" using k(1) dist_0 [OF c, of "(?c + k) mod 64"] by auto
      then show False using * r dk k(2) by (metis mod_less_divisor not_le zero_less_numeral)
    qed
    then have "find (\<lambda>i. ?run ((?c + i) mod 64)) [1..<64] = Some ?i" using i * by (simp add: find_upt_Some)
    then show "next_running s = Some idx" using i(1) by (simp add: next_running_def)
  qed
qed

lemma next_running_None:
  assumes "sched_ok s"
  shows "next_running s = None \<longleftrightarrow> (\<forall>j<64. j \<noteq> current s \<longrightarrow> \<not> is_running (processes s ! j))"
proof -
  let ?c = "current s"
  have c: "?c < 64" using assms by (simp add: sched_ok_def)
  have "next_running s = None \<longleftrightarrow> (\<forall>i \<in> {1..<64}. \<not> is_running (processes s ! ((?c + i) mod 64)))"
    by (auto simp: next_running_def find_None_iff)
  also have "\<dots> \<longleftrightarrow> (\<forall>j<64. j \<noteq> ?c \<longrightarrow> \<not> is_running (processes s ! j))"
  proof safe
    fix j assume *: "\<forall>i \<in> {1..<64}. \<not> is_running (processes s ! ((?c + i) mod 64))" "j < 64" "j \<noteq> ?c"
      "is_running (processes s ! j)"
    have "dist ?c j \<in> {1..<64}" using dist_0 [OF c *(2)] *(3) dist_bound by (simp add: Suc_le_eq)
    with *(1,4) dist_reach [OF c *(2)] show False by metis
  next
    fix i assume *: "\<forall>j<64. j \<noteq> ?c \<longrightarrow> \<not> is_running (processes s ! j)" "i \<in> {1..<64}"
      "is_running (processes s ! ((?c + i) mod 64))"
    have "(?c + i) mod 64 \<noteq> ?c" using *(2) c by (auto simp: mod_if)
    with * show False by auto
  qed
  finally show ?thesis .
qed

section \<open>Switching\<close>

definition save_current :: "saved_regs \<Rightarrow> iret_frame \<Rightarrow> scheduler \<Rightarrow> scheduler" where
  "save_current regs fr s = (case processes s ! current s of
     Some proc \<Rightarrow> s\<lparr>processes := (processes s)[current s := Some (proc\<lparr>ctx := save_context regs fr (ctx proc)\<rparr>)]\<rparr>
   | None \<Rightarrow> s)"

lemma save_current_simps [simp]:
  "current (save_current regs fr s) = current s" "count (save_current regs fr s) = count s"
  "length (processes (save_current regs fr s)) = length (processes s)"
  by (simp_all add: save_current_def split: option.splits)

lemma save_current_nth:
  assumes "sched_ok s" "j < 64"
  shows "processes (save_current regs fr s) ! j = (if j = current s
    then map_option (\<lambda>p. p\<lparr>ctx := save_context regs fr (ctx p)\<rparr>) (processes s ! j) else processes s ! j)"
  using assms by (auto simp: save_current_def sched_ok_def split: option.splits)

lemma save_current_ok:
  assumes "sched_ok s"
  shows "sched_ok (save_current regs fr s)"
proof (cases "processes s ! current s")
  case None
  then show ?thesis using assms by (simp add: save_current_def)
next
  case (Some p)
  have "current s < length (processes s)" using assms by (simp add: sched_ok_def)
  from used_update [OF this, of "Some (p\<lparr>ctx := save_context regs fr (ctx p)\<rparr>)"] show ?thesis
    using assms Some by (simp add: save_current_def sched_ok_def)
qed

lemma is_running_save [simp]:
  assumes "sched_ok s" "j < 64"
  shows "is_running (processes (save_current regs fr s) ! j) = is_running (processes s ! j)"
  using save_current_nth [OF assms] by (simp add: is_running_def split: option.splits)

lemma next_running_save:
  assumes "sched_ok s"
  shows "next_running (save_current regs fr s) = next_running s"
proof -
  have "next_running (save_current regs fr s) = Some i \<longleftrightarrow> next_running s = Some i" for i
    unfolding next_running_Some [OF assms] next_running_Some [OF save_current_ok [OF assms]]
    using assms by auto
  then show ?thesis by (metis not_None_eq)
qed

lemma is_runningD: "is_running x \<Longrightarrow> \<exists>p. x = Some p \<and> state p = Running"
  by (simp add: is_running_def split: option.splits)

lemma timer_switch_spec:
  assumes "sched_ok (sched st)" "ready" "ticks mod 5 = 0"
  shows "\<exists>st'. timer_switch ready ticks regs fr st = Inr (next_running (sched st), st')
    \<and> sched_ok (sched st') \<and> processes (sched st') = processes (save_current regs fr (sched st))
    \<and> (case next_running (sched st) of
        Some i \<Rightarrow> current (sched st') = i \<and> (\<exists>p. processes (sched st') ! i = Some p \<and> rsp0 st' = kernel_stack p)
      | None \<Rightarrow> current (sched st') = current (sched st) \<and> rsp0 st' = rsp0 st)"
proof -
  let ?s = "save_current regs fr (sched st)"
  have body: "timer_switch ready ticks regs fr st = (case next_running ?s of
        Some idx \<Rightarrow> rbind (unwrap (processes ?s ! idx)) (\<lambda>p.
            Inr (Some idx, st\<lparr>sched := ?s\<lparr>current := idx\<rparr>, rsp0 := kernel_stack p\<rparr>))
      | None \<Rightarrow> Inr (None, st\<lparr>sched := ?s\<rparr>))"
    using assms(2,3)
    by (cases "processes (sched st) ! current (sched st)")
      (auto simp: timer_switch_def save_current_def Let_def split: option.splits)
  note ok = save_current_ok [OF assms(1), of regs fr]
  show ?thesis
  proof (cases "next_running (sched st)")
    case None
    then show ?thesis using ok by (simp add: body next_running_save [OF assms(1)])
  next
    case (Some i)
    then have i: "i < 64" "is_running (processes (sched st) ! i)" using next_running_Some [OF assms(1)] by auto
    then obtain p where p: "processes ?s ! i = Some p" using is_runningD is_running_save [OF assms(1)] by blast
    have "sched_ok (?s\<lparr>current := i\<rparr>)" using ok i(1) by (simp add: sched_ok_def)
    then show ?thesis using Some p by (simp add: body next_running_save [OF assms(1)])
  qed
qed

text \<open>A run of ticks: the saved registers and the frame of each.\<close>

fun run_ticks :: "(saved_regs \<times> iret_frame) list \<Rightarrow> u64 \<times> sched_state \<Rightarrow> (u64 \<times> sched_state) res" where
  "run_ticks [] s = Inr s"
| "run_ticks ((regs, fr) # xs) s = rbind (timer_tick True regs fr s) (\<lambda>(_, s). run_ticks xs s)"

lemma timer_tick_spec:
  assumes "sched_ok (sched st)" "unat t + 1 < 2 ^ 64" "j < 64" "is_running (processes (sched st) ! j)"
    "current (sched st) \<noteq> j"
  shows "\<exists>r st'. timer_tick True regs fr (t, st) = Inr (r, t + 1, st') \<and> sched_ok (sched st')
    \<and> is_running (processes (sched st') ! j) \<and> unat (t + 1) = unat t + 1
    \<and> 5 * dist (current (sched st')) j - unat (t + 1) mod 5 < 5 * dist (current (sched st)) j - unat t mod 5"
proof -
  have c: "current (sched st) < 64" using assms(1) by (simp add: sched_ok_def)
  have u: "unat (t + 1) = unat t + 1" using assms(2) unat_plus_nat [of t 1] by simp
  have pa: "padd t 1 = Inr (t + 1)" using assms(2) by (simp add: padd_def)
  have d: "0 < dist (current (sched st)) j" using dist_0 [OF c assms(3)] assms(5) by auto
  have m: "(t + 1) mod 5 = 0 \<longleftrightarrow> (unat t + 1) mod 5 = 0"
    using u by (simp add: word_unat_eq_iff unat_mod)
  show ?thesis
  proof (cases "(t + 1) mod 5 = 0")
    case False
    then have "(unat t + 1) mod 5 = unat t mod 5 + 1" using m by (simp add: mod_Suc split: if_splits)
    moreover have "unat t mod 5 < 5" by simp
    ultimately have "5 * dist (current (sched st)) j - unat (t + 1) mod 5 < 5 * dist (current (sched st)) j - unat t mod 5"
      using d unfolding u by linarith
    then show ?thesis using False assms(1,4) u pa by (simp add: timer_tick_def timer_switch_def)
  next
    case True
    obtain st' where st': "timer_switch True (t + 1) regs fr st = Inr (next_running (sched st), st')"
      "sched_ok (sched st')" "processes (sched st') = processes (save_current regs fr (sched st))"
      "case next_running (sched st) of Some i \<Rightarrow> current (sched st') = i | None \<Rightarrow> True"
      using timer_switch_spec [OF assms(1) TrueI True, of regs fr] by (auto split: option.splits)
    obtain i where i: "next_running (sched st) = Some i"
      using next_running_None [OF assms(1)] assms(3,4,5) by (cases "next_running (sched st)") auto
    then have "i < 64" "i \<noteq> current (sched st)" "dist (current (sched st)) i \<le> dist (current (sched st)) j"
      using next_running_Some [OF assms(1)] assms(3,4,5) by auto
    moreover have "0 < dist (current (sched st)) i" using dist_0 [OF c, of i] calculation(1,2) by simp
    moreover have "(current (sched st) + dist (current (sched st)) i) mod 64 = i" using dist_reach [OF c] calculation(1) by simp
    ultimately have "dist i j = dist (current (sched st)) j - dist (current (sched st)) i" "0 < dist (current (sched st)) i"
      using dist_step [OF c assms(3), of "dist (current (sched st)) i"] by auto
    moreover have "(unat t + 1) mod 5 = 0" "unat t mod 5 = 4" using True m by (simp_all add: mod_Suc split: if_splits)
    ultimately have "5 * dist i j - unat (t + 1) mod 5 < 5 * dist (current (sched st)) j - unat t mod 5"
      using d unfolding u by simp
    moreover have "current (sched st') = i" using st'(4) i by simp
    ultimately show ?thesis using st'(1-3) u pa assms(1,3,4) by (simp add: timer_tick_def)
  qed
qed

lemma run_ticks_reaches:
  assumes "sched_ok (sched st)" "unat t + length xs < 2 ^ 64" "j < 64" "is_running (processes (sched st) ! j)"
    "5 * dist (current (sched st)) j - unat t mod 5 \<le> length xs"
  shows "\<exists>k \<le> length xs. \<exists>t' st'. run_ticks (take k xs) (t, st) = Inr (t', st') \<and> current (sched st') = j"
  using assms
proof (induction xs arbitrary: t st)
  case Nil
  have c: "current (sched st) < 64" using Nil.prems(1) by (simp add: sched_ok_def)
  have "unat t mod 5 < 5" by simp
  then have "dist (current (sched st)) j = 0" using Nil.prems(5) by (cases "dist (current (sched st)) j") simp_all
  then show ?case using dist_0 [OF c Nil.prems(3)] by simp
next
  case (Cons x xs)
  obtain regs fr where x: "x = (regs, fr)" by (cases x)
  show ?case
  proof (cases "current (sched st) = j")
    case True
    then show ?thesis by (intro exI [of _ 0]) simp
  next
    case False
    have "unat t + 1 < 2 ^ 64" using Cons.prems(2) by simp
    from timer_tick_spec [OF Cons.prems(1) this Cons.prems(3,4) False] obtain r st' where
      t: "timer_tick True regs fr (t, st) = Inr (r, t + 1, st')" "sched_ok (sched st')"
      "is_running (processes (sched st') ! j)" "unat (t + 1) = unat t + 1"
      "5 * dist (current (sched st')) j - unat (t + 1) mod 5 < 5 * dist (current (sched st)) j - unat t mod 5"
      by blast
    have "\<exists>k \<le> length xs. \<exists>t' st''. run_ticks (take k xs) (t + 1, st') = Inr (t', st'') \<and> current (sched st'') = j"
      using Cons.prems(2,3,5) t by (intro Cons.IH) simp_all
    then obtain k t' st'' where "k \<le> length xs" "run_ticks (take k xs) (t + 1, st') = Inr (t', st'')"
      "current (sched st'') = j" by blast
    then show ?thesis using t(1) by (intro exI [of _ "Suc k"]) (simp add: x)
  qed
qed

section \<open>Reaping\<close>

text \<open>The slots that a sweep over the indices \<open>is\<close> clears, and the pages it gives back.\<close>

definition reaped :: "scheduler \<Rightarrow> nat set \<Rightarrow> nat set" where
  "reaped s is = {i \<in> is. i < 64 \<and> i \<noteq> current s \<and> (\<exists>p. processes s ! i = Some p \<and> is_dead p)}"

definition stack_pages :: "scheduler \<Rightarrow> nat set \<Rightarrow> nat set" where
  "stack_pages s is = (\<Union>i \<in> is. case processes s ! i of
     Some p \<Rightarrow> {page_no (kernel_stack_phys p), page_no (user_stack_phys p)} | None \<Rightarrow> {})"

definition freeable :: "kimage \<Rightarrow> nat set \<Rightarrow> nat set" where
  "freeable ki ps = ps \<inter> {..<64 * BITMAP_LEN} - reserved_pages ki"

lemma freeable_Un: "freeable ki (a \<union> b) = freeable ki a \<union> freeable ki b"
  by (auto simp: freeable_def)

lemma two_frees:
  assumes "bitmap_ok bm" "kimage_ok ki"
  shows "\<exists>bm1 bm2. pmm_free ki a bm = Inr bm1 \<and> pmm_free ki b bm1 = Inr bm2 \<and> bitmap_ok bm2
    \<and> free_set bm2 = free_set bm \<union> freeable ki {page_no a, page_no b}"
proof -
  obtain bm1 where 1: "pmm_free ki a bm = Inr bm1" "bitmap_ok bm1"
    "free_set bm1 = free_set bm \<union> ({page_no a} \<inter> {..<64 * BITMAP_LEN} - reserved_pages ki)"
    using pmm_free_spec [OF assms] by blast
  obtain bm2 where 2: "pmm_free ki b bm1 = Inr bm2" "bitmap_ok bm2"
    "free_set bm2 = free_set bm1 \<union> ({page_no b} \<inter> {..<64 * BITMAP_LEN} - reserved_pages ki)"
    using pmm_free_spec [OF 1(2) assms(2)] by blast
  show ?thesis using 1 2 by (auto simp: freeable_def)
qed

lemma reap_loop_spec:
  assumes "sched_ok s" "bitmap_ok bm" "kimage_ok ki" "distinct is" "set is \<subseteq> {..<64}"
  shows "\<exists>s' bm'. reap_loop ki is s bm = Inr (s', bm') \<and> sched_ok s' \<and> bitmap_ok bm' \<and> current s' = current s
    \<and> (\<forall>j<64. processes s' ! j = (if j \<in> reaped s (set is) then None else processes s ! j))
    \<and> free_set bm' = free_set bm \<union> freeable ki (stack_pages s (reaped s (set is)))"
  using assms(1,2,4,5)
proof (induction "is" arbitrary: s bm)
  case Nil
  then show ?case by (simp add: reaped_def stack_pages_def freeable_def)
next
  case (Cons i "is")
  have i: "i < 64" "i \<notin> set is" "distinct is" "set is \<subseteq> {..<64}" using Cons.prems by auto
  show ?case
  proof (cases "i \<in> reaped s {i}")
    case False
    have "reap_loop ki (i # is) s bm = reap_loop ki is s bm"
      using False i(1) by (auto simp: reaped_def split: option.splits)
    moreover have "reaped s (set (i # is)) = reaped s (set is)" using False by (auto simp: reaped_def)
    ultimately show ?thesis using Cons.IH [OF Cons.prems(1,2) i(3,4)] by simp
  next
    case True
    then obtain p where p: "processes s ! i = Some p" "is_dead p" "i \<noteq> current s" by (auto simp: reaped_def)
    obtain b1 b2 where b: "pmm_free ki (kernel_stack_phys p) bm = Inr b1" "pmm_free ki (user_stack_phys p) b1 = Inr b2"
      "bitmap_ok b2" "free_set b2 = free_set bm \<union> freeable ki {page_no (kernel_stack_phys p), page_no (user_stack_phys p)}"
      using two_frees [OF Cons.prems(2) assms(3)] by blast
    let ?s = "s\<lparr>processes := (processes s)[i := None], count := count s - 1\<rparr>"
    have len: "length (processes s) = 64" using Cons.prems(1) by (simp add: sched_ok_def)
    have us: "used ((processes s)[i := None]) + 1 = used (processes s)"
      using used_update [of i "processes s" None] p(1) i(1) len by simp
    then have ok: "sched_ok ?s" and cnt: "count s \<noteq> 0" using Cons.prems(1) by (auto simp: sched_ok_def)
    have step: "reap_loop ki (i # is) s bm = reap_loop ki is ?s b2" using p b cnt by (simp add: Let_def)
    have ne: "(processes s)[i := None] ! x = processes s ! x" if "x \<in> set is" for x
      using i(2) that by (cases "x = i") auto
    have r: "reaped ?s (set is) = reaped s (set is)" using ne by (auto simp: reaped_def)
    have r2: "reaped s (set (i # is)) = insert i (reaped s (set is))" using True by (auto simp: reaped_def)
    have sp: "stack_pages ?s (reaped s (set is)) = stack_pages s (reaped s (set is))"
      using ne by (auto simp: stack_pages_def reaped_def)
    have sp2: "stack_pages s (insert i (reaped s (set is))) =
        {page_no (kernel_stack_phys p), page_no (user_stack_phys p)} \<union> stack_pages s (reaped s (set is))"
      using p(1) by (simp add: stack_pages_def)
    obtain s' bm' where s': "reap_loop ki is ?s b2 = Inr (s', bm')" "sched_ok s'" "bitmap_ok bm'"
      "current s' = current ?s" "\<forall>j<64. processes s' ! j = (if j \<in> reaped ?s (set is) then None else processes ?s ! j)"
      "free_set bm' = free_set b2 \<union> freeable ki (stack_pages ?s (reaped ?s (set is)))"
      using Cons.IH [OF ok b(3) i(3,4)] by blast
    have "processes s' ! j = (if j \<in> reaped s (set (i # is)) then None else processes s ! j)" if "j < 64" for j
      using s'(5) that len unfolding r r2 by auto
    moreover have "free_set bm' = free_set bm \<union> freeable ki (stack_pages s (reaped s (set (i # is))))"
      unfolding s'(6) r sp r2 sp2 b(4) freeable_Un by blast
    ultimately show ?thesis unfolding step using s'(1-4) by auto
  qed
qed

lemma reap_spec:
  assumes "sched_ok s" "bitmap_ok bm" "kimage_ok ki"
  shows "\<exists>s' bm'. reap ki s bm = Inr (s', bm') \<and> sched_ok s' \<and> bitmap_ok bm' \<and> current s' = current s
    \<and> (\<forall>j<64. processes s' ! j = (if j \<in> reaped s {..<64} then None else processes s ! j))
    \<and> free_set bm' = free_set bm \<union> freeable ki (stack_pages s (reaped s {..<64}))"
  using reap_loop_spec [OF assms, of "[0..<64]"] by (simp add: reap_def atLeast_upt)

section \<open>Properties\<close>

text \<open>
  A new process goes into the first free slot of the table, no other slot changes and the count of
  processes stays exact; with all 64 slots in use the kernel panics.
\<close>

theorem add_process_first_free:
  assumes "sched_ok s"
  shows "if count s = 64 then add_process p s = Inl TooManyProcesses
    else \<exists>i s'. add_process p s = Inr s' \<and> i < 64 \<and> processes s ! i = None \<and> (\<forall>j<i. processes s ! j \<noteq> None)
      \<and> processes s' = (processes s)[i := Some p] \<and> current s' = current s \<and> count s' = Suc (count s) \<and> sched_ok s'"
  using assms by (rule add_process_spec)

definition sample_process :: "nat \<Rightarrow> process_state \<Rightarrow> process" where
  "sample_process n st = \<lparr>pid = of_nat n, syscall_mask = 0, domain = 2, token = 0, state = st,
     kernel_stack = 0x201000, user_stack = 0x10000004000, user_regions = [],
     kernel_stack_phys = 0x200000, user_stack_phys = 0x201000, ctx = context_new 0 0 0 0,
     fds = [None, None, None], grants = []\<rparr>"

definition sample_sched :: scheduler where
  "sample_sched = \<lparr>processes = Some (sample_process 1 Running) # Some (sample_process 2 Dead)
     # Some (sample_process 3 Running) # replicate 61 None, current = 0, count = 3\<rparr>"

lemma sample_sched_ok: "sched_ok sample_sched"
  by (simp add: sched_ok_def sample_sched_def used_def)

theorem add_process_first_free_witness:
  "\<exists>s'. add_process (sample_process 4 Running) sample_sched = Inr s' \<and> count s' = 4 \<and> sched_ok s'"
  using add_process_first_free [OF sample_sched_ok, of "sample_process 4 Running"] by (auto simp: sample_sched_def)


lemma sample_next: "next_running sample_sched = Some 2"
proof -
  have "[1..<64::nat] = 1 # 2 # [3..<64]" by (simp add: upt_rec)
  then show ?thesis by (simp add: next_running_def sample_sched_def sample_process_def is_running_def)
qed

definition sample_state :: sched_state where
  "sample_state = \<lparr>sched = sample_sched, rsp0 = 0\<rparr>"


text \<open>
  C19. No running process starves: while processes keep their states, the timer loads every running
  process within 315 ticks (63 switches), whatever the registers at each tick.
\<close>

theorem every_running_process_is_scheduled:
  assumes "sched_ok (sched st)" "j < 64" "is_running (processes (sched st) ! j)"
    and "315 \<le> length xs" "unat t + length xs < 2 ^ 64"
  shows "\<exists>k \<le> length xs. \<exists>t' st'. run_ticks (take k xs) (t, st) = Inr (t', st') \<and> current (sched st') = j"
proof -
  have "5 * dist (current (sched st)) j - unat t mod 5 \<le> length xs"
    using dist_bound [of "current (sched st)" j] assms(4) by linarith
  with run_ticks_reaches [OF assms(1,5,2,3)] show ?thesis by blast
qed

theorem every_running_process_is_scheduled_witness:
  "\<exists>k. \<exists>t' st'. run_ticks (take k (replicate 315
       (\<lparr>s_rax = 0, s_rbx = 0, s_rcx = 0, s_rdx = 0, s_rbp = 0, s_rsi = 0, s_rdi = 0, s_r8 = 0, s_r9 = 0,
         s_r10 = 0, s_r11 = 0, s_r12 = 0, s_r13 = 0, s_r14 = 0, s_r15 = 0\<rparr>,
        \<lparr>f_rip = 0, f_cs = 0x23, f_rflags = 0x202, f_rsp = 0, f_ss = 0x1B\<rparr>))) (0, sample_state) = Inr (t', st')
     \<and> current (sched st') = 2"
  using every_running_process_is_scheduled [of sample_state 2 "replicate 315
       (\<lparr>s_rax = 0, s_rbx = 0, s_rcx = 0, s_rdx = 0, s_rbp = 0, s_rsi = 0, s_rdi = 0, s_r8 = 0, s_r9 = 0,
         s_r10 = 0, s_r11 = 0, s_r12 = 0, s_r13 = 0, s_r14 = 0, s_r15 = 0\<rparr>,
        \<lparr>f_rip = 0, f_cs = 0x23, f_rflags = 0x202, f_rsp = 0, f_ss = 0x1B\<rparr>)" 0] sample_sched_ok
  by (simp only: length_replicate)
    (auto simp: sample_state_def sample_sched_def sample_process_def is_running_def)

text \<open>
  Reaping never panics, clears exactly the slots of dead processes other than the current one,
  leaves every other slot alone, keeps the count exact, and gives back exactly the two stack pages of
  each process it clears (never a page of the first megabyte or of the kernel image).
\<close>

theorem reap_frees_dead:
  assumes "sched_ok s" "bitmap_ok bm" "kimage_ok ki"
  shows "\<exists>s' bm'. reap ki s bm = Inr (s', bm') \<and> sched_ok s' \<and> bitmap_ok bm' \<and> current s' = current s
    \<and> (\<forall>j<64. processes s' ! j = (if j \<in> reaped s {..<64} then None else processes s ! j))
    \<and> free_set bm' = free_set bm \<union> freeable ki (stack_pages s (reaped s {..<64}))"
  using assms by (rule reap_spec)

theorem reap_frees_dead_witness:
  "\<exists>s' bm'. reap sample_kimage sample_sched sample_bitmap = Inr (s', bm') \<and> processes s' ! 1 = None
     \<and> processes s' ! 2 = Some (sample_process 3 Running)"
  using reap_frees_dead [OF sample_sched_ok sample_bitmap_ok sample_kimage_ok]
  by (auto simp: reaped_def sample_sched_def sample_process_def is_dead_def)

end
