(* ===== verification/Ramfs.thy ===== *)
theory Ramfs
  imports Phys_Memory
begin

text \<open>
  The RAM file system (\<^verbatim>\<open>src/ramfs.rs\<close>) and the octal reader it takes from \<^verbatim>\<open>src/shell.rs\<close>. A file is
  an \<^verbatim>\<open>Arc<Inode>\<close>: directory entries and open files share it, so inodes live in a store and are
  named by their index there; an index is never reused. \<^verbatim>\<open>ROOT\<close> is the list of directory entries.
  Every operation runs under the locks of the source, which are released before it returns. Memory for
  the vectors is taken to be available: exhaustion of the kernel heap is outside this theory.
\<close>

section \<open>UTF-8 with replacement\<close>

text \<open>
  \<^verbatim>\<open>String::from_utf8_lossy\<close>: \<open>utf8_chunk\<close> is the length of the sequence at the head of the bytes and
  whether it encodes a character; an invalid sequence is the longest prefix of a possible character,
  and is replaced by U+FFFD as a whole.
\<close>

definition cont_byte :: "u8 list \<Rightarrow> nat \<Rightarrow> u8 \<Rightarrow> u8 \<Rightarrow> bool" where
  "cont_byte bs i lo hi \<longleftrightarrow> i < length bs \<and> lo \<le> bs ! i \<and> bs ! i \<le> hi"

definition second_range :: "u8 \<Rightarrow> u8 \<times> u8" where
  "second_range b = (if b = 0xE0 then (0xA0, 0xBF) else if b = 0xED then (0x80, 0x9F)
     else if b = 0xF0 then (0x90, 0xBF) else if b = 0xF4 then (0x80, 0x8F) else (0x80, 0xBF))"

definition utf8_chunk :: "u8 list \<Rightarrow> nat \<times> bool" where
  "utf8_chunk bs = (let b = bs ! 0; (lo, hi) = second_range b in
     if b < 0x80 then (1, True)
     else if 0xC2 \<le> b \<and> b \<le> 0xDF then
       (if cont_byte bs 1 0x80 0xBF then (2, True) else (1, False))
     else if 0xE0 \<le> b \<and> b \<le> 0xEF then
       (if \<not> cont_byte bs 1 lo hi then (1, False)
        else if cont_byte bs 2 0x80 0xBF then (3, True) else (2, False))
     else if 0xF0 \<le> b \<and> b \<le> 0xF4 then
       (if \<not> cont_byte bs 1 lo hi then (1, False)
        else if \<not> cont_byte bs 2 0x80 0xBF then (2, False)
        else if cont_byte bs 3 0x80 0xBF then (4, True) else (3, False))
     else (1, False))"

lemma utf8_chunk_pos: "0 < fst (utf8_chunk bs)"
  by (simp add: utf8_chunk_def Let_def split_beta)

function from_utf8_lossy :: "u8 list \<Rightarrow> u8 list" where
  "from_utf8_lossy bs =
     (if bs = [] then []
      else let (n, valid) = utf8_chunk bs in
        (if valid then take n bs else [0xEF, 0xBF, 0xBD]) @ from_utf8_lossy (drop n bs))"
  by auto
termination
proof (relation "measure length", simp)
  fix bs x n valid
  assume "bs \<noteq> []" "x = utf8_chunk bs" "(n, valid) = x"
  then have "0 < n" using utf8_chunk_pos [of bs] by (metis fst_conv)
  with \<open>bs \<noteq> []\<close> show "(drop n bs, bs) \<in> measure length" by simp
qed

declare from_utf8_lossy.simps [simp del]

section \<open>Inodes\<close>

definition MAX_FILE_SIZE :: nat where "MAX_FILE_SIZE = 64 * 1024"

text \<open>\<^verbatim>\<open>Vec::resize(end, 0)\<close>, then the copy into \<^verbatim>\<open>data[offset..end]\<close>.\<close>

definition write_at :: "u8 list \<Rightarrow> nat \<Rightarrow> u8 list \<Rightarrow> u8 list \<times> nat option" where
  "write_at data offset src =
     (let end' = offset + length src in
      if end' \<ge> 2 ^ 64 then (data, None)
      else if end' > MAX_FILE_SIZE then (data, None)
      else let data = (if length data < end' then data @ replicate (end' - length data) 0 else data) in
        (take offset data @ src @ drop end' data, Some end'))"

definition read_at :: "u8 list \<Rightarrow> nat \<Rightarrow> u8 list \<Rightarrow> u8 list \<times> nat" where
  "read_at data offset dst =
     (if offset \<ge> length data then (dst, 0)
      else let n = min (length dst) (length data - offset) in
        (take n (drop offset data) @ drop n dst, n))"

section \<open>The directory\<close>

record dir_entry =
  de_name :: "u8 list"
  de_inode :: nat

record ramfs =
  inodes :: "u8 list list"
  root :: "dir_entry list"

definition RAMFS_EMPTY :: ramfs where
  "RAMFS_EMPTY = \<lparr>inodes = [], root = []\<rparr>"

text \<open>A new \<^verbatim>\<open>Arc<Inode>\<close> under a new directory entry at the end of \<^verbatim>\<open>ROOT\<close>.\<close>

definition push_file :: "u8 list \<Rightarrow> u8 list \<Rightarrow> ramfs \<Rightarrow> ramfs" where
  "push_file name data fs = fs\<lparr>inodes := inodes fs @ [data],
     root := root fs @ [\<lparr>de_name = name, de_inode = length (inodes fs)\<rparr>]\<rparr>"

definition lookup :: "ramfs \<Rightarrow> u8 list \<Rightarrow> nat option" where
  "lookup fs name = map_option de_inode (find (\<lambda>entry. de_name entry = name) (root fs))"

text \<open>What the callback of \<^verbatim>\<open>list\<close> is called with, in order.\<close>

definition list_files :: "ramfs \<Rightarrow> (u8 list \<times> nat) list" where
  "list_files fs = map (\<lambda>entry. (de_name entry, length (inodes fs ! de_inode entry))) (root fs)"

definition fs_write :: "u8 list \<Rightarrow> u8 list \<Rightarrow> ramfs \<Rightarrow> ramfs \<times> bool" where
  "fs_write name data fs = (case lookup fs name of
     Some i \<Rightarrow> (fs\<lparr>inodes := (inodes fs)[i := data]\<rparr>, True)
   | None \<Rightarrow> (fs, False))"

definition fs_create :: "u8 list \<Rightarrow> ramfs \<Rightarrow> ramfs \<times> bool" where
  "fs_create name fs =
     (if \<exists>entry \<in> set (root fs). de_name entry = name then (fs, False)
      else (push_file (from_utf8_lossy name) [] fs, True))"

definition fs_delete :: "u8 list \<Rightarrow> ramfs \<Rightarrow> ramfs \<times> bool" where
  "fs_delete name fs = (case position (\<lambda>entry. de_name entry = name) (root fs) of
     Some i \<Rightarrow> (fs\<lparr>root := take i (root fs) @ drop (Suc i) (root fs)\<rparr>, True)
   | None \<Rightarrow> (fs, False))"

section \<open>The boot archive\<close>

text \<open>\<^verbatim>\<open>for i in 0..len\<close> of \<^verbatim>\<open>parse_octal\<close>, from \<open>i\<close> on with \<open>k\<close> rounds left.\<close>

fun octal_loop :: "mem \<Rightarrow> u64 \<Rightarrow> u64 \<Rightarrow> nat \<Rightarrow> nat \<Rightarrow> u64 \<Rightarrow> u64 res" where
  "octal_loop m base off i 0 result = Inr result"
| "octal_loop m base off i (Suc k) result =
     rbind (padd base off) (\<lambda>a. rbind (padd a (of_nat i)) (\<lambda>a.
     let c = m a in
     if c < 48 \<or> c > 55 then Inr result
     else rbind (pmul result 8) (\<lambda>r. rbind (padd r (ucast (c - 48))) (\<lambda>r.
          octal_loop m base off (Suc i) k r))))"

definition parse_octal :: "mem \<Rightarrow> u64 \<Rightarrow> u64 \<Rightarrow> u64 \<Rightarrow> u64 res" where
  "parse_octal m base off len = octal_loop m base off 0 (unat len) 0"

text \<open>The inner loop of \<^verbatim>\<open>init\<close>: \<open>buf\<close> is \<^verbatim>\<open>name_buf[..i]\<close>.\<close>

function tar_name :: "mem \<Rightarrow> u64 \<Rightarrow> u64 \<Rightarrow> u8 list \<Rightarrow> u8 list res" where
  "tar_name m base off buf =
     rbind (padd base off) (\<lambda>a. rbind (padd a (of_nat (length buf))) (\<lambda>a.
     let c = m a in
     if c = 0 \<or> length buf \<ge> 100 then Inr buf else tar_name m base off (buf @ [c])))"
  by pat_completeness auto
termination by (relation "measure (\<lambda>(m, base, off, buf). 100 - length buf)") auto

declare tar_name.simps [simp del]

definition tar_entry :: "mem \<Rightarrow> u64 \<Rightarrow> u64 \<Rightarrow> ramfs \<Rightarrow> (ramfs \<times> u64) res" where
  "tar_entry m base off fs =
     rbind (tar_name m base off []) (\<lambda>buf.
     rbind (padd off 124) (\<lambda>o1.
     rbind (parse_octal m base o1 12) (\<lambda>sz.
     rbind (padd base off) (\<lambda>a. rbind (padd a 512) (\<lambda>data_ptr.
     let fs = push_file (from_utf8_lossy buf) (read_slice m data_ptr (unat sz)) fs in
     rbind (padd sz 511) (\<lambda>s. rbind (padd 512 (s AND NOT 511)) (\<lambda>n.
     rbind (padd off n) (\<lambda>off. Inr (fs, off)))))))))"

lemma tar_entry_grows:
  assumes "tar_entry m base off fs = Inr (fs', off')"
  shows "unat off < unat off'"
proof -
  from assms obtain n s where "unat off + unat n < 2 ^ 64" "off' = off + n"
    "unat (512 :: u64) + unat (s AND NOT 511) < 2 ^ LENGTH(64)" "n = 512 + (s AND NOT 511)"
    by (auto simp: tar_entry_def res_simps Let_def)
  then have "unat off' = unat off + unat n" "512 \<le> unat n"
    using unat_add_small [of off n] unat_add_small [of 512 "s AND NOT 511"] by simp_all
  then show ?thesis by simp
qed

function ramfs_init_loop :: "mem \<Rightarrow> u64 \<Rightarrow> u64 \<Rightarrow> ramfs \<Rightarrow> ramfs res" where
  "ramfs_init_loop m base off fs =
     rbind (padd base off) (\<lambda>a.
     if m a = 0 then Inr fs
     else rbind (tar_entry m base off fs) (\<lambda>(fs, off). ramfs_init_loop m base off fs))"
  by pat_completeness auto
termination
proof (relation "measure (\<lambda>(m, base, off, fs). 2 ^ 64 - unat off)", simp)
  fix m base off fs a x fs' off'
  assume "tar_entry m base off fs = Inr x" "(fs', off') = x"
  then have "unat off < unat off'" using tar_entry_grows by blast
  then show "((m, base, off', fs'), m, base, off, fs) \<in> measure (\<lambda>(m, base, off, fs). 2 ^ 64 - unat off)"
    by (simp add: diff_less_mono2)
qed

declare ramfs_init_loop.simps [simp del]

definition ramfs_init :: "mem \<Rightarrow> u64 \<Rightarrow> ramfs \<Rightarrow> ramfs res" where
  "ramfs_init m base fs = ramfs_init_loop m base 0 fs"

section \<open>Reading and writing a file\<close>

lemma write_at_fails: "MAX_FILE_SIZE < offset + length src \<longleftrightarrow> snd (write_at data offset src) = None"
  by (auto simp: write_at_def Let_def MAX_FILE_SIZE_def)

lemma write_at_Some:
  assumes "write_at data offset src = (data', Some e)"
  shows "e = offset + length src" "e \<le> MAX_FILE_SIZE" "length data' = max (length data) e"
    and "\<And>i. i < length data' \<Longrightarrow> data' ! i =
      (if offset \<le> i \<and> i < e then src ! (i - offset) else if i < length data then data ! i else 0)"
proof -
  define d where "d = (if length data < e then data @ replicate (e - length data) 0 else data)"
  from assms have e: "e = offset + length src" and le: "e \<le> MAX_FILE_SIZE"
    and data': "data' = take offset d @ src @ drop e d"
    by (auto simp: write_at_def Let_def not_less d_def split: if_splits)
  have len: "length d = max (length data) e" by (auto simp: d_def)
  show "e = offset + length src" "e \<le> MAX_FILE_SIZE" by fact+
  have off: "offset \<le> length d" using len e by simp
  show l: "length data' = max (length data) e" using data' len e by simp
  have nd: "d ! i = (if i < length data then data ! i else 0)" if "i < length d" for i
    using that by (auto simp: d_def nth_append split: if_splits)
  fix i assume i: "i < length data'"
  consider "i < offset" | "offset \<le> i" "i < e" | "e \<le> i" by linarith
  then show "data' ! i =
      (if offset \<le> i \<and> i < e then src ! (i - offset) else if i < length data then data ! i else 0)"
  proof cases
    case 1
    then have "data' ! i = d ! i" using off by (simp add: data' nth_append)
    then show ?thesis using nd [of i] i l len 1 by simp
  next
    case 2
    then show ?thesis using off e by (auto simp: data' nth_append)
  next
    case 3
    then have "\<not> i - offset < length src" "i - offset - length src = i - e" using e by auto
    then have "data' ! i = drop e d ! (i - e)" using 3 off e by (simp add: data' nth_append)
    also have "\<dots> = d ! i" using 3 len i l by (subst nth_drop) simp_all
    finally show ?thesis using nd [of i] i l len 3 e by simp
  qed
qed

lemma read_at_spec: "read_at data offset dst =
    (take (length dst) (drop offset data) @ drop (length data - offset) dst, min (length dst) (length data - offset))"
  by (auto simp: read_at_def min_def Let_def)

section \<open>The directory as a map\<close>

text \<open>
  The contract: file names to contents. Names in the directory are distinct, and no two entries
  share an inode.
\<close>

definition fs_ok :: "ramfs \<Rightarrow> bool" where
  "fs_ok fs \<longleftrightarrow> distinct (map de_name (root fs)) \<and> distinct (map de_inode (root fs))
     \<and> (\<forall>e \<in> set (root fs). de_inode e < length (inodes fs))"

definition fs_view :: "ramfs \<Rightarrow> u8 list \<Rightarrow> u8 list option" where
  "fs_view fs name = map_option (\<lambda>i. inodes fs ! i) (lookup fs name)"

lemma lookup_Some:
  assumes "fs_ok fs"
  shows "lookup fs name = Some i \<longleftrightarrow> \<lparr>de_name = name, de_inode = i\<rparr> \<in> set (root fs)"
proof -
  have eq: "e = e'" if "e \<in> set (root fs)" "e' \<in> set (root fs)" "de_name e = de_name e'" for e e'
    using assms that by (auto simp: fs_ok_def distinct_map inj_on_def)
  show ?thesis
  proof
    assume "lookup fs name = Some i"
    then obtain e where "find (\<lambda>e. de_name e = name) (root fs) = Some e" "de_inode e = i"
      by (auto simp: lookup_def)
    then have "e \<in> set (root fs)" "e = \<lparr>de_name = name, de_inode = i\<rparr>"
      by (auto simp: find_Some_iff)
    then show "\<lparr>de_name = name, de_inode = i\<rparr> \<in> set (root fs)" by simp
  next
    assume *: "\<lparr>de_name = name, de_inode = i\<rparr> \<in> set (root fs)"
    then obtain e where e: "find (\<lambda>e. de_name e = name) (root fs) = Some e"
      by (cases "find (\<lambda>e. de_name e = name) (root fs)") (auto simp: find_None_iff)
    then have "e \<in> set (root fs)" "de_name e = name" by (auto simp: find_Some_iff)
    with eq [OF _ *, of e] e show "lookup fs name = Some i" by (simp add: lookup_def)
  qed
qed

lemma lookup_None: "lookup fs name = None \<longleftrightarrow> (\<forall>e \<in> set (root fs). de_name e \<noteq> name)"
  by (auto simp: lookup_def find_None_iff)

lemma lookup_bound: "fs_ok fs \<Longrightarrow> lookup fs name = Some i \<Longrightarrow> i < length (inodes fs)"
  by (auto simp: lookup_Some fs_ok_def)

lemma lookup_inj: "fs_ok fs \<Longrightarrow> lookup fs a = Some i \<Longrightarrow> lookup fs b = Some i \<Longrightarrow> a = b"
  by (fastforce simp: lookup_Some fs_ok_def distinct_map inj_on_def)

lemma lookup_push_file:
  "lookup (push_file n d fs) m = (case lookup fs m of Some i \<Rightarrow> Some i
     | None \<Rightarrow> if m = n then Some (length (inodes fs)) else None)"
proof -
  have "find P (xs @ [y]) = (case find P xs of Some z \<Rightarrow> Some z | None \<Rightarrow> if P y then Some y else None)"
    for P and xs :: "dir_entry list" and y by (induction xs) auto
  then show ?thesis by (auto simp: lookup_def push_file_def split: option.splits)
qed

lemma fs_ok_push_file: "fs_ok fs \<Longrightarrow> lookup fs n = None \<Longrightarrow> fs_ok (push_file n d fs)"
  by (auto simp: fs_ok_def push_file_def lookup_None less_Suc_eq)

lemma fs_view_push_file:
  assumes "fs_ok fs" "lookup fs n = None"
  shows "fs_view (push_file n d fs) = (fs_view fs)(n \<mapsto> d)"
proof
  fix m
  have "inodes (push_file n d fs) ! i = inodes fs ! i" if "lookup fs m = Some i" for i
    using lookup_bound [OF assms(1) that] by (simp add: push_file_def nth_append)
  then show "fs_view (push_file n d fs) m = ((fs_view fs)(n \<mapsto> d)) m"
    using assms(2) by (cases "lookup fs m") (auto simp: fs_view_def lookup_push_file, simp add: push_file_def)
qed

lemma fs_write_spec:
  assumes "fs_ok fs" "lookup fs n = Some i"
  shows "fs_write n d fs = (fs\<lparr>inodes := (inodes fs)[i := d]\<rparr>, True)"
    "fs_ok (fs\<lparr>inodes := (inodes fs)[i := d]\<rparr>)"
    "fs_view (fs\<lparr>inodes := (inodes fs)[i := d]\<rparr>) = (fs_view fs)(n \<mapsto> d)"
proof -
  show "fs_write n d fs = (fs\<lparr>inodes := (inodes fs)[i := d]\<rparr>, True)" using assms(2) by (simp add: fs_write_def)
  show "fs_ok (fs\<lparr>inodes := (inodes fs)[i := d]\<rparr>)" using assms(1) by (simp add: fs_ok_def)
  show "fs_view (fs\<lparr>inodes := (inodes fs)[i := d]\<rparr>) = (fs_view fs)(n \<mapsto> d)"
  proof
    fix m
    have l: "lookup (fs\<lparr>inodes := xs\<rparr>) m = lookup fs m" for xs by (simp add: lookup_def)
    have "k \<noteq> i" if "m \<noteq> n" "lookup fs m = Some k" for k using that assms lookup_inj by blast
    then show "fs_view (fs\<lparr>inodes := (inodes fs)[i := d]\<rparr>) m = ((fs_view fs)(n \<mapsto> d)) m"
      using assms lookup_bound [OF assms] by (cases "lookup fs m") (auto simp: fs_view_def l)
  qed
qed

lemma position_split: "position P xs = Some i \<Longrightarrow> xs = take i xs @ xs ! i # drop (Suc i) xs"
  by (simp add: position_Some id_take_nth_drop)

lemma fs_delete_spec:
  assumes "fs_ok fs" "lookup fs n \<noteq> None"
  shows "\<exists>fs'. fs_delete n fs = (fs', True) \<and> fs_ok fs' \<and> inodes fs' = inodes fs
    \<and> lookup fs' = (lookup fs)(n := None)"
proof -
  have "position (\<lambda>e. de_name e = n) (root fs) \<noteq> None" using assms(2) by (auto simp: lookup_None position_None)
  then obtain i where i: "position (\<lambda>e. de_name e = n) (root fs) = Some i" by auto
  define pre e post where "pre = take i (root fs)" and "e = root fs ! i" and "post = drop (Suc i) (root fs)"
  have r: "root fs = pre @ e # post" and en: "de_name e = n"
    using position_split [OF i] i by (simp_all add: pre_def e_def post_def position_Some)
  let ?fs = "fs\<lparr>root := pre @ post\<rparr>"
  have d: "fs_delete n fs = (?fs, True)" by (simp add: fs_delete_def i pre_def post_def)
  have ok: "fs_ok ?fs" using assms(1) by (auto simp: fs_ok_def r)
  have "lookup ?fs m = ((lookup fs)(n := None)) m" for m
  proof (cases "m = n")
    case True
    have "de_name x \<noteq> n" if "x \<in> set (pre @ post)" for x
      using assms(1) that en by (auto simp: fs_ok_def r image_iff)
    then show ?thesis using True lookup_None [of ?fs n] by simp
  next
    case False
    have "find P (xs @ y # ys) = find P (xs @ ys)" if "\<not> P y" for P xs and y :: dir_entry and ys
      using that by (induction xs) auto
    then show ?thesis using False en by (simp add: lookup_def r)
  qed
  with d ok show ?thesis by auto
qed

section \<open>Name store interface\<close>

text \<open>What the shell and the system calls rely on: the directory is a map from names to contents.\<close>

locale name_store =
  fixes ok :: "'s \<Rightarrow> bool"
    and view :: "'s \<Rightarrow> 'n \<Rightarrow> 'c option"
    and create :: "'n \<Rightarrow> 's \<Rightarrow> 's \<times> bool"
    and delete :: "'n \<Rightarrow> 's \<Rightarrow> 's \<times> bool"
    and put :: "'n \<Rightarrow> 'c \<Rightarrow> 's \<Rightarrow> 's \<times> bool"
    and valid :: "'n \<Rightarrow> bool"
    and empty :: 'c
  assumes create_law: "ok s \<Longrightarrow> valid n \<Longrightarrow> view s n = None
      \<Longrightarrow> \<exists>s'. create n s = (s', True) \<and> ok s' \<and> view s' = (view s)(n \<mapsto> empty)"
    and create_exists: "view s n \<noteq> None \<Longrightarrow> create n s = (s, False)"
    and delete_law: "ok s \<Longrightarrow> view s n \<noteq> None
      \<Longrightarrow> \<exists>s'. delete n s = (s', True) \<and> ok s' \<and> view s' = (view s)(n := None)"
    and delete_missing: "view s n = None \<Longrightarrow> delete n s = (s, False)"
    and put_law: "ok s \<Longrightarrow> view s n \<noteq> None
      \<Longrightarrow> \<exists>s'. put n c s = (s', True) \<and> ok s' \<and> view s' = (view s)(n \<mapsto> c)"
    and put_missing: "view s n = None \<Longrightarrow> put n c s = (s, False)"
begin

lemma refines:
  assumes "ok s" "valid n"
  shows "ok (fst (create n s))" "ok (fst (delete n s))" "ok (fst (put n c s))"
    and "view (fst (create n s)) = (if view s n = None then (view s)(n \<mapsto> empty) else view s)"
    and "view (fst (delete n s)) = (view s)(n := None)"
    and "view (fst (put n c s)) = (if view s n = None then view s else (view s)(n \<mapsto> c))"
    and "snd (create n s) \<longleftrightarrow> view s n = None" "snd (delete n s) \<longleftrightarrow> view s n \<noteq> None"
    and "snd (put n c s) \<longleftrightarrow> view s n \<noteq> None"
  using create_law [OF assms] create_exists [of s n] delete_law [OF assms(1), of n] delete_missing [of s n]
    put_law [OF assms(1), of n c] put_missing [of s n c] assms(1)
  by (cases "view s n"; force)+

lemma create_put_delete:
  assumes "ok s" "valid n" "view s n = None"
  shows "view (fst (put n c (fst (create n s)))) n = Some c"
    and "view (fst (delete n (fst (put n c (fst (create n s)))))) = view s"
  using refines [OF assms(1,2)] refines [OF refines(1) [OF assms(1,2)] assms(2)]
    refines [OF refines(3) [OF refines(1) [OF assms(1,2)] assms(2)] assms(2)] assms(3) by auto

end

definition utf8_valid :: "u8 list \<Rightarrow> bool" where
  "utf8_valid name \<longleftrightarrow> from_utf8_lossy name = name"

lemma ascii_valid: "\<forall>b \<in> set name. b < 0x80 \<Longrightarrow> utf8_valid name"
  unfolding utf8_valid_def
  by (induction name; subst from_utf8_lossy.simps) (simp_all add: utf8_chunk_def Let_def split_beta)

lemma fs_view_None: "fs_view fs n = None \<longleftrightarrow> lookup fs n = None"
  by (simp add: fs_view_def)

interpretation ramfs: name_store fs_ok fs_view fs_create fs_delete fs_write utf8_valid "[]"
proof (unfold_locales, goal_cases)
  case (1 s n)
  then have "fs_create n s = (push_file n [] s, True)"
    by (auto simp: fs_create_def utf8_valid_def fs_view_None lookup_None)
  with 1 show ?case using fs_ok_push_file fs_view_push_file by (auto simp: fs_view_None)
next
  case (2 s n)
  then show ?case by (auto simp: fs_create_def fs_view_None lookup_None)
next
  case (3 s n)
  then obtain s' where "fs_delete n s = (s', True)" "fs_ok s'" "inodes s' = inodes s"
    "lookup s' = (lookup s)(n := None)" using fs_delete_spec [of s n] by (auto simp: fs_view_None)
  then show ?case by (auto simp: fs_view_def fun_eq_iff)
next
  case (4 s n)
  then show ?case by (simp add: fs_delete_def fs_view_None lookup_None position_None split: option.splits)
next
  case (5 s n c)
  then show ?case using fs_write_spec [of s n _ c] by (auto simp: fs_view_def)
next
  case (6 s n c)
  then show ?case by (simp add: fs_write_def fs_view_None)
qed

section \<open>Archives in memory\<close>

text \<open>
  A ustar archive as \<^verbatim>\<open>tar\<close> writes it: per file a header of 512 bytes with the name at 0 (padded
  with NUL when shorter than 100) and the size at 124 as eleven octal digits and a NUL, then the data
  padded to a multiple of 512; a zero byte ends the archive.
\<close>

fun oct_digits :: "nat \<Rightarrow> nat \<Rightarrow> nat list" where
  "oct_digits 0 n = []"
| "oct_digits (Suc w) n = oct_digits w (n div 8) @ [n mod 8]"

definition octal_field :: "nat \<Rightarrow> u8 list" where
  "octal_field n = map (\<lambda>d. 48 + of_nat d) (oct_digits 11 n) @ [0]"

definition tar_next :: "nat \<Rightarrow> u8 list \<Rightarrow> nat" where
  "tar_next off data = off + 512 + (length data + 511) div 512 * 512"

fun tar_archive :: "mem \<Rightarrow> u64 \<Rightarrow> nat \<Rightarrow> (u8 list \<times> u8 list) list \<Rightarrow> bool" where
  "tar_archive m base off [] \<longleftrightarrow> m (base + of_nat off) = 0"
| "tar_archive m base off ((name, data) # fs) \<longleftrightarrow> name \<noteq> [] \<and> length name \<le> 100 \<and> 0 \<notin> set name
     \<and> read_slice m (base + of_nat off) (length name) = name
     \<and> (length name < 100 \<longrightarrow> m (base + of_nat (off + length name)) = 0)
     \<and> length data < 8 ^ 11 \<and> read_slice m (base + of_nat (off + 124)) 12 = octal_field (length data)
     \<and> read_slice m (base + of_nat (off + 512)) (length data) = data
     \<and> tar_archive m base (tar_next off data) fs"

fun tar_end :: "nat \<Rightarrow> (u8 list \<times> u8 list) list \<Rightarrow> nat" where
  "tar_end off [] = off"
| "tar_end off ((_, data) # fs) = tar_end (tar_next off data) fs"

lemma tar_end_mono: "off \<le> tar_end off fs"
proof (induction fs arbitrary: off)
  case (Cons f fs)
  obtain n d where "f = (n, d)" by (cases f)
  then show ?case using Cons.IH [of "tar_next off d"] by (simp add: tar_next_def)
qed simp

lemma length_oct_digits [simp]: "length (oct_digits w n) = w"
  by (induction w arbitrary: n) auto

lemma oct_digits_eval: "oct_digits (numeral k) n = oct_digits (pred_numeral k) (n div 8) @ [n mod 8]"
  by (simp only: numeral_eq_Suc [of k] oct_digits.simps)

lemma oct_digits_bound: "d \<in> set (oct_digits w n) \<Longrightarrow> d < 8"
  by (induction w arbitrary: n) auto

lemma oct_digits_value: "n < 8 ^ w \<Longrightarrow> foldl (\<lambda>a d. a * 8 + d) 0 (oct_digits w n) = n"
proof (induction w arbitrary: n)
  case (Suc w)
  then have "n div 8 < 8 ^ w" by (simp add: less_mult_imp_div_less mult.commute)
  then show ?case using Suc.IH [of "n div 8"] by simp
qed simp

lemma padd_nat:
  fixes a :: u64
  assumes "unat a + k < 2 ^ 64"
  shows "padd a (of_nat k) = Inr (a + of_nat k)"
  using assms by (simp add: padd_def unat_of_nat_small)

lemma padd_two:
  fixes base :: u64
  assumes "unat base + (off + i) < 2 ^ 64"
  shows "padd base (of_nat off) = Inr (base + of_nat off)"
    "padd (base + of_nat off) (of_nat i) = Inr (base + of_nat (off + i))"
proof -
  show "padd base (of_nat off) = Inr (base + of_nat off)" using assms by (intro padd_nat) simp
  have "unat (base + of_nat off) = unat base + off" using assms by (intro unat_plus_nat) simp
  then show "padd (base + of_nat off) (of_nat i) = Inr (base + of_nat (off + i))"
    using padd_nat [of "base + of_nat off" i] assms by (simp add: add.assoc)
qed

lemma tar_name_spec:
  assumes "unat base + off + 100 < 2 ^ 64" "length name \<le> 100" "0 \<notin> set name"
    "\<And>i. i < length name \<Longrightarrow> m (base + of_nat (off + i)) = name ! i"
    "length name < 100 \<Longrightarrow> m (base + of_nat (off + length name)) = 0" "k \<le> length name"
  shows "tar_name m base (of_nat off) (take k name) = Inr name"
  using assms(6)
proof (induction "length name - k" arbitrary: k)
  case 0
  then have k: "take k name = name" by simp
  show ?case unfolding k
    by (subst tar_name.simps)
      (use padd_two [of base off "length name"] assms in \<open>cases "length name < 100"; simp add: Let_def\<close>)
next
  case (Suc d)
  then have lt: "k < length name" by simp
  have "name ! k \<noteq> 0" using assms(3) lt nth_mem by metis
  moreover have "take k name @ [name ! k] = take (Suc k) name" using lt by (simp add: take_Suc_conv_app_nth)
  ultimately show ?case
    using padd_two [of base off k] assms(1,2) assms(4) [OF lt] lt Suc.hyps(1) [of "Suc k"] Suc.hyps(2)
    by (subst tar_name.simps) (simp add: Let_def min_def)
qed

lemma digit_byte:
  assumes "d < 8"
  shows "\<not> (48 + of_nat d < (48 :: u8))" "\<not> (48 + of_nat d > (55 :: u8))"
    "ucast (48 + of_nat d - 48 :: u8) = (of_nat d :: u64)"
proof -
  have "d = 0 \<or> d = 1 \<or> d = 2 \<or> d = 3 \<or> d = 4 \<or> d = 5 \<or> d = 6 \<or> d = 7" using assms by linarith
  then show "\<not> (48 + of_nat d < (48 :: u8))" "\<not> (48 + of_nat d > (55 :: u8))"
    "ucast (48 + of_nat d - 48 :: u8) = (of_nat d :: u64)" by auto
qed

lemma octal_loop_spec:
  assumes "unat base + off + i + k < 2 ^ 64" "\<forall>d \<in> set ds. d < 8" "length ds \<le> k"
    "\<And>j. j < length ds \<Longrightarrow> m (base + of_nat (off + i + j)) = 48 + of_nat (ds ! j)"
    "length ds < k \<Longrightarrow> m (base + of_nat (off + i + length ds)) = 0"
    "(r + 1) * 8 ^ length ds < 2 ^ 64"
  shows "octal_loop m base (of_nat off) i k (of_nat r) = Inr (of_nat (foldl (\<lambda>a d. a * 8 + d) r ds))"
  using assms
proof (induction ds arbitrary: i k r)
  case Nil
  then show ?case
    using padd_two [of base off i] by (cases k) (simp_all add: Let_def)
next
  case (Cons d ds)
  obtain k' where k: "k = Suc k'" using Cons.prems(3) by (cases k) simp_all
  have d: "d < 8" using Cons.prems(2) by simp
  have "(r * 8 + d + 1) * 8 ^ length ds \<le> (r * 8 + 8) * 8 ^ length ds" using d by (intro mult_le_mono1) simp
  also have "\<dots> = (r + 1) * 8 ^ length (d # ds)" by (simp add: algebra_simps)
  finally have "(r * 8 + d + 1) * 8 ^ length ds \<le> (r + 1) * 8 ^ length (d # ds)" .
  then have room: "(r * 8 + d + 1) * 8 ^ length ds < 2 ^ 64" using Cons.prems(6) by linarith
  have "1 \<le> (8::nat) ^ length ds" by simp
  then have "r * 8 + d + 1 \<le> (r * 8 + d + 1) * 8 ^ length ds" by (metis mult_le_mono2 mult.right_neutral)
  then have small: "r * 8 + d + 1 < 2 ^ 64" using room by linarith
  have p: "pmul (of_nat r) 8 = Inr (of_nat (r * 8) :: u64)"
    "padd (of_nat (r * 8)) (of_nat d) = Inr (of_nat (r * 8 + d) :: u64)"
    using small by (simp_all add: pmul_def padd_def unat_of_nat_small del: of_nat_add of_nat_mult) simp_all
  have c: "m (base + of_nat (off + i)) = 48 + of_nat d" using Cons.prems(4) [of 0] by simp
  have "octal_loop m base (of_nat off) (Suc i) k' (of_nat (r * 8 + d)) =
      Inr (of_nat (foldl (\<lambda>a d. a * 8 + d) (r * 8 + d) ds))"
    using Cons.prems(1,2,3,5) Cons.prems(4) [of "Suc _"] room k by (intro Cons.IH) simp_all
  then show ?case
    using padd_two [of base off i] Cons.prems(1) c digit_byte [OF d] p by (simp add: k Let_def)
qed

lemma round_512: "unat ((of_nat n + 511 :: u64) AND NOT 511) = (n + 511) div 512 * 512" if "n + 511 < 2 ^ 64"
proof -
  have "(of_nat n + 511 :: u64) = of_nat (n + 511)" by simp
  moreover have "unat (of_nat (n + 511) :: u64) = n + 511" using that by (intro unat_of_nat_small) simp
  ultimately have u: "unat (of_nat n + 511 :: u64) = n + 511" by (simp only:)
  have "(511 :: u64) = mask 9" by (simp add: mask_eq_exp_minus_1)
  then have "unat ((of_nat n + 511 :: u64) AND NOT 511) = unat ((of_nat n + 511 :: u64) AND NOT (mask 9))" by simp
  also have "\<dots> = (n + 511) div 512 * 512" by (simp only: unat_and_not_mask u) simp
  finally show ?thesis .
qed

lemma tar_entry_spec:
  assumes "tar_archive m base off ((name, data) # fs)" "unat base + tar_next off data + 512 < 2 ^ 64"
  shows "tar_entry m base (of_nat off) s =
    Inr (push_file (from_utf8_lossy name) data s, of_nat (tar_next off data))"
proof -
  let ?n = "length data"
  note a = assms(1) [simplified]
  have room: "unat base + off + 1024 + (?n + 511) div 512 * 512 < 2 ^ 64"
    using assms(2) by (simp add: tar_next_def)
  then have off: "unat base + off + 1024 < 2 ^ 64" by linarith
  have nm: "m (base + of_nat (off + i)) = name ! i" if "i < length name" for i
    using a that nth_read_slice [of i "length name" m "base + of_nat off"] by (simp add: add.assoc)
  have n8: "?n < 8 ^ 11" using a by simp
  have fld: "m (base + of_nat (off + 124 + i)) = octal_field ?n ! i" if "i < 12" for i
    using a that nth_read_slice [of i 12 m "base + of_nat (off + 124)"] by (simp add: add.assoc)
  have name: "tar_name m base (of_nat off) [] = Inr name"
    using tar_name_spec [of base off name m 0] off a nm by simp
  have "octal_loop m base (of_nat (off + 124)) 0 12 (of_nat 0) =
      Inr (of_nat (foldl (\<lambda>a d. a * 8 + d) 0 (oct_digits 11 ?n)))"
  proof (rule octal_loop_spec)
    fix j assume "j < length (oct_digits 11 ?n)"
    then show "m (base + of_nat (off + 124 + 0 + j)) = 48 + of_nat (oct_digits 11 ?n ! j)"
      using fld [of j] by (simp add: octal_field_def nth_append)
  next
    show "m (base + of_nat (off + 124 + 0 + length (oct_digits 11 ?n))) = 0"
      using fld [of 11] by (simp add: octal_field_def nth_append)
  qed (use off in \<open>auto dest: oct_digits_bound\<close>)
  then have oct: "parse_octal m base (of_nat (off + 124)) 12 = Inr (of_nat ?n)"
    by (simp add: parse_octal_def oct_digits_value [OF n8])
  have un: "unat (of_nat ?n :: u64) = ?n" using n8 by (intro unat_of_nat_small) simp
  have o124: "padd (of_nat off) 124 = Inr (of_nat (off + 124) :: u64)"
    using padd_nat [of "of_nat off" 124] off by (simp add: unat_of_nat_small)
  have dp: "padd base (of_nat off) = Inr (base + of_nat off)"
    "padd (base + of_nat off) 512 = Inr (base + of_nat (off + 512))"
    using padd_two [of base off 512] off by simp_all
  have data: "read_slice m (base + of_nat (off + 512)) ?n = data" using a by simp
  let ?r = "(of_nat ?n + 511 :: u64) AND NOT 511"
  have r: "unat ?r = (?n + 511) div 512 * 512" using round_512 [of ?n] n8 by simp
  have s1: "padd (of_nat ?n) 511 = Inr (of_nat ?n + 511 :: u64)" using n8 un by (simp add: padd_def)
  have s2: "padd 512 ?r = Inr (512 + ?r)" "unat (512 + ?r) = 512 + (?n + 511) div 512 * 512"
    using room unat_add_small [of 512 ?r] unfolding padd_def r by (simp_all add: r)
  have "unat (of_nat off :: u64) = off" using off by (intro unat_of_nat_small) simp
  then have s3: "padd (of_nat off) (512 + ?r) = Inr (of_nat off + (512 + ?r))"
    unfolding padd_def s2(2) using room by simp
  have "512 + ?r = of_nat (512 + (?n + 511) div 512 * 512)"
    unfolding word_unat_eq_iff s2(2) using room by (subst unat_of_nat_small) simp_all
  then have nxt: "of_nat off + (512 + ?r) = of_nat (tar_next off data)"
    by (simp add: tar_next_def)
  show ?thesis
    unfolding tar_entry_def name rbind_simps o124 oct dp un data s1 s2(1) s3 nxt Let_def ..
qed

definition push_all :: "(u8 list \<times> u8 list) list \<Rightarrow> ramfs \<Rightarrow> ramfs" where
  "push_all files = fold (\<lambda>(name, data). push_file (from_utf8_lossy name) data) files"

lemma ramfs_init_loop_spec:
  assumes "tar_archive m base off files" "unat base + tar_end off files + 512 < 2 ^ 64"
  shows "ramfs_init_loop m base (of_nat off) s = Inr (push_all files s)"
  using assms
proof (induction files arbitrary: off s)
  case Nil
  then show ?case
    using padd_nat [of base off] by (subst ramfs_init_loop.simps) (simp add: push_all_def)
next
  case (Cons f files)
  obtain name data where f: "f = (name, data)" by (cases f)
  have "tar_next off data \<le> tar_end (tar_next off data) files" by (rule tar_end_mono)
  then have room: "unat base + tar_next off data + 512 < 2 ^ 64" using Cons.prems(2) by (simp add: f)
  note e = tar_entry_spec [OF Cons.prems(1) [unfolded f] room]
  have p: "padd base (of_nat off) = Inr (base + of_nat off)"
    using room by (intro padd_nat) (simp add: tar_next_def)
  have "read_slice m (base + of_nat off) (length name) = name" "name \<noteq> []" "0 \<notin> set name"
    using Cons.prems(1) by (simp_all add: f)
  then have nz: "m (base + of_nat off) \<noteq> 0"
    using nth_read_slice [of 0 "length name" m "base + of_nat off"] nth_mem [of 0 name] by auto
  have "ramfs_init_loop m base (of_nat (tar_next off data)) (push_file (from_utf8_lossy name) data s) =
      Inr (push_all files (push_file (from_utf8_lossy name) data s))"
    using Cons.prems by (intro Cons.IH) (simp_all add: f)
  then show ?case using e p nz by (subst ramfs_init_loop.simps) (simp add: f push_all_def)
qed

lemma push_all_view:
  assumes "fs_ok s" "distinct (map fst files)" "\<forall>(name, _) \<in> set files. utf8_valid name \<and> lookup s name = None"
  shows "fs_ok (push_all files s)" "fs_view (push_all files s) = fs_view s ++ map_of files"
    "list_files (push_all files s) = list_files s @ map (\<lambda>(name, data). (name, length data)) files"
proof -
  have "fs_ok (push_all files s) \<and> fs_view (push_all files s) = fs_view s ++ map_of files
    \<and> list_files (push_all files s) = list_files s @ map (\<lambda>(name, data). (name, length data)) files"
    using assms
  proof (induction files arbitrary: s)
    case (Cons f files)
    obtain name data where f: "f = (name, data)" by (cases f)
    let ?s = "push_file name data s"
    have n: "from_utf8_lossy name = name" "lookup s name = None" using Cons.prems(3) by (auto simp: f utf8_valid_def)
    have ok: "fs_ok ?s" using Cons.prems(1) n by (intro fs_ok_push_file)
    have l: "list_files ?s = list_files s @ [(name, length data)]"
      using Cons.prems(1) by (auto simp: list_files_def push_file_def fs_ok_def nth_append)
    have "lookup ?s n' = None" if "(n', d') \<in> set files" for n' d'
      using Cons.prems(2,3) that by (force simp: f lookup_push_file)
    then have ih: "fs_ok (push_all files ?s) \<and> fs_view (push_all files ?s) = fs_view ?s ++ map_of files
      \<and> list_files (push_all files ?s) = list_files ?s @ map (\<lambda>(name, data). (name, length data)) files"
      using Cons.prems ok by (intro Cons.IH) (auto simp: f)
    have "name \<notin> dom (map_of files)" using Cons.prems(2) by (simp add: f dom_map_of_conv_image_fst)
    then have "(fs_view s)(name \<mapsto> data) ++ map_of files = fs_view s ++ (map_of files)(name \<mapsto> data)"
      by (auto simp: map_add_def fun_eq_iff split: option.splits)
    moreover have "push_all (f # files) s = push_all files ?s" using n by (simp add: f push_all_def)
    ultimately show ?case using ih l n fs_view_push_file [OF Cons.prems(1) n(2), of data]
      by (simp add: f) (simp add: fun_eq_iff map_add_def)
  qed (simp add: push_all_def)
  then show "fs_ok (push_all files s)" "fs_view (push_all files s) = fs_view s ++ map_of files"
    "list_files (push_all files s) = list_files s @ map (\<lambda>(name, data). (name, length data)) files" by simp_all
qed

section \<open>Properties\<close>

text \<open>
  C14. Writing into a file: \<^verbatim>\<open>write_at\<close> succeeds exactly when the end of the write stays within
  \<^verbatim>\<open>MAX_FILE_SIZE\<close>. Then reading back at the same offset gives the bytes written, the file is as long as
  needed and no longer, every byte outside the write keeps its value and a gap before it is zero.
  Otherwise the file is unchanged.
\<close>

theorem write_at_read_at:
  "if offset + length src \<le> MAX_FILE_SIZE
   then \<exists>data'. write_at data offset src = (data', Some (offset + length src))
     \<and> length data' = max (length data) (offset + length src)
     \<and> read_at data' offset (replicate (length src) 0) = (src, length src)
     \<and> (\<forall>i < length data'. i < offset \<or> offset + length src \<le> i
          \<longrightarrow> data' ! i = (if i < length data then data ! i else 0))
   else write_at data offset src = (data, None)"
proof (cases "offset + length src \<le> MAX_FILE_SIZE")
  case False
  then show ?thesis by (simp add: write_at_def Let_def MAX_FILE_SIZE_def)
next
  case True
  then obtain data' where w: "write_at data offset src = (data', Some (offset + length src))"
    by (simp add: write_at_def Let_def MAX_FILE_SIZE_def)
  note s = write_at_Some [OF w]
  have "take (length src) (drop offset data') = src"
    using s(3,4) by (intro nth_equalityI) simp_all
  then have "read_at data' offset (replicate (length src) 0) = (src, length src)"
    using s(3) by (simp add: read_at_spec)
  then show ?thesis using True w s(3,4) by simp
qed

theorem write_at_read_at_witness:
  "\<exists>data'. write_at [1, 2] 4 [7, 8] = (data', Some 6) \<and> read_at data' 4 [0, 0] = ([7, 8], 2) \<and> data' ! 3 = 0"
  using write_at_read_at [of 4 "[7, 8]" "[1, 2]"] by (auto simp: MAX_FILE_SIZE_def numeral_2_eq_2)

text \<open>
  C15. The directory implements a map from names to contents: creating a file adds an empty one unless
  the name is taken, writing replaces the contents of an existing one, deleting removes the name, each
  reports exactly whether it did so, and no operation touches another file. A deleted file's inode keeps
  its contents for those who have it open.
\<close>

theorem ramfs_refines_map:
  assumes "fs_ok fs" "utf8_valid name"
  shows "fs_ok (fst (fs_create name fs)) \<and> fs_ok (fst (fs_write name data fs)) \<and> fs_ok (fst (fs_delete name fs))
    \<and> fs_view (fst (fs_create name fs)) = (if fs_view fs name = None then (fs_view fs)(name \<mapsto> []) else fs_view fs)
    \<and> snd (fs_create name fs) = (fs_view fs name = None)
    \<and> fs_view (fst (fs_write name data fs)) =
        (if fs_view fs name = None then fs_view fs else (fs_view fs)(name \<mapsto> data))
    \<and> snd (fs_write name data fs) = (fs_view fs name \<noteq> None)
    \<and> fs_view (fst (fs_delete name fs)) = (fs_view fs)(name := None)
    \<and> snd (fs_delete name fs) = (fs_view fs name \<noteq> None) \<and> inodes (fst (fs_delete name fs)) = inodes fs"
proof -
  have "inodes (fst (fs_delete name fs)) = inodes fs" by (simp add: fs_delete_def split: option.splits)
  with ramfs.refines [OF assms] show ?thesis by simp
qed

theorem ramfs_refines_map_witness:
  "fs_view (fst (fs_create [97] RAMFS_EMPTY)) [97] = Some [] \<and> snd (fs_create [97] RAMFS_EMPTY)"
proof -
  have ok: "fs_ok RAMFS_EMPTY" by (simp add: fs_ok_def RAMFS_EMPTY_def)
  have v: "utf8_valid [97]" by (rule ascii_valid) simp
  have "fs_view RAMFS_EMPTY [97] = None" by (simp add: fs_view_def lookup_def RAMFS_EMPTY_def)
  then show ?thesis using ramfs_refines_map [OF ok v] by simp
qed

text \<open>
  C16. Loading the boot archive: when memory holds a ustar archive of files with distinct, valid
  names, \<^verbatim>\<open>ramfs::init\<close> terminates without a panic, and the directory then lists exactly these files in the
  order of the archive, each with the contents it was archived with.
\<close>

theorem ramfs_init_loads_archive:
  assumes "tar_archive m base 0 files" "unat base + tar_end 0 files + 512 < 2 ^ 64"
    and "distinct (map fst files)" "\<forall>(name, _) \<in> set files. utf8_valid name"
  shows "\<exists>fs. ramfs_init m base RAMFS_EMPTY = Inr fs \<and> fs_ok fs \<and> fs_view fs = map_of files
    \<and> list_files fs = map (\<lambda>(name, data). (name, length data)) files"
proof -
  have ok: "fs_ok RAMFS_EMPTY" by (simp add: fs_ok_def RAMFS_EMPTY_def)
  have e: "lookup RAMFS_EMPTY n = None" for n by (simp add: lookup_def RAMFS_EMPTY_def)
  have v: "fs_view RAMFS_EMPTY = Map.empty" by (simp add: fs_view_def e fun_eq_iff)
  have "ramfs_init m base RAMFS_EMPTY = Inr (push_all files RAMFS_EMPTY)"
    using ramfs_init_loop_spec [OF assms(1,2), of RAMFS_EMPTY] by (simp add: ramfs_init_def)
  moreover have "\<forall>(name, _) \<in> set files. utf8_valid name \<and> lookup RAMFS_EMPTY name = None"
    using assms(4) e by auto
  ultimately show ?thesis
    using push_all_view [OF ok assms(3)] v by (simp add: list_files_def RAMFS_EMPTY_def)
qed

definition sample_archive :: mem where
  "sample_archive = (\<lambda>a. if a = 0x1000 then 97 else if 0x107C \<le> a \<and> a < 0x1086 then 48
     else if a = 0x1086 then 50 else if a = 0x1200 then 104 else if a = 0x1201 then 105 else 0)"

lemma sample_archive_ok: "tar_archive sample_archive 0x1000 0 [([97], [104, 105])]"
proof -
  have "octal_field (Suc (Suc 0)) = [48, 48, 48, 48, 48, 48, 48, 48, 48, 48, 50, 0]"
    by (simp add: octal_field_def oct_digits_eval)
  moreover have "read_slice sample_archive 0x107C 12 = [48, 48, 48, 48, 48, 48, 48, 48, 48, 48, 50, 0]"
    by (simp add: read_slice_eval sample_archive_def)
  ultimately show ?thesis by (simp add: read_slice_eval read_slice_Suc tar_next_def) (simp add: sample_archive_def)
qed

theorem ramfs_init_loads_archive_witness:
  "\<exists>fs. ramfs_init sample_archive 0x1000 RAMFS_EMPTY = Inr fs \<and> fs_view fs [97] = Some [104, 105]"
proof -
  have "utf8_valid [97]" by (rule ascii_valid) simp
  with ramfs_init_loads_archive [OF sample_archive_ok] show ?thesis by (auto simp: tar_next_def)
qed

text \<open>A name that is not UTF-8 is stored with replacement characters but compared as given, so the same
  name can be created again and again and is never found.\<close>

lemma create_invalid_name:
  "\<exists>fs1 fs2. fs_create [0xFF] RAMFS_EMPTY = (fs1, True) \<and> lookup fs1 [0xFF] = None
     \<and> fs_create [0xFF] fs1 = (fs2, True) \<and> length (root fs2) = 2 \<and> \<not> fs_ok fs2"
proof -
  have l: "from_utf8_lossy [0xFF] = [0xEF, 0xBF, 0xBD]"
    by (subst from_utf8_lossy.simps)
      (simp add: utf8_chunk_def second_range_def from_utf8_lossy.simps [of "[]"])
  show ?thesis
    by (simp add: fs_create_def RAMFS_EMPTY_def l push_file_def lookup_def fs_ok_def)
qed

end
