(* ===== verification/Console.thy ===== *)
theory Console
  imports Kernel_Prelude
begin

text \<open>
  The text console (\<^verbatim>\<open>src/console.rs\<close>) and its glyphs (\<^verbatim>\<open>src/font.rs\<close>). The frame buffer is a store of
  32-bit pixels indexed from \<^verbatim>\<open>fb\<close>; an index past its end is the concern of the safety theorem below.
  The font is the file \<^verbatim>\<open>font.psf\<close> built into the kernel, an argument of the operations that draw.
\<close>

section \<open>Font\<close>

definition GLYPH_W :: u32 where "GLYPH_W = 8"
definition GLYPH_H :: u32 where "GLYPH_H = 16"

text \<open>\<^verbatim>\<open>u32::from_le_bytes(data[i..i + 4])\<close>.\<close>

definition le32 :: "u8 list \<Rightarrow> nat \<Rightarrow> u32 res" where
  "le32 data i = (if i + 4 \<le> length data
     then Inr (ucast (data ! i) OR push_bit 8 (ucast (data ! (i + 1)))
       OR push_bit 16 (ucast (data ! (i + 2))) OR push_bit 24 (ucast (data ! (i + 3))))
     else Inl BadIndex)"

definition glyph :: "u8 list \<Rightarrow> u8 \<Rightarrow> u8 list res" where
  "glyph font c =
     rbind (le32 font 8) (\<lambda>header_size. rbind (le32 font 20) (\<lambda>bytes_per_glyph.
     let offset = unat header_size + unat c * unat bytes_per_glyph in
     if offset + unat bytes_per_glyph \<le> length font
     then Inr (take (unat bytes_per_glyph) (drop offset font)) else Inl BadIndex))"

type_synonym fb = "nat \<Rightarrow> u32"

definition put_pixel :: "u32 \<Rightarrow> u32 \<Rightarrow> u32 \<Rightarrow> u32 \<Rightarrow> fb \<Rightarrow> fb res" where
  "put_pixel stride px py v f =
     rbind (pmul py stride) (\<lambda>a. rbind (padd a px) (\<lambda>i. Inr (f(unat i := v))))"

definition cells :: "(nat \<times> nat) list" where
  "cells = List.product [0..<16] [0..<8]"

definition draw_char :: "u8 list \<Rightarrow> u8 \<Rightarrow> u32 \<Rightarrow> u32 \<Rightarrow> u32 \<Rightarrow> u32 \<Rightarrow> fb \<Rightarrow> fb res" where
  "draw_char font c x y fg pitch f =
     rbind (glyph font c) (\<lambda>g.
     rfold (\<lambda>(row, col) f.
       if row < length g then
         if g ! row AND drop_bit col 0x80 \<noteq> 0 then
           rbind (padd x (of_nat col)) (\<lambda>px. rbind (padd y (of_nat row)) (\<lambda>py.
             put_pixel (pitch div 4) px py fg f))
         else Inr f
       else Inl BadIndex) cells f)"

section \<open>Console\<close>

record console =
  pixels :: fb
  pitch :: u32
  width :: u32
  height :: u32
  cx :: u32
  cy :: u32

definition clear :: "console \<Rightarrow> console res" where
  "clear c = rbind (pmul (pitch c div 4) (height c)) (\<lambda>n.
     Inr (c\<lparr>pixels := (\<lambda>i. if i < unat n then 0 else pixels c i), cx := 0, cy := 0\<rparr>))"

definition new_line :: "console \<Rightarrow> console res" where
  "new_line c = rbind (padd (cy c) 1) (\<lambda>y. Inr (c\<lparr>cx := 0, cy := y\<rparr>))"

definition write_byte :: "u8 list \<Rightarrow> u8 \<Rightarrow> console \<Rightarrow> console res" where
  "write_byte font b c =
     (let max_rows = height c div GLYPH_H in
      rbind (if b = 10 then new_line c
        else rbind (pmul (cx c) GLYPH_W) (\<lambda>x. rbind (pmul (cy c) GLYPH_H) (\<lambda>y.
             rbind (draw_char font b x y 0xFFFFFF (pitch c) (pixels c)) (\<lambda>f.
             rbind (padd (cx c) 1) (\<lambda>cx'.
             let c = c\<lparr>pixels := f, cx := cx'\<rparr> in
             rbind (pmul (cx c) GLYPH_W) (\<lambda>x'.
             if x' \<ge> width c then new_line c else Inr c)))))) (\<lambda>c.
      if cy c \<ge> max_rows then clear c else Inr c))"

text \<open>\<^verbatim>\<open>write_str\<close> on the bytes of the string, and \<^verbatim>\<open>write_bytes\<close> of \<^verbatim>\<open>shell.rs\<close>.\<close>

definition write_all :: "u8 list \<Rightarrow> u8 list \<Rightarrow> console \<Rightarrow> console res" where
  "write_all font bs = rfold (write_byte font) bs"

definition backspace :: "console \<Rightarrow> console res" where
  "backspace c =
     (if cx c = 0 \<and> cy c = 0 then Inr c
      else rbind (if cx c > 0 then rbind (psub (cx c) 1) (\<lambda>x. Inr (c\<lparr>cx := x\<rparr>))
        else rbind (psub (cy c) 1) (\<lambda>y. rbind (psub (width c div GLYPH_W) 1) (\<lambda>x.
             Inr (c\<lparr>cy := y, cx := x\<rparr>)))) (\<lambda>c.
      rbind (pmul (cx c) GLYPH_W) (\<lambda>x0. rbind (pmul (cy c) GLYPH_H) (\<lambda>y0.
      rbind (rfold (\<lambda>(row, col) f.
          rbind (padd x0 (of_nat col)) (\<lambda>px. rbind (padd y0 (of_nat row)) (\<lambda>py.
            put_pixel (pitch c div 4) px py 0 f))) cells (pixels c)) (\<lambda>f.
      Inr (c\<lparr>pixels := f\<rparr>))))))"

definition hex_digit :: "u64 \<Rightarrow> u8" where
  "hex_digit nibble = (if nibble < 10 then 48 + ucast nibble else 97 + (ucast nibble - 10))"

definition write_hex :: "u8 list \<Rightarrow> u64 \<Rightarrow> console \<Rightarrow> console res" where
  "write_hex font val = write_all font (map (\<lambda>i. hex_digit (drop_bit (i * 4) val AND 0xF)) (rev [0..<16]))"

text \<open>The digits of \<^verbatim>\<open>buf[..len]\<close>, least significant first; storing a 21st digit is out of range.\<close>

function dec_loop :: "u64 \<Rightarrow> u8 list \<Rightarrow> u8 list res" where
  "dec_loop n buf =
     (if n > 0 then
        if length buf < 20 then dec_loop (n div 10) (buf @ [48 + ucast (n mod 10)]) else Inl BadIndex
      else Inr buf)"
  by auto
termination by (relation "measure (\<lambda>(n, buf). 20 - length buf)") auto

declare dec_loop.simps [simp del]

definition write_dec :: "u8 list \<Rightarrow> u64 \<Rightarrow> console \<Rightarrow> console res" where
  "write_dec font val c =
     (if val = 0 then write_byte font 48 c
      else rbind (dec_loop val []) (\<lambda>buf. write_all font (rev buf) c))"

section \<open>Drawing stays in its cell\<close>

text \<open>The pixels of the glyph cell whose corner is at \<open>x\<close>, \<open>y\<close>.\<close>

definition cell_pixels :: "nat \<Rightarrow> nat \<Rightarrow> nat \<Rightarrow> nat set" where
  "cell_pixels stride x y = {(y + row) * stride + (x + col) | row col. row < 16 \<and> col < 8}"

definition font_ok :: "u8 list \<Rightarrow> bool" where
  "font_ok font \<longleftrightarrow> (case (le32 font 8, le32 font 20) of
     (Inr h, Inr b) \<Rightarrow> 16 \<le> unat b \<and> unat h + 256 * unat b \<le> length font | _ \<Rightarrow> False)"

lemma font_okD:
  assumes "font_ok font"
  shows "\<exists>g. glyph font c = Inr g \<and> 16 \<le> length g"
proof -
  from assms obtain h b where hb: "le32 font 8 = Inr h" "le32 font 20 = Inr b" "16 \<le> unat b"
    "unat h + 256 * unat b \<le> length font"
    by (auto simp: font_ok_def split: sum.splits)
  have "unat c < 256" using unsigned_less [of c, where ?'a = nat] by simp
  then have "(unat c + 1) * unat b \<le> 256 * unat b" by (intro mult_le_mono1) simp
  moreover have "unat c * unat b + unat b = (unat c + 1) * unat b" by simp
  ultimately have "unat h + unat c * unat b + unat b \<le> length font" using hb(4) by linarith
  then show ?thesis using hb by (simp add: glyph_def Let_def)
qed

lemma cells_set: "(row, col) \<in> set cells \<longleftrightarrow> row < 16 \<and> col < 8"
  by (auto simp: cells_def)

lemma padd32_nat: "unat a + k < 2 ^ 32 \<Longrightarrow> padd a (of_nat k) = Inr (a + of_nat k) \<and> unat (a + of_nat k) = unat a + k"
  for a :: u32
  using unat_add_small [of a "of_nat k"] by (simp add: padd_def unat_of_nat_small)

lemma put_pixel_spec:
  assumes "unat py * unat stride + unat px < 2 ^ 32"
  shows "put_pixel stride px py v f = Inr (f(unat py * unat stride + unat px := v))"
proof -
  have m: "unat (py * stride) = unat py * unat stride" using assms unat_mult_small [of py stride] by simp
  have "unat (py * stride + px) = unat py * unat stride + unat px"
    using assms unat_add_small [of "py * stride" px] by (simp add: m)
  then show ?thesis using assms by (simp add: put_pixel_def pmul_def padd_def m)
qed

text \<open>A pixel of a cell inside the frame buffer.\<close>

lemma cell_pixel:
  fixes x y stride :: u32
  assumes "unat x + 8 \<le> unat stride" "unat y + 16 \<le> h" "unat stride * h < 2 ^ 32" "row < 16" "col < 8"
  shows "\<exists>px py. padd x (of_nat col) = Inr px \<and> padd y (of_nat row) = Inr py
    \<and> unat py * unat stride + unat px = (unat y + row) * unat stride + (unat x + col)
    \<and> (unat y + row) * unat stride + (unat x + col) < unat stride * h"
proof -
  have "Suc (unat y + row) * unat stride \<le> h * unat stride" using assms(2,4) by (intro mult_le_mono1) simp
  then have lt: "(unat y + row) * unat stride + (unat x + col) < unat stride * h"
    using assms(1,5) by (simp add: mult.commute)
  have "h \<le> unat stride * h" using assms(1) by simp
  then have "unat y + row < 2 ^ 32" using assms(2-4) by linarith
  moreover have "unat stride < 2 ^ 32" using unsigned_less [of stride, where ?'a = nat] by simp
  then have "unat x + col < 2 ^ 32" using assms(1,5) by linarith
  ultimately show ?thesis using padd32_nat [of x col] padd32_nat [of y row] lt by auto
qed

lemma draw_char_cell:
  assumes "font_ok font" "unat x + 8 \<le> unat (pitch0 div 4)" "unat y + 16 \<le> h"
    "unat (pitch0 div 4) * h < 2 ^ 32"
  shows "\<exists>f'. draw_char font c x y fg pitch0 f = Inr f'
    \<and> (\<forall>i. i \<notin> cell_pixels (unat (pitch0 div 4)) (unat x) (unat y) \<longrightarrow> f' i = f i)"
proof -
  let ?s = "pitch0 div 4"
  obtain g where g: "glyph font c = Inr g" "16 \<le> length g" using font_okD [OF assms(1)] by blast
  let ?P = "\<lambda>f'. \<forall>i. i \<notin> cell_pixels (unat ?s) (unat x) (unat y) \<longrightarrow> f' i = f i"
  show ?thesis unfolding draw_char_def g(1) rbind_simps
  proof (rule rfold_inv)
    show "\<forall>i. i \<notin> cell_pixels (unat ?s) (unat x) (unat y) \<longrightarrow> f i = f i" by simp
    fix rc f1 assume rc: "rc \<in> set cells" and P: "?P f1"
    obtain row col where r1: "rc = (row, col)" by (cases rc)
    with rc have r: "rc = (row, col)" "row < 16" "col < 8" using cells_set by auto
    obtain px py where p: "padd x (of_nat col) = Inr px" "padd y (of_nat row) = Inr py"
      "unat py * unat ?s + unat px = (unat y + row) * unat ?s + (unat x + col)"
      "(unat y + row) * unat ?s + (unat x + col) < unat ?s * h"
      using cell_pixel [OF assms(2,3,4) r(2,3)] by blast
    have pp: "put_pixel ?s px py fg f1 = Inr (f1((unat y + row) * unat ?s + (unat x + col) := fg))"
      using put_pixel_spec [of py ?s px fg f1] p(3,4) assms(4) by simp
    have mem: "(unat y + row) * unat ?s + (unat x + col) \<in> cell_pixels (unat ?s) (unat x) (unat y)"
      using r(2,3) by (auto simp: cell_pixels_def)
    show "\<exists>s'. (case rc of (row, col) \<Rightarrow> \<lambda>f. if row < length g then
         if g ! row AND drop_bit col 0x80 \<noteq> 0 then
           rbind (padd x (of_nat col)) (\<lambda>px. rbind (padd y (of_nat row)) (\<lambda>py. put_pixel ?s px py fg f))
         else Inr f else Inl BadIndex) f1 = Inr s' \<and> ?P s'"
      using r(1,2) g(2) P p(1,2) pp mem by (auto simp del: of_nat_add)
  qed
qed

lemma cell_pixels_bound:
  assumes "x + 8 \<le> stride" "y + 16 \<le> h" "i \<in> cell_pixels stride x y"
  shows "i < stride * h"
proof -
  obtain row col where i: "i = (y + row) * stride + (x + col)" "row < 16" "col < 8"
    using assms(3) by (auto simp: cell_pixels_def)
  have "Suc (y + row) * stride \<le> h * stride" using assms(2) i(2) by (intro mult_le_mono1) simp
  then show ?thesis using i assms(1) by (simp add: mult.commute)
qed

section \<open>Cursor\<close>

definition rows :: "console \<Rightarrow> nat" where "rows c = unat (height c) div 16"
definition cols :: "console \<Rightarrow> nat" where "cols c = unat (width c) div 8"
definition stride :: "console \<Rightarrow> nat" where "stride c = unat (pitch c) div 4"

text \<open>
  A sound frame buffer: whole columns, rows no longer than the pitch, fewer than \<open>2\<^sup>3\<^sup>2\<close> pixels; the
  cursor is on a character cell.
\<close>

definition console_ok :: "console \<Rightarrow> bool" where
  "console_ok c \<longleftrightarrow> unat (width c) = 8 * cols c \<and> 0 < cols c \<and> 0 < rows c \<and> unat (width c) \<le> stride c
     \<and> stride c * unat (height c) < 2 ^ 32 \<and> unat (cx c) < cols c \<and> unat (cy c) < rows c"

text \<open>Same screen; only pixels inside the frame buffer may differ.\<close>

definition same_screen :: "console \<Rightarrow> console \<Rightarrow> bool" where
  "same_screen c c' \<longleftrightarrow> pitch c' = pitch c \<and> width c' = width c \<and> height c' = height c
     \<and> (\<forall>i \<ge> stride c * unat (height c). pixels c' i = pixels c i)"

lemma same_screen_trans: "same_screen a b \<Longrightarrow> same_screen b c \<Longrightarrow> same_screen a c"
  by (simp add: same_screen_def stride_def)

lemma unat_div4: "unat (p div 4) = unat p div 4" for p :: u32
  by (simp add: unat_div)

lemma console_bounds:
  assumes "console_ok c" "k \<le> cols c" "r \<le> rows c"
  shows "k * 8 < 2 ^ 32" "r * 16 < 2 ^ 32" "r * 16 \<le> unat (height c)" "k * 8 \<le> stride c"
proof -
  have "unat (width c) < 2 ^ 32" "unat (height c) < 2 ^ 32"
    using unsigned_less [of "width c", where ?'a = nat] unsigned_less [of "height c", where ?'a = nat] by simp_all
  moreover have "k * 8 \<le> unat (width c)" using assms(1,2) by (simp add: console_ok_def)
  moreover have "r * 16 \<le> unat (height c)" using assms(3) by (simp add: rows_def)
  ultimately show "k * 8 < 2 ^ 32" "r * 16 < 2 ^ 32" "r * 16 \<le> unat (height c)" "k * 8 \<le> stride c"
    using assms(1) by (simp_all add: console_ok_def)
qed

lemma pmul_const:
  fixes a :: u32
  assumes "unat a * unat k < 2 ^ 32"
  shows "pmul a k = Inr (a * k) \<and> unat (a * k) = unat a * unat k"
  using assms unat_mult_small [of a k] by (simp add: pmul_def)

lemma clear_spec:
  assumes "console_ok c0" "same_screen c0 c"
  shows "\<exists>c'. clear c = Inr c' \<and> cx c' = 0 \<and> cy c' = 0 \<and> console_ok c' \<and> same_screen c0 c'
    \<and> (\<forall>i < stride c0 * unat (height c0). pixels c' i = 0)"
proof -
  have d: "pitch c = pitch c0" "width c = width c0" "height c = height c0" using assms(2) by (simp_all add: same_screen_def)
  have "unat (pitch c0 div 4) * unat (height c0) < 2 ^ 32"
    using assms(1) by (simp add: console_ok_def stride_def unat_div4)
  from pmul_const [OF this] show ?thesis
    using assms d by (auto simp: clear_def console_ok_def same_screen_def stride_def unat_div4 rows_def cols_def)
qed

text \<open>Where the cursor goes after one more byte: the end of a line wraps, the end of the screen clears.\<close>

definition advance :: "nat \<Rightarrow> nat \<Rightarrow> u8 \<Rightarrow> nat \<times> nat \<Rightarrow> nat \<times> nat" where
  "advance nc nr b pos = (case pos of (x, y) \<Rightarrow>
     let (x, y) = (if b = 10 then (0, Suc y) else if Suc x = nc then (0, Suc y) else (Suc x, y)) in
     if y = nr then (0, 0) else (x, y))"

definition cursor :: "console \<Rightarrow> nat \<times> nat" where
  "cursor c = (unat (cx c), unat (cy c))"

lemma new_line_spec:
  assumes "unat (cy c) + 1 < 2 ^ 32"
  shows "\<exists>c'. new_line c = Inr c' \<and> cx c' = 0 \<and> unat (cy c') = unat (cy c) + 1 \<and> pitch c' = pitch c
    \<and> width c' = width c \<and> height c' = height c \<and> pixels c' = pixels c"
  using padd32_nat [of "cy c" 1] assms by (auto simp: new_line_def)

lemma draw_at_cursor:
  assumes "console_ok c" "font_ok font"
  shows "\<exists>f. rbind (pmul (cx c) GLYPH_W) (\<lambda>x. rbind (pmul (cy c) GLYPH_H) (\<lambda>y.
      draw_char font b x y fg (pitch c) (pixels c))) = Inr f
    \<and> (\<forall>i \<ge> stride c * unat (height c). f i = pixels c i)"
proof -
  have c: "unat (cx c) < cols c" "unat (cy c) < rows c" using assms(1) by (simp_all add: console_ok_def)
  note k = console_bounds [OF assms(1), of "Suc (unat (cx c))" "Suc (unat (cy c))"]
  have x: "pmul (cx c) GLYPH_W = Inr (cx c * 8)" "unat (cx c * 8) = unat (cx c) * 8"
    and y: "pmul (cy c) GLYPH_H = Inr (cy c * 16)" "unat (cy c * 16) = unat (cy c) * 16"
    using pmul_const [of "cx c" 8] pmul_const [of "cy c" 16] k c by (simp_all add: GLYPH_W_def GLYPH_H_def)
  have d: "unat (pitch c div 4) = stride c" by (simp add: stride_def unat_div4)
  have xs: "unat (cx c * 8) + 8 \<le> unat (pitch c div 4)" using k(4) c x(2) by (simp add: d)
  have ys: "unat (cy c * 16) + 16 \<le> unat (height c)" using k(3) c y(2) by simp
  obtain f where f: "draw_char font b (cx c * 8) (cy c * 16) fg (pitch c) (pixels c) = Inr f"
    "\<forall>i. i \<notin> cell_pixels (stride c) (unat (cx c * 8)) (unat (cy c * 16)) \<longrightarrow> f i = pixels c i"
    using draw_char_cell [OF assms(2) xs ys] assms(1) unfolding d console_ok_def by blast
  have "f i = pixels c i" if "stride c * unat (height c) \<le> i" for i
    using f(2) that cell_pixels_bound [OF xs [unfolded d] ys, of i] by force
  then show ?thesis using f(1) by (simp add: x y)
qed

lemma write_byte_spec:
  assumes ok: "console_ok c" and font: "font_ok font"
  shows "\<exists>c'. write_byte font b c = Inr c' \<and> console_ok c' \<and> same_screen c c'
    \<and> cursor c' = advance (cols c) (rows c) b (cursor c)"
proof -
  have c: "unat (cx c) < cols c" "unat (cy c) < rows c" using ok by (simp_all add: console_ok_def)
  note k = console_bounds [OF ok, of "Suc (unat (cx c))" "Suc (unat (cy c))"]
  have nl: "unat (cy c) + 1 < 2 ^ 32" using k(2) c by simp
  have mr: "unat (height c div GLYPH_H) = rows c" by (simp add: GLYPH_H_def rows_def unat_div)
  let ?p = "if b = 10 then (0, Suc (unat (cy c))) else if Suc (unat (cx c)) = cols c
    then (0, Suc (unat (cy c))) else (Suc (unat (cx c)), unat (cy c))"
  have "\<exists>c1. (if b = 10 then new_line c
        else rbind (pmul (cx c) GLYPH_W) (\<lambda>x. rbind (pmul (cy c) GLYPH_H) (\<lambda>y.
             rbind (draw_char font b x y 0xFFFFFF (pitch c) (pixels c)) (\<lambda>f.
             rbind (padd (cx c) 1) (\<lambda>cx'.
             let c = c\<lparr>pixels := f, cx := cx'\<rparr> in
             rbind (pmul (cx c) GLYPH_W) (\<lambda>x'.
             if x' \<ge> width c then new_line c else Inr c)))))) = Inr c1
      \<and> same_screen c c1 \<and> cursor c1 = ?p"
  proof (cases "b = 10")
    case True
    then show ?thesis using new_line_spec [OF nl] by (auto simp: same_screen_def cursor_def)
  next
    case False
    obtain f where f: "rbind (pmul (cx c) GLYPH_W) (\<lambda>x. rbind (pmul (cy c) GLYPH_H) (\<lambda>y.
        draw_char font b x y 0xFFFFFF (pitch c) (pixels c))) = Inr f"
      "\<forall>i \<ge> stride c * unat (height c). f i = pixels c i"
      using draw_at_cursor [OF ok font] by blast
    have x1: "padd (cx c) 1 = Inr (cx c + 1)" "unat (cx c + 1) = Suc (unat (cx c))"
      using padd32_nat [of "cx c" 1] k(1) c by simp_all
    obtain z where z: "pmul (cx c + 1) GLYPH_W = Inr z" "unat z = Suc (unat (cx c)) * 8"
      using pmul_const [of "cx c + 1" 8] k(1) c x1(2) by (simp add: GLYPH_W_def)
    have ge: "z \<ge> width c \<longleftrightarrow> Suc (unat (cx c)) = cols c"
      unfolding word_le_nat_alt z(2) using ok c by (auto simp: console_ok_def)
    let ?c = "c\<lparr>pixels := f, cx := cx c + 1\<rparr>"
    have body: "rbind (pmul (cx c) GLYPH_W) (\<lambda>x. rbind (pmul (cy c) GLYPH_H) (\<lambda>y.
             rbind (draw_char font b x y 0xFFFFFF (pitch c) (pixels c)) G)) = G f" for G :: "fb \<Rightarrow> console res"
      using arg_cong [OF f(1), of "\<lambda>m. rbind m G"] by (simp add: rbind_assoc)
    have "new_line ?c = Inr (?c\<lparr>cx := 0, cy := cy c + 1\<rparr>)" "unat (cy c + 1) = Suc (unat (cy c))"
      using padd32_nat [of "cy c" 1] nl by (simp_all add: new_line_def)
    then show ?thesis using False f(2) x1 z(1)
      unfolding body by (auto simp: ge same_screen_def cursor_def Let_def)
  qed
  then obtain c1 where c1: "write_byte font b c = (if cy c1 \<ge> height c div GLYPH_H then clear c1 else Inr c1)"
    "same_screen c c1" "cursor c1 = ?p" by (auto simp: write_byte_def Let_def)
  have ge: "cy c1 \<ge> height c div GLYPH_H \<longleftrightarrow> snd ?p = rows c"
    unfolding word_le_nat_alt mr using c1(3) c by (auto simp: cursor_def split: if_splits)
  have adv: "advance (cols c) (rows c) b (cursor c) = (if snd ?p = rows c then (0, 0) else ?p)"
    by (simp add: advance_def cursor_def Let_def)
  show ?thesis
  proof (cases "snd ?p = rows c")
    case True
    obtain c2 where "clear c1 = Inr c2" "cx c2 = 0" "cy c2 = 0" "console_ok c2" "same_screen c c2"
      using clear_spec [OF ok c1(2)] by blast
    with True show ?thesis unfolding c1(1) ge adv by (simp add: cursor_def)
  next
    case False
    have d: "rows c1 = rows c" "cols c1 = cols c" "stride c1 = stride c" "width c1 = width c" "height c1 = height c"
      using c1(2) by (simp_all add: same_screen_def rows_def cols_def stride_def)
    have "unat (cx c1) < cols c" "unat (cy c1) < rows c"
      using c1(3) c False by (auto simp: cursor_def split: if_splits)
    then have "console_ok c1" using ok d by (simp add: console_ok_def)
    with False c1(2,3) show ?thesis unfolding c1(1) ge adv by simp
  qed
qed

lemma write_all_spec:
  assumes "console_ok c" "font_ok font"
  shows "\<exists>c'. write_all font bs c = Inr c' \<and> console_ok c' \<and> same_screen c c'
    \<and> cursor c' = fold (advance (cols c) (rows c)) bs (cursor c)"
  using assms(1)
proof (induction bs arbitrary: c)
  case Nil
  then show ?case by (simp add: write_all_def same_screen_def)
next
  case (Cons b bs)
  from write_byte_spec [OF Cons.prems assms(2), of b] obtain c1 where 1: "write_byte font b c = Inr c1"
    "console_ok c1" "same_screen c c1" "cursor c1 = advance (cols c) (rows c) b (cursor c)" by blast
  have d: "rows c1 = rows c" "cols c1 = cols c" using 1(3) by (simp_all add: same_screen_def rows_def cols_def)
  from Cons.IH [OF 1(2)] obtain c2 where "write_all font bs c1 = Inr c2" "console_ok c2" "same_screen c1 c2"
    "cursor c2 = fold (advance (cols c1) (rows c1)) bs (cursor c1)" by blast
  with 1 show ?case using same_screen_trans by (auto simp: write_all_def d)
qed

definition retreat :: "nat \<Rightarrow> nat \<times> nat \<Rightarrow> nat \<times> nat" where
  "retreat nc pos = (case pos of (x, y) \<Rightarrow>
     if x = 0 \<and> y = 0 then (0, 0) else if x = 0 then (nc - 1, y - 1) else (x - 1, y))"

lemma wipe_cell:
  assumes "console_ok c"
  shows "\<exists>f. rbind (pmul (cx c) GLYPH_W) (\<lambda>x0. rbind (pmul (cy c) GLYPH_H) (\<lambda>y0.
      rfold (\<lambda>(row, col) f. rbind (padd x0 (of_nat col)) (\<lambda>px. rbind (padd y0 (of_nat row)) (\<lambda>py.
            put_pixel (pitch c div 4) px py 0 f))) cells (pixels c))) = Inr f
    \<and> (\<forall>i \<ge> stride c * unat (height c). f i = pixels c i)"
proof -
  have c: "unat (cx c) < cols c" "unat (cy c) < rows c" using assms(1) by (simp_all add: console_ok_def)
  note k = console_bounds [OF assms(1), of "Suc (unat (cx c))" "Suc (unat (cy c))"]
  have x: "pmul (cx c) GLYPH_W = Inr (cx c * 8)" "unat (cx c * 8) = unat (cx c) * 8"
    and y: "pmul (cy c) GLYPH_H = Inr (cy c * 16)" "unat (cy c * 16) = unat (cy c) * 16"
    using pmul_const [of "cx c" 8] pmul_const [of "cy c" 16] k c by (simp_all add: GLYPH_W_def GLYPH_H_def)
  have d: "unat (pitch c div 4) = stride c" by (simp add: stride_def unat_div4)
  have xs: "unat (cx c * 8) + 8 \<le> unat (pitch c div 4)" using k(4) c x(2) by (simp add: d)
  have ys: "unat (cy c * 16) + 16 \<le> unat (height c)" using k(3) c y(2) by simp
  have sz: "unat (pitch c div 4) * unat (height c) < 2 ^ 32" using assms by (simp add: d console_ok_def)
  let ?P = "\<lambda>f. \<forall>i \<ge> stride c * unat (height c). f i = pixels c i"
  have "\<exists>f. rfold (\<lambda>(row, col) f. rbind (padd (cx c * 8) (of_nat col)) (\<lambda>px. rbind (padd (cy c * 16) (of_nat row)) (\<lambda>py.
      put_pixel (pitch c div 4) px py 0 f))) cells (pixels c) = Inr f \<and> ?P f"
  proof (rule rfold_inv)
    fix rc f1 assume rc: "rc \<in> set cells" and P: "?P f1"
    obtain row col where r1: "rc = (row, col)" by (cases rc)
    with rc have r: "row < 16" "col < 8" using cells_set by auto
    obtain px py where p: "padd (cx c * 8) (of_nat col) = Inr px" "padd (cy c * 16) (of_nat row) = Inr py"
      "unat py * unat (pitch c div 4) + unat px < unat (pitch c div 4) * unat (height c)"
      using cell_pixel [OF xs ys sz r] by metis
    have "put_pixel (pitch c div 4) px py 0 f1 = Inr (f1(unat py * unat (pitch c div 4) + unat px := 0))"
      using put_pixel_spec p(3) sz less_trans by blast
    then show "\<exists>s'. (case rc of (row, col) \<Rightarrow> \<lambda>f. rbind (padd (cx c * 8) (of_nat col)) (\<lambda>px.
        rbind (padd (cy c * 16) (of_nat row)) (\<lambda>py. put_pixel (pitch c div 4) px py 0 f))) f1 = Inr s' \<and> ?P s'"
      using p P by (auto simp: r1 d)
  qed simp
  then show ?thesis by (simp add: x y)
qed

lemma backspace_spec:
  assumes ok: "console_ok c"
  shows "\<exists>c'. backspace c = Inr c' \<and> console_ok c' \<and> same_screen c c' \<and> cursor c' = retreat (cols c) (cursor c)"
proof (cases "cx c = 0 \<and> cy c = 0")
  case True
  then show ?thesis using ok by (simp add: backspace_def same_screen_def retreat_def cursor_def)
next
  case False
  have c: "unat (cx c) < cols c" "unat (cy c) < rows c" "0 < cols c" using ok by (simp_all add: console_ok_def)
  have wd: "unat (width c div GLYPH_W) = cols c" by (simp add: GLYPH_W_def cols_def unat_div)
  have "\<exists>c1. (if cx c > 0 then rbind (psub (cx c) 1) (\<lambda>x. Inr (c\<lparr>cx := x\<rparr>))
        else rbind (psub (cy c) 1) (\<lambda>y. rbind (psub (width c div GLYPH_W) 1) (\<lambda>x.
             Inr (c\<lparr>cy := y, cx := x\<rparr>)))) = Inr c1 \<and> pixels c1 = pixels c \<and> pitch c1 = pitch c
      \<and> width c1 = width c \<and> height c1 = height c \<and> cursor c1 = retreat (cols c) (cursor c)"
  proof (cases "cx c > 0")
    case True
    then have "1 \<le> cx c" "unat (cx c) \<noteq> 0" by (auto simp: word_le_nat_alt word_less_nat_alt)
    then show ?thesis using True by (simp add: psub_def cursor_def retreat_def unat_sub)
  next
    case F: False
    then have z: "cx c = 0" by (simp add: word_neq_0_conv [symmetric])
    then have y: "1 \<le> cy c" "unat (cy c) \<noteq> 0" using False by (auto simp: word_le_nat_alt unat_gt_0 Suc_le_eq word_neq_0_conv)
    have w: "1 \<le> width c div GLYPH_W" using wd c(3) by (simp add: word_le_nat_alt)
    show ?thesis using z y w wd by (simp add: psub_def cursor_def retreat_def unat_sub)
  qed
  then obtain c1 where c1: "(if cx c > 0 then rbind (psub (cx c) 1) (\<lambda>x. Inr (c\<lparr>cx := x\<rparr>))
        else rbind (psub (cy c) 1) (\<lambda>y. rbind (psub (width c div GLYPH_W) 1) (\<lambda>x.
             Inr (c\<lparr>cy := y, cx := x\<rparr>)))) = Inr c1" "pixels c1 = pixels c" "pitch c1 = pitch c"
      "width c1 = width c" "height c1 = height c" "cursor c1 = retreat (cols c) (cursor c)" by blast
  have d: "rows c1 = rows c" "cols c1 = cols c" "stride c1 = stride c" using c1 by (simp_all add: rows_def cols_def stride_def)
  have ok1: "console_ok c1" using ok c c1 d by (auto simp: console_ok_def cursor_def retreat_def split: if_splits)
  obtain f where f: "rbind (pmul (cx c1) GLYPH_W) (\<lambda>x0. rbind (pmul (cy c1) GLYPH_H) (\<lambda>y0.
      rfold (\<lambda>(row, col) f. rbind (padd x0 (of_nat col)) (\<lambda>px. rbind (padd y0 (of_nat row)) (\<lambda>py.
            put_pixel (pitch c1 div 4) px py 0 f))) cells (pixels c1))) = Inr f"
    "\<forall>i \<ge> stride c1 * unat (height c1). f i = pixels c1 i" using wipe_cell [OF ok1] by blast
  have "backspace c = Inr (c1\<lparr>pixels := f\<rparr>)"
    unfolding backspace_def if_not_P [OF False] c1(1) rbind_simps
    using arg_cong [OF f(1), of "\<lambda>m. rbind m (\<lambda>f. Inr (c1\<lparr>pixels := f\<rparr>))"]
    by (simp only: rbind_assoc rbind_simps)
  moreover have "console_ok (c1\<lparr>pixels := f\<rparr>)" using ok1 by (simp add: console_ok_def rows_def cols_def stride_def)
  ultimately show ?thesis using c1 f(2) d by (auto simp: same_screen_def cursor_def)
qed

section \<open>Decimal numbers\<close>

fun show_dec :: "nat \<Rightarrow> nat list" where
  "show_dec n = (if n < 10 then [n] else show_dec (n div 10) @ [n mod 10])"

declare show_dec.simps [simp del]

lemma show_dec_value: "foldl (\<lambda>a d. a * 10 + d) 0 (show_dec n) = n"
proof (induction n rule: show_dec.induct)
  case (1 n)
  then show ?case by (subst show_dec.simps) simp
qed

lemma show_dec_length: "n < 10 ^ Suc k \<Longrightarrow> length (show_dec n) \<le> Suc k"
proof (induction k arbitrary: n)
  case 0
  then show ?case by (simp add: show_dec.simps)
next
  case (Suc k)
  then have "n div 10 < 10 ^ Suc k" by (simp add: less_mult_imp_div_less mult.commute)
  then show ?case using Suc.IH [of "n div 10"] by (subst show_dec.simps) simp
qed

definition dec_bytes :: "nat \<Rightarrow> u8 list" where
  "dec_bytes n = map (\<lambda>d. 48 + of_nat d) (show_dec n)"

lemma unat_div10: "unat (n div 10) = unat n div 10" "unat (n mod 10) = unat n mod 10" for n :: u64
  by (simp_all add: unat_div unat_mod)

lemma dec_loop_spec:
  assumes "n > 0" "length buf + length (show_dec (unat n)) \<le> 20"
  shows "dec_loop n buf = Inr (buf @ rev (dec_bytes (unat n)))"
  using assms
proof (induction n buf rule: dec_loop.induct)
  case (1 n buf)
  have "length (show_dec (unat n)) > 0" by (subst show_dec.simps) simp
  then have lt: "length buf < 20" using "1.prems"(2) by linarith
  have dig: "ucast (n mod 10) = (of_nat (unat n mod 10) :: u8)"
    using unat_div10(2) [of n] by (metis of_nat_unat)
  show ?case
  proof (cases "unat n < 10")
    case True
    then have "n div 10 = 0" "show_dec (unat n) = [unat n]"
      using unat_div10(1) [of n] by (simp_all add: word_unat_eq_iff show_dec.simps)
    then show ?thesis using "1.prems"(1) lt dig True
      by (subst dec_loop.simps) (simp add: dec_loop.simps [of 0] dec_bytes_def)
  next
    case False
    then have s: "show_dec (unat n) = show_dec (unat (n div 10)) @ [unat n mod 10]"
      by (subst show_dec.simps) (simp add: unat_div10)
    have "unat (n div 10) > 0" using False by (simp add: unat_div10)
    then have pos: "n div 10 > 0" by (simp add: word_less_nat_alt)
    have "dec_loop (n div 10) (buf @ [48 + ucast (n mod 10)]) =
        Inr ((buf @ [48 + ucast (n mod 10)]) @ rev (dec_bytes (unat (n div 10))))"
      by (rule "1.IH" [OF "1.prems"(1) lt pos]) (use "1.prems"(2) s in simp)
    then show ?thesis using "1.prems"(1) lt s dig by (subst dec_loop.simps) (simp add: dec_bytes_def)
  qed
qed

lemma write_dec_eq: "write_dec font val c = write_all font (dec_bytes (unat val)) c"
proof (cases "val = 0")
  case True
  then show ?thesis by (simp add: write_dec_def write_all_def dec_bytes_def show_dec.simps)
next
  case False
  have "unat val < 18446744073709551616" by (rule unat_lt_64)
  also have "\<dots> < 10 ^ 20" by simp
  finally have "unat val < 10 ^ 20" .
  then have "length (show_dec (unat val)) \<le> 20" using show_dec_length [of "unat val" 19] by simp
  then have "dec_loop val [] = Inr (rev (dec_bytes (unat val)))"
    using dec_loop_spec [of val "[]"] False by (simp add: word_neq_0_conv)
  then show ?thesis using False by (simp add: write_dec_def)
qed

section \<open>Properties\<close>

definition blank_console :: console where
  "blank_console = \<lparr>pixels = (\<lambda>_. 0), pitch = 640, width = 160, height = 64, cx = 0, cy = 0\<rparr>"

lemma blank_console_ok: "console_ok blank_console"
  by (simp add: console_ok_def blank_console_def rows_def cols_def stride_def)

definition blank_font :: "u8 list" where
  "blank_font = [0x72, 0xB5, 0x4A, 0x86, 0, 0, 0, 0, 32, 0, 0, 0, 1, 0, 0, 0, 0, 1, 0, 0, 16, 0, 0, 0,
     16, 0, 0, 0, 8, 0, 0, 0] @ replicate 4096 0"

lemma blank_font_ok: "font_ok blank_font"
  by (simp add: font_ok_def blank_font_def le32_def)



text \<open>
  Backspace undoes a printed character: on a sound frame buffer, after printing a character other
  than a line feed that did not clear the screen, a backspace brings the cursor back to where it
  was, across line ends too; and it never panics nor writes outside the frame buffer.
\<close>

theorem backspace_undoes_write:
  assumes "console_ok c" "font_ok font" "b \<noteq> 10"
    and "\<not> (Suc (unat (cx c)) = cols c \<and> Suc (unat (cy c)) = rows c)"
  shows "\<exists>c1 c2. write_byte font b c = Inr c1 \<and> backspace c1 = Inr c2 \<and> console_ok c2
    \<and> cursor c2 = cursor c \<and> (\<forall>i \<ge> stride c * unat (height c). pixels c2 i = pixels c i)"
proof -
  obtain c1 where 1: "write_byte font b c = Inr c1" "console_ok c1" "same_screen c c1"
    "cursor c1 = advance (cols c) (rows c) b (cursor c)" using write_byte_spec [OF assms(1,2)] by blast
  obtain c2 where 2: "backspace c1 = Inr c2" "console_ok c2" "same_screen c1 c2"
    "cursor c2 = retreat (cols c1) (cursor c1)" using backspace_spec [OF 1(2)] by blast
  have "cols c1 = cols c" using 1(3) by (simp add: same_screen_def cols_def)
  moreover have "unat (cx c) < cols c" "unat (cy c) < rows c" using assms(1) by (simp_all add: console_ok_def)
  ultimately have "cursor c2 = cursor c"
    using 2(4) 1(4) assms(3,4) by (auto simp: cursor_def advance_def retreat_def Let_def split: if_splits)
  then show ?thesis using 1 2 same_screen_trans [OF 1(3) 2(3)] by (auto simp: same_screen_def)
qed

theorem backspace_undoes_write_witness:
  "\<exists>c1 c2. write_byte blank_font 72 blank_console = Inr c1 \<and> backspace c1 = Inr c2
     \<and> cursor c2 = cursor blank_console"
  using backspace_undoes_write [OF blank_console_ok blank_font_ok, of 72]
  by (auto simp: blank_console_def cols_def rows_def)

text \<open>
  \<^verbatim>\<open>write_dec\<close> prints the decimal numeral of every 64-bit value: its buffer of twenty digits is
  always long enough, the bytes printed are decimal digits without a superfluous leading zero, and
  their value is the number.
\<close>

theorem write_dec_prints_numeral:
  "write_dec font val c = write_all font (map (\<lambda>d. 48 + of_nat d) (show_dec (unat val))) c
    \<and> foldl (\<lambda>a d. a * 10 + d) 0 (show_dec (unat val)) = unat val
    \<and> (\<forall>d \<in> set (show_dec (unat val)). d < 10) \<and> (hd (show_dec (unat val)) = 0 \<longrightarrow> val = 0)"
proof -
  have d: "d \<in> set (show_dec n) \<Longrightarrow> d < 10" for d n
    by (induction n rule: show_dec.induct) (subst (asm) show_dec.simps, auto split: if_splits)
  have ne: "show_dec n \<noteq> []" for n by (subst show_dec.simps) simp
  have "hd (show_dec n) = 0 \<Longrightarrow> n = 0" for n
  proof (induction n rule: show_dec.induct)
    case (1 n)
    then show ?case using ne [of "n div 10"] by (subst (asm) (2) show_dec.simps) (auto split: if_splits)
  qed
  then show ?thesis using write_dec_eq [of font val c] d show_dec_value by (auto simp: dec_bytes_def word_unat_eq_iff)
qed

theorem write_dec_prints_numeral_witness:
  "write_dec blank_font 0 blank_console = write_all blank_font [48] blank_console"
  using write_dec_prints_numeral [of blank_font 0 blank_console] by (simp add: show_dec.simps)

end
