(* ===== verification/Kernel_State.thy ===== *)
theory Kernel_State
  imports Scheduler Ramfs Console
begin

text \<open>
  The state that system calls and shell commands share: the static variables of the kernel as one
  record. Also here: access to user memory from the kernel (\<^verbatim>\<open>from_raw_parts\<close> on a user pointer goes
  through the page tables; an unmapped byte is a page fault, which halts the kernel), output to the
  console, the input line of the shell and \<^verbatim>\<open>shell::program_output\<close> (\<^verbatim>\<open>src/shell.rs\<close>), which
  \<^verbatim>\<open>sys_write\<close> calls.
\<close>

section \<open>State\<close>

record kernel =
  kmem :: mem
  kbitmap :: bitmap
  kimg :: kimage
  kpml4 :: u64
  kcr3 :: u64
  kfs :: ramfs
  kst :: sched_state
  knext_pid :: u64
  kconsole :: "console option"
  kfont :: "u8 list"
  kline :: "u8 list"
  klen :: nat
  kready :: bool
  kif :: bool
  kticks :: u64
  kmod_start :: u64
  kmod_end :: u64
  kpm1a :: u16
  kpm1b :: u16
  kslp_a :: u8
  kslp_b :: u8
  kports :: "(u16 \<times> u16) list"  \<comment> \<open>writes to I/O ports, latest first\<close>

definition cur_proc :: "kernel \<Rightarrow> process option" where
  "cur_proc k = processes (sched (kst k)) ! current (sched (kst k))"

definition set_slot :: "nat \<Rightarrow> process option \<Rightarrow> kernel \<Rightarrow> kernel" where
  "set_slot i x k = k\<lparr>kst := (kst k)\<lparr>sched := (sched (kst k))
     \<lparr>processes := (processes (sched (kst k)))[i := x]\<rparr>\<rparr>\<rparr>"

definition set_cur :: "process \<Rightarrow> kernel \<Rightarrow> kernel" where
  "set_cur p k = set_slot (current (sched (kst k))) (Some p) k"

section \<open>User memory\<close>

fun uread :: "mem \<Rightarrow> u64 \<Rightarrow> u64 \<Rightarrow> nat \<Rightarrow> u8 list res" where
  "uread m pml4 a 0 = Inr []"
| "uread m pml4 a (Suc n) = (case translate m pml4 a of
     None \<Rightarrow> Inl PageFault
   | Some pa \<Rightarrow> rbind (uread m pml4 (a + 1) n) (\<lambda>bs. Inr (m pa # bs)))"

fun uwrite :: "u64 \<Rightarrow> u64 \<Rightarrow> u8 list \<Rightarrow> mem \<Rightarrow> mem res" where
  "uwrite pml4 a [] m = Inr m"
| "uwrite pml4 a (b # bs) m = (case translate m pml4 a of
     None \<Rightarrow> Inl PageFault
   | Some pa \<Rightarrow> uwrite pml4 (a + 1) bs (m(pa := b)))"

section \<open>Output\<close>

definition str :: "string \<Rightarrow> u8 list" where
  "str s = map of_char s"

text \<open>\<^verbatim>\<open>console()\<close> unwraps \<^verbatim>\<open>CONSOLE\<close>.\<close>

definition with_console :: "(console \<Rightarrow> console res) \<Rightarrow> kernel \<Rightarrow> kernel res" where
  "with_console f k = rbind (unwrap (kconsole k)) (\<lambda>c. rbind (f c) (\<lambda>c. Inr (k\<lparr>kconsole := Some c\<rparr>)))"

definition print :: "string \<Rightarrow> kernel \<Rightarrow> kernel res" where
  "print s k = with_console (write_all (kfont k) (str s)) k"

definition print_dec :: "u64 \<Rightarrow> kernel \<Rightarrow> kernel res" where
  "print_dec v k = with_console (write_dec (kfont k) v) k"

definition write_bytes_sh :: "u8 list \<Rightarrow> kernel \<Rightarrow> kernel res" where
  "write_bytes_sh bs k = rfold (\<lambda>b k. with_console (write_byte (kfont k) b) k) bs k"

section \<open>The input line\<close>

definition PROMPT :: string where "PROMPT = ''User@Tomorrow> ''"
definition PROMPT_LEN :: nat where "PROMPT_LEN = length PROMPT"
definition BUF_LEN :: nat where "BUF_LEN = 128"

definition prompt :: "kernel \<Rightarrow> kernel res" where
  "prompt k = print PROMPT k"

definition shell_init :: "kernel \<Rightarrow> kernel res" where
  "shell_init k =
     rbind (print (''\<newline>Type '' @ [CHR 0x27] @ ''help'' @ [CHR 0x27] @ '' for a list of commands.\<newline>'')
       (k\<lparr>klen := 0, kready := True\<rparr>)) prompt"

definition typed :: "kernel \<Rightarrow> u8 list res" where
  "typed k = (if klen k \<le> length (kline k) then Inr (take (klen k) (kline k)) else Inl BadIndex)"

definition redraw_line :: "kernel \<Rightarrow> kernel res" where
  "redraw_line k = rbind (print PROMPT k) (\<lambda>k. rbind (typed k) (\<lambda>bs. write_bytes_sh bs k))"

definition program_output :: "u8 list \<Rightarrow> kernel \<Rightarrow> kernel res" where
  "program_output bytes k =
     (if \<not> kready k then write_bytes_sh bytes k
      else let flags = kif k in
        rbind (rfold (\<lambda>_. with_console backspace) [0..<PROMPT_LEN + klen k] (k\<lparr>kif := False\<rparr>)) (\<lambda>k.
        rbind (write_bytes_sh bytes k) (\<lambda>k.
        rbind (redraw_line k) (\<lambda>k. Inr (k\<lparr>kif := flags\<rparr>)))))"

section \<open>Output changes only the console\<close>

text \<open>Everything but the console (and the interrupt flag inside a critical section) is as before.\<close>

definition same_but_console :: "kernel \<Rightarrow> kernel \<Rightarrow> bool" where
  "same_but_console k k' \<longleftrightarrow> (\<exists>c. k' = k\<lparr>kconsole := c\<rparr>)"

lemma same_but_console_refl [simp]: "same_but_console k k"
  unfolding same_but_console_def by (intro exI [of _ "kconsole k"]) simp

lemma same_but_console_trans: "same_but_console a b \<Longrightarrow> same_but_console b c \<Longrightarrow> same_but_console a c"
  by (auto simp: same_but_console_def)

definition screen_ok :: "kernel \<Rightarrow> bool" where
  "screen_ok k \<longleftrightarrow> font_ok (kfont k) \<and> (case kconsole k of Some c \<Rightarrow> console_ok c | None \<Rightarrow> False)"

text \<open>An output step: it never panics on a sound screen and touches nothing else.\<close>

definition outputs :: "(kernel \<Rightarrow> kernel res) \<Rightarrow> bool" where
  "outputs f \<longleftrightarrow> (\<forall>k. screen_ok k \<longrightarrow> (\<exists>k'. f k = Inr k' \<and> screen_ok k' \<and> same_but_console k k'))"

lemma outputsD: "outputs f \<Longrightarrow> screen_ok k \<Longrightarrow> \<exists>k'. f k = Inr k' \<and> screen_ok k' \<and> same_but_console k k'"
  by (simp add: outputs_def)

named_theorems output_intros \<open>steps that only write to the console\<close>

lemma outputs_with_console:
  assumes "\<And>font c. font_ok font \<Longrightarrow> console_ok c \<Longrightarrow> \<exists>c'. f font c = Inr c' \<and> console_ok c'"
  shows "outputs (\<lambda>k. with_console (f (kfont k)) k)"
  unfolding outputs_def
proof (intro allI impI)
  fix k assume "screen_ok k"
  then obtain c where c: "kconsole k = Some c" "console_ok c" "font_ok (kfont k)"
    by (auto simp: screen_ok_def split: option.splits)
  from assms [OF c(3,2)] obtain c' where "f (kfont k) c = Inr c'" "console_ok c'" by blast
  then show "\<exists>k'. with_console (f (kfont k)) k = Inr k' \<and> screen_ok k' \<and> same_but_console k k'"
    using c by (auto simp: with_console_def screen_ok_def same_but_console_def)
qed

lemma outputs_print [output_intros]: "outputs (print s)"
  unfolding print_def using write_all_spec by (intro outputs_with_console) blast

lemma outputs_print_dec [output_intros]: "outputs (print_dec v)"
  unfolding print_dec_def write_dec_eq [abs_def] using write_all_spec by (intro outputs_with_console) blast

lemma outputs_byte [output_intros]: "outputs (\<lambda>k. with_console (write_byte (kfont k) b) k)"
  using write_byte_spec by (intro outputs_with_console) blast

lemma outputs_backspace [output_intros]: "outputs (with_console backspace)"
  using outputs_with_console [of "\<lambda>_. backspace"] backspace_spec by blast

lemma outputs_clear [output_intros]: "outputs (with_console clear)"
proof -
  have "\<exists>c'. clear c = Inr c' \<and> console_ok c'" if "console_ok c" for c
    using clear_spec [OF that, of c] by (auto simp: same_screen_def)
  then show ?thesis using outputs_with_console [of "\<lambda>_. clear"] by blast
qed

lemma outputs_Inr [output_intros]: "outputs Inr"
  by (simp add: outputs_def)

lemma outputs_rbind [output_intros]:
  assumes "outputs f" "outputs g"
  shows "outputs (\<lambda>k. rbind (f k) g)"
  unfolding outputs_def
proof (intro allI impI)
  fix k assume "screen_ok k"
  then obtain k1 where 1: "f k = Inr k1" "screen_ok k1" "same_but_console k k1" using outputsD [OF assms(1)] by blast
  obtain k2 where 2: "g k1 = Inr k2" "screen_ok k2" "same_but_console k1 k2" using outputsD [OF assms(2) 1(2)] by blast
  show "\<exists>k'. rbind (f k) g = Inr k' \<and> screen_ok k' \<and> same_but_console k k'"
    using 1 2 same_but_console_trans [OF 1(3) 2(3)] by auto
qed

lemma outputs_rfold [output_intros]:
  assumes "\<And>x. outputs (f x)"
  shows "outputs (rfold f xs)"
proof (induction xs)
  case Nil
  then show ?case by (simp add: outputs_Inr)
next
  case (Cons x xs)
  have "rfold f (x # xs) = (\<lambda>k. rbind (f x k) (rfold f xs))" by (rule ext) simp
  then show ?case using outputs_rbind [OF assms Cons] by simp
qed

lemma outputs_write_bytes [output_intros]: "outputs (write_bytes_sh bs)"
  unfolding write_bytes_sh_def by (intro output_intros)

lemma redraw_line_spec:
  assumes "screen_ok k" "klen k \<le> length (kline k)"
  shows "\<exists>k'. redraw_line k = Inr k' \<and> screen_ok k' \<and> same_but_console k k'"
proof -
  obtain k1 where 1: "print PROMPT k = Inr k1" "screen_ok k1" "same_but_console k k1"
    using outputsD [OF outputs_print assms(1)] by blast
  obtain k2 where 2: "write_bytes_sh (take (klen k) (kline k)) k1 = Inr k2" "screen_ok k2" "same_but_console k1 k2"
    using outputsD [OF outputs_write_bytes 1(2)] by blast
  have "typed k1 = Inr (take (klen k) (kline k))"
    using 1(3) assms(2) by (auto simp: typed_def same_but_console_def)
  with 1 2 show ?thesis using same_but_console_trans [OF 1(3) 2(3)] by (auto simp: redraw_line_def)
qed

lemma program_output_spec:
  assumes "screen_ok k" "klen k \<le> length (kline k)"
  shows "\<exists>k'. program_output bytes k = Inr k' \<and> screen_ok k' \<and> same_but_console k k'"
proof (cases "kready k")
  case False
  then show ?thesis using outputsD [OF outputs_write_bytes assms(1)] by (simp add: program_output_def)
next
  case True
  let ?k0 = "k\<lparr>kif := False\<rparr>"
  have s0: "screen_ok ?k0" using assms(1) by (simp add: screen_ok_def)
  have o: "outputs (rfold (\<lambda>_. with_console backspace) [0..<PROMPT_LEN + klen k])"
    by (rule outputs_rfold) (rule outputs_backspace)
  obtain k1 where 1: "rfold (\<lambda>_. with_console backspace) [0..<PROMPT_LEN + klen k] ?k0 = Inr k1" "screen_ok k1"
    "same_but_console ?k0 k1" using outputsD [OF o s0] by blast
  obtain k2 where 2: "write_bytes_sh bytes k1 = Inr k2" "screen_ok k2" "same_but_console k1 k2"
    using outputsD [OF outputs_write_bytes 1(2)] by blast
  have s: "same_but_console ?k0 k2" using same_but_console_trans [OF 1(3) 2(3)] .
  then have "klen k2 \<le> length (kline k2)" using assms(2) by (auto simp: same_but_console_def)
  from redraw_line_spec [OF 2(2) this] obtain k3 where 3: "redraw_line k2 = Inr k3" "screen_ok k3"
    "same_but_console k2 k3" by blast
  have "same_but_console ?k0 k3" using same_but_console_trans [OF s 3(3)] .
  then obtain c where "k3\<lparr>kif := kif k\<rparr> = k\<lparr>kconsole := c\<rparr>" by (auto simp: same_but_console_def)
  moreover have "screen_ok (k3\<lparr>kif := kif k\<rparr>)" using 3(2) by (simp add: screen_ok_def)
  ultimately show ?thesis using True 1(1) 2(1) 3(1) by (auto simp: program_output_def Let_def same_but_console_def)
qed

end
