(* ===== verification/User_Memory.thy ===== *)
theory User_Memory
  imports Kernel_State
begin

text \<open>
  Accesses of the kernel to user memory. A system call writes through a user pointer with the page
  tables of the caller: as long as the frames behind the pointer hold no page table, the translation
  stays the same during the write, nothing outside those frames changes, and reading back gives what
  was written.
\<close>

section \<open>Pages that hold tables\<close>

lemma entry_page_no:
  assumes "paged b" "k < 512" "i < 8"
  shows "page_no (entry_addr b k + of_nat i) = page_no b"
proof -
  obtain q where q: "unat b = 4096 * q" using assms(1) unfolding paged_def by (meson dvdE mod_0_imp_dvd)
  have e: "entry_addr b k + of_nat i = b + of_nat (8 * k + i)" by (simp add: entry_addr_def)
  have "unat (b + of_nat (8 * k + i)) = 4096 * q + (8 * k + i)"
    using aligned_room [of b 4096 "8 * k + i"] assms
    by (subst unat_plus_nat) (simp_all add: paged_def q)
  then show ?thesis unfolding page_no_def e using assms(2,3) q by simp
qed

lemma read64_same_page:
  assumes "paged b" "k < 512" "\<And>x. page_no x = page_no b \<Longrightarrow> m' x = m x"
  shows "read64 m' (entry_addr b k) = read64 m (entry_addr b k)"
proof -
  have "m' (entry_addr b k + of_nat i) = m (entry_addr b k + of_nat i)" if "i < 8" for i
    using assms(3) entry_page_no [OF assms(1,2) that] by blast
  from this [of 0] this [of 1] this [of 2] this [of 3] this [of 4] this [of 5] this [of 6] this [of 7]
  show ?thesis by (simp add: read64_def read32_def read16_def add.assoc)
qed

text \<open>Changes outside the table pages change no walk.\<close>

lemma walk_frame:
  assumes "paged pml4" "\<forall>x. page_no x \<in> table_pages m pml4 \<longrightarrow> m' x = m x"
    and ks: "length ks \<le> 4" "\<forall>k \<in> set ks. k < 512"
  shows "table_at m' pml4 ks = table_at m pml4 ks \<and> same_leaf (xlate m' pml4 ks) (xlate m pml4 ks)"
proof (rule walk_cong)
  fix q k r b assume q: "ks = q @ k # r" "table_at m pml4 q = Some b"
  then have "path q" "k < 512" using ks by (auto simp: path_def)
  then have "page_no b \<in> table_pages m pml4" using table_pagesI q(2) by blast
  then have "read64 m' (entry_addr b k) = read64 m (entry_addr b k)"
    using assms(2) \<open>k < 512\<close> by (intro read64_same_page paged_table_at [OF q(2) assms(1)]) auto
  then show "same_entry (read64 m' (entry_addr b k)) (read64 m (entry_addr b k))" by simp
qed

lemma indices_walk: "length (indices v) = 4" "k \<in> set (indices v) \<Longrightarrow> k < 512"
  by (auto simp: indices_def idx_div)

lemma translate_frame:
  assumes "paged pml4" "\<forall>x. page_no x \<in> table_pages m pml4 \<longrightarrow> m' x = m x"
  shows "translate m' pml4 v = translate m pml4 v"
  using walk_frame [OF assms, of "indices v"] indices_walk by (intro same_leaf_translate) auto

lemma table_pages_frame:
  assumes "paged pml4" "\<forall>x. page_no x \<in> table_pages m pml4 \<longrightarrow> m' x = m x"
  shows "table_pages m' pml4 = table_pages m pml4"
proof -
  have "table_at m' pml4 q = table_at m pml4 q" if "path q" for q
    using walk_frame [OF assms, of q] that by (auto simp: path_def)
  then show ?thesis by (force simp: table_pages_def)
qed

section \<open>Writing through the tables\<close>

lemma uwrite_spec:
  assumes "paged pml4"
    and "\<And>i. i < length bs \<Longrightarrow> translate m pml4 (a + of_nat i) = Some (f i) \<and> page_no (f i) \<notin> table_pages m pml4"
  shows "\<exists>m'. uwrite pml4 a bs m = Inr m' \<and> (\<forall>v. translate m' pml4 v = translate m pml4 v)
    \<and> table_pages m' pml4 = table_pages m pml4
    \<and> (\<forall>x. (\<forall>i<length bs. x \<noteq> f i) \<longrightarrow> m' x = m x)
    \<and> (\<forall>i<length bs. (\<forall>j<length bs. f j = f i \<longrightarrow> j = i) \<longrightarrow> m' (f i) = bs ! i)"
  using assms(2)
proof (induction bs arbitrary: a f m)
  case (Cons b bs)
  let ?m = "m(f 0 := b)" and ?g = "\<lambda>i. f (Suc i)"
  have 0: "translate m pml4 a = Some (f 0)" "page_no (f 0) \<notin> table_pages m pml4" using Cons.prems [of 0] by simp_all
  then have fr: "\<forall>x. page_no x \<in> table_pages m pml4 \<longrightarrow> ?m x = m x" by auto
  have t: "translate ?m pml4 v = translate m pml4 v" for v by (rule translate_frame [OF assms(1) fr])
  have tp: "table_pages ?m pml4 = table_pages m pml4" by (rule table_pages_frame [OF assms(1) fr])
  have "\<exists>m'. uwrite pml4 (a + 1) bs ?m = Inr m' \<and> (\<forall>v. translate m' pml4 v = translate ?m pml4 v)
      \<and> table_pages m' pml4 = table_pages ?m pml4
      \<and> (\<forall>x. (\<forall>i<length bs. x \<noteq> ?g i) \<longrightarrow> m' x = ?m x)
      \<and> (\<forall>i<length bs. (\<forall>j<length bs. ?g j = ?g i \<longrightarrow> j = i) \<longrightarrow> m' (?g i) = bs ! i)"
  proof (rule Cons.IH)
    fix i assume "i < length bs"
    then show "translate ?m pml4 (a + 1 + of_nat i) = Some (?g i) \<and> page_no (?g i) \<notin> table_pages ?m pml4"
      using Cons.prems [of "Suc i"] t tp by (simp add: add.assoc)
  qed
  then obtain m' where m': "uwrite pml4 (a + 1) bs ?m = Inr m'" "\<forall>v. translate m' pml4 v = translate ?m pml4 v"
    "table_pages m' pml4 = table_pages ?m pml4" "\<forall>x. (\<forall>i<length bs. x \<noteq> ?g i) \<longrightarrow> m' x = ?m x"
    "\<forall>i<length bs. (\<forall>j<length bs. ?g j = ?g i \<longrightarrow> j = i) \<longrightarrow> m' (?g i) = bs ! i" by blast
  have "m' (f i) = (b # bs) ! i" if i: "i < Suc (length bs)" and u: "\<forall>j<Suc (length bs). f j = f i \<longrightarrow> j = i" for i
  proof (cases i)
    case 0
    have "f 0 \<noteq> ?g j" if "j < length bs" for j using u [rule_format, of "Suc j"] that 0 by auto
    then show ?thesis using m'(4) 0 by simp
  next
    case (Suc j)
    have "\<forall>l<length bs. ?g l = ?g j \<longrightarrow> l = j" using u Suc by auto
    then show ?thesis using m'(5) Suc i by simp
  qed
  moreover have "m' x = m x" if "\<forall>i<Suc (length bs). x \<noteq> f i" for x
  proof -
    have "x \<noteq> f 0" using that by blast
    moreover have "\<forall>i<length bs. x \<noteq> ?g i" using that by auto
    ultimately show ?thesis using m'(4) by simp
  qed
  ultimately show ?case using m'(1-3) 0(1) t tp by (intro exI [of _ m']) simp
qed simp

lemma uread_eq:
  assumes "\<And>i. i < n \<Longrightarrow> translate m pml4 (a + of_nat i) = Some (f i)"
  shows "uread m pml4 a n = Inr (map (\<lambda>i. m (f i)) [0..<n])"
  using assms
proof (induction n arbitrary: a f)
  case (Suc n)
  have "uread m pml4 (a + 1) n = Inr (map (\<lambda>i. m (f (Suc i))) [0..<n])"
  proof (rule Suc.IH)
    fix i assume "i < n"
    then show "translate m pml4 (a + 1 + of_nat i) = Some (f (Suc i))" using Suc.prems [of "Suc i"] by (simp add: add.assoc)
  qed
  moreover have "map (\<lambda>i. m (f i)) [0..<Suc n] = m (f 0) # map (\<lambda>i. m (f (Suc i))) [0..<n]"
    by (simp only: map_Suc_upt [symmetric] upt_conv_Cons [OF zero_less_Suc] list.map map_map o_def)
  ultimately show ?case using Suc.prems [of 0] by simp
qed simp

end
