(* ===== verification/Syscall.thy ===== *)
theory Syscall
  imports User_Memory
begin

text \<open>
  System calls (\<^verbatim>\<open>src/syscall.rs\<close>): the dispatcher with its two gates, and the handlers. A handler returns
  the value for \<^verbatim>\<open>rax\<close> and the new kernel state; \<open>Halt\<close> is \<^verbatim>\<open>sys_exit\<close>, which never returns to its
  caller, and \<open>Switch\<close> is \<^verbatim>\<open>sys_yield\<close> when it hands the processor to another process (it returns 0 when
  the caller is resumed). The entry code and the model-specific registers that \<^verbatim>\<open>init\<close> writes are
  assembly and outside the model.
\<close>

section \<open>Numbers\<close>

definition SYS_READ :: u64 where "SYS_READ = 0"
definition SYS_WRITE :: u64 where "SYS_WRITE = 1"
definition SYS_OPEN :: u64 where "SYS_OPEN = 2"
definition SYS_CLOSE :: u64 where "SYS_CLOSE = 3"
definition SYS_EXIT :: u64 where "SYS_EXIT = 60"
definition SYS_YIELD :: u64 where "SYS_YIELD = 24"

lemmas sys_numbers = SYS_READ_def SYS_WRITE_def SYS_OPEN_def SYS_CLOSE_def SYS_EXIT_def SYS_YIELD_def

definition O_RDONLY :: u64 where "O_RDONLY = 0"
definition O_WRONLY :: u64 where "O_WRONLY = 1"
definition O_RDWR :: u64 where "O_RDWR = 2"
definition O_ACCMODE :: u64 where "O_ACCMODE = 3"

definition SYSCALL_MASK :: u64 where
  "SYSCALL_MASK = push_bit (unat SYS_READ) 1 OR push_bit (unat SYS_WRITE) 1 OR push_bit (unat SYS_OPEN) 1
     OR push_bit (unat SYS_CLOSE) 1 OR push_bit (unat SYS_YIELD) 1 OR push_bit (unat SYS_EXIT) 1"

definition EPERM :: u64 where "EPERM = 1"
definition ENOENT :: u64 where "ENOENT = 2"
definition ESRCH :: u64 where "ESRCH = 3"
definition EBADF :: u64 where "EBADF = 9"
definition EACCES :: u64 where "EACCES = 13"
definition EFAULT :: u64 where "EFAULT = 14"
definition EINVAL :: u64 where "EINVAL = 22"
definition EMFILE :: u64 where "EMFILE = 24"
definition EFBIG :: u64 where "EFBIG = 27"
definition ENAMETOOLONG :: u64 where "ENAMETOOLONG = 36"
definition ENOSYS :: u64 where "ENOSYS = 38"

lemmas errnos = EPERM_def ENOENT_def ESRCH_def EBADF_def EACCES_def EFAULT_def EINVAL_def EMFILE_def
  EFBIG_def ENAMETOOLONG_def ENOSYS_def

definition MAX_FDS :: nat where "MAX_FDS = 16"
definition FIRST_FILE_FD :: nat where "FIRST_FILE_FD = 3"
definition MAX_PATH :: nat where "MAX_PATH = 100"

definition err :: "u64 \<Rightarrow> u64" where
  "err e = - e"

section \<open>Handlers\<close>

definition syscall_exists :: "u64 \<Rightarrow> bool" where
  "syscall_exists nr \<longleftrightarrow> nr = SYS_READ \<or> nr = SYS_WRITE \<or> nr = SYS_OPEN \<or> nr = SYS_CLOSE
     \<or> nr = SYS_EXIT \<or> nr = SYS_YIELD"

definition syscall_allowed :: "u64 \<Rightarrow> kernel \<Rightarrow> bool" where
  "syscall_allowed nr k = (case cur_proc k of
     Some p \<Rightarrow> if nr < 64 then drop_bit (unat nr) (syscall_mask p) AND 1 \<noteq> 0 else False
   | None \<Rightarrow> False)"

definition user_range_ok :: "process \<Rightarrow> u64 \<Rightarrow> u64 \<Rightarrow> bool" where
  "user_range_ok p ptr len = (case checked_add ptr len of
     None \<Rightarrow> False
   | Some ptr_end \<Rightarrow> \<exists>(start, end') \<in> set (user_regions p). start \<le> ptr \<and> ptr_end \<le> end')"

text \<open>The end of \<^verbatim>\<open>sys_write\<close>: a write through an open file. The bytes are read from user memory only if
  the write fits, as in \<^verbatim>\<open>write_at\<close>.\<close>

definition write_file :: "process \<Rightarrow> nat \<Rightarrow> open_file \<Rightarrow> u64 \<Rightarrow> u64 \<Rightarrow> kernel \<Rightarrow> (u64 \<times> kernel) res" where
  "write_file p fd f buf len k =
     rbind (if of_offset f + unat len \<le> MAX_FILE_SIZE
            then uread (kmem k) (kpml4 k) buf (unat len)
            else Inr (replicate (unat len) 0)) (\<lambda>src.
     case write_at (inodes (kfs k) ! of_inode f) (of_offset f) src of
       (data, None) \<Rightarrow> Inr (err EFBIG, k)
     | (data, Some end') \<Rightarrow>
         Inr (len, set_cur (p\<lparr>fds := (fds p)[fd := Some (f\<lparr>of_offset := end'\<rparr>)]\<rparr>)
           (k\<lparr>kfs := (kfs k)\<lparr>inodes := (inodes (kfs k))[of_inode f := data]\<rparr>\<rparr>)))"

definition sys_write :: "u64 \<Rightarrow> u64 \<Rightarrow> u64 \<Rightarrow> kernel \<Rightarrow> (u64 \<times> kernel) res" where
  "sys_write fd buf len k = (case cur_proc k of
     None \<Rightarrow> Inr (err ESRCH, k)
   | Some p \<Rightarrow>
       if unat fd \<ge> length (fds p) then Inr (err EBADF, k)
       else if \<not> user_range_ok p buf len then Inr (err EFAULT, k)
       else if unat fd = 1 \<or> unat fd = 2 then
         rbind (uread (kmem k) (kpml4 k) buf (unat len)) (\<lambda>src.
         rbind (program_output src k) (\<lambda>k. Inr (len, k)))
       else (case fds p ! unat fd of
         None \<Rightarrow> Inr (err EBADF, k)
       | Some f \<Rightarrow>
           if of_perms f AND PERM_WRITE = 0 then Inr (err EBADF, k)
           else write_file p (unat fd) f buf len k))"

text \<open>The access rights that the two low bits of the flags ask for.\<close>

definition open_need :: "u64 \<Rightarrow> u8 option" where
  "open_need flags = (if flags AND NOT O_ACCMODE \<noteq> 0 then None
     else if flags AND O_ACCMODE = O_RDONLY then Some PERM_READ
     else if flags AND O_ACCMODE = O_WRONLY then Some PERM_WRITE
     else if flags AND O_ACCMODE = O_RDWR then Some (PERM_READ OR PERM_WRITE)
     else None)"

definition granted :: "process \<Rightarrow> u8 list \<Rightarrow> u8" where
  "granted p name = (case find (\<lambda>g. grant_name g = name) (grants p) of
     Some g \<Rightarrow> grant_perms g | None \<Rightarrow> 0)"

text \<open>The end of \<^verbatim>\<open>sys_open\<close>: the first free slot from 3 on, or a new one while there is room.\<close>

definition install_fd :: "process \<Rightarrow> open_file \<Rightarrow> kernel \<Rightarrow> u64 \<times> kernel" where
  "install_fd p file k =
     (case find (\<lambda>j. fds p ! j = None) [FIRST_FILE_FD..<length (fds p)] of
        Some fd \<Rightarrow> (of_nat fd, set_cur (p\<lparr>fds := (fds p)[fd := Some file]\<rparr>) k)
      | None \<Rightarrow>
          if length (fds p) \<ge> MAX_FDS then (err EMFILE, k)
          else (of_nat (length (fds p)), set_cur (p\<lparr>fds := fds p @ [Some file]\<rparr>) k))"

definition open_name :: "process \<Rightarrow> u8 \<Rightarrow> u8 list \<Rightarrow> kernel \<Rightarrow> u64 \<times> kernel" where
  "open_name p need name k =
     (if granted p name AND need \<noteq> need then (err EACCES, k)
      else case lookup (kfs k) name of
        None \<Rightarrow> (err ENOENT, k)
      | Some i \<Rightarrow> install_fd p \<lparr>of_perms = need, of_inode = i, of_offset = 0\<rparr> k)"

definition sys_open :: "u64 \<Rightarrow> u64 \<Rightarrow> u64 \<Rightarrow> kernel \<Rightarrow> (u64 \<times> kernel) res" where
  "sys_open path_ptr path_len flags k = (case cur_proc k of
     None \<Rightarrow> Inr (err ESRCH, k)
   | Some p \<Rightarrow> (case open_need flags of
       None \<Rightarrow> Inr (err EINVAL, k)
     | Some need \<Rightarrow>
         if path_len = 0 then Inr (err EINVAL, k)
         else if unat path_len > MAX_PATH then Inr (err ENAMETOOLONG, k)
         else if \<not> user_range_ok p path_ptr path_len then Inr (err EFAULT, k)
         else rbind (uread (kmem k) (kpml4 k) path_ptr (unat path_len)) (\<lambda>name.
           Inr (open_name p need name k))))"

text \<open>The end of \<^verbatim>\<open>sys_read\<close>: \<^verbatim>\<open>read_at\<close> stores into user memory only the bytes it read.\<close>

definition read_file :: "process \<Rightarrow> nat \<Rightarrow> open_file \<Rightarrow> u64 \<Rightarrow> u64 \<Rightarrow> kernel \<Rightarrow> (u64 \<times> kernel) res" where
  "read_file p fd f buf len k =
     (let (dst, n) = read_at (inodes (kfs k) ! of_inode f) (of_offset f) (replicate (unat len) 0) in
      rbind (uwrite (kpml4 k) buf (take n dst) (kmem k)) (\<lambda>m.
        Inr (of_nat n, set_cur (p\<lparr>fds := (fds p)[fd := Some (f\<lparr>of_offset := of_offset f + n\<rparr>)]\<rparr>)
          (k\<lparr>kmem := m\<rparr>))))"

definition sys_read :: "u64 \<Rightarrow> u64 \<Rightarrow> u64 \<Rightarrow> kernel \<Rightarrow> (u64 \<times> kernel) res" where
  "sys_read fd buf len k = (case cur_proc k of
     None \<Rightarrow> Inr (err ESRCH, k)
   | Some p \<Rightarrow>
       if unat fd \<ge> length (fds p) then Inr (err EBADF, k)
       else if \<not> user_range_ok p buf len then Inr (err EFAULT, k)
       else (case fds p ! unat fd of
         None \<Rightarrow> Inr (err EBADF, k)
       | Some f \<Rightarrow>
           if of_perms f AND PERM_READ = 0 then Inr (err EBADF, k)
           else read_file p (unat fd) f buf len k))"

definition sys_close :: "u64 \<Rightarrow> kernel \<Rightarrow> (u64 \<times> kernel) res" where
  "sys_close fd k = (case cur_proc k of
     None \<Rightarrow> Inr (err ESRCH, k)
   | Some p \<Rightarrow>
       if unat fd \<ge> length (fds p) then Inr (err EBADF, k)
       else if fds p ! unat fd = None then Inr (err EBADF, k)
       else Inr (0, set_cur (p\<lparr>fds := (fds p)[unat fd := None]\<rparr>) k))"

datatype sysret = Ret u64 | Halt | Switch nat nat

definition sys_exit :: "u64 \<Rightarrow> kernel \<Rightarrow> kernel" where
  "sys_exit code k = (case cur_proc k of
     Some p \<Rightarrow> (set_cur (p\<lparr>state := Dead\<rparr>) k)\<lparr>kif := True\<rparr>
   | None \<Rightarrow> k)"

definition sys_yield :: "kernel \<Rightarrow> (sysret \<times> kernel) res" where
  "sys_yield k = rbind (yield_now (kst k)) (\<lambda>(sw, st).
     Inr (case sw of None \<Rightarrow> Ret 0 | Some (old, new) \<Rightarrow> Switch old new, k\<lparr>kst := st\<rparr>))"

definition ret :: "(u64 \<times> kernel) res \<Rightarrow> (sysret \<times> kernel) res" where
  "ret x = rbind x (\<lambda>(v, k). Inr (Ret v, k))"

definition syscall_handler :: "u64 \<Rightarrow> u64 \<Rightarrow> u64 \<Rightarrow> u64 \<Rightarrow> kernel \<Rightarrow> (sysret \<times> kernel) res" where
  "syscall_handler nr arg1 arg2 arg3 k =
     (if \<not> syscall_exists nr then Inr (Ret (err ENOSYS), k)
      else if \<not> syscall_allowed nr k then Inr (Ret (err EPERM), k)
      else if nr = SYS_WRITE then ret (sys_write arg1 arg2 arg3 k)
      else if nr = SYS_READ then ret (sys_read arg1 arg2 arg3 k)
      else if nr = SYS_OPEN then ret (sys_open arg1 arg2 arg3 k)
      else if nr = SYS_CLOSE then ret (sys_close arg1 k)
      else if nr = SYS_EXIT then Inr (Halt, sys_exit arg1 k)
      else if nr = SYS_YIELD then sys_yield k
      else Inr (Ret (err ENOSYS), k))"

section \<open>User pointers\<close>

definition region_bytes :: "process \<Rightarrow> u64 set" where
  "region_bytes p = (\<Union>(s, e) \<in> set (user_regions p). {s ..< e})"

text \<open>
  What the tables give a process: every byte of its regions is mapped, to a frame that holds no page
  table, and no two bytes share a frame address.
\<close>

definition user_space_ok :: "mem \<Rightarrow> u64 \<Rightarrow> process \<Rightarrow> bool" where
  "user_space_ok m pml4 p \<longleftrightarrow> paged pml4 \<and> inj_on (translate m pml4) (region_bytes p)
     \<and> (\<forall>a \<in> region_bytes p. \<exists>pa. translate m pml4 a = Some pa \<and> page_no pa \<notin> table_pages m pml4)"

lemma user_range_okD:
  assumes "user_range_ok p ptr len" "i < unat len"
  shows "ptr + of_nat i \<in> region_bytes p"
proof -
  obtain s e where se: "(s, e) \<in> set (user_regions p)" "s \<le> ptr" "ptr + len \<le> e" "unat ptr + unat len < 2 ^ 64"
    using assms(1) by (auto simp: user_range_ok_def checked_add_def split: if_splits)
  have "unat (ptr + len) = unat ptr + unat len" using se(4) unat_add_small [of ptr len] by simp
  moreover have "unat (ptr + of_nat i) = unat ptr + i" using se(4) assms(2) by (intro unat_plus_nat) simp
  ultimately have "s \<le> ptr + of_nat i" "ptr + of_nat i < e"
    using se(2,3) assms(2) by (simp_all add: word_le_nat_alt word_less_nat_alt)
  then show ?thesis unfolding region_bytes_def using se(1) by (intro UN_I [of "(s, e)"]) auto
qed

text \<open>The frames behind a checked pointer.\<close>

lemma user_frames:
  assumes "user_space_ok m pml4 p" "user_range_ok p ptr len"
  shows "\<exists>f. inj_on f {..<unat len} \<and>
    (\<forall>i<unat len. translate m pml4 (ptr + of_nat i) = Some (f i) \<and> page_no (f i) \<notin> table_pages m pml4)"
proof -
  let ?f = "\<lambda>i. the (translate m pml4 (ptr + of_nat i))"
  have t: "translate m pml4 (ptr + of_nat i) = Some (?f i) \<and> page_no (?f i) \<notin> table_pages m pml4" if "i < unat len" for i
    using user_range_okD [OF assms(2) that] assms(1) by (auto simp: user_space_ok_def)
  have "inj_on ?f {..<unat len}"
  proof (rule inj_onI)
    fix i j assume i: "i \<in> {..<unat len}" "j \<in> {..<unat len}" and "?f i = ?f j"
    then have "translate m pml4 (ptr + of_nat i) = translate m pml4 (ptr + of_nat j)" using t [of i] t [of j] by simp
    then have "ptr + of_nat i = ptr + of_nat j"
      using user_range_okD [OF assms(2)] i assms(1) unfolding user_space_ok_def by (auto dest: inj_onD)
    then have "unat (of_nat i :: u64) = unat (of_nat j :: u64)" by simp
    moreover have "i < 2 ^ 64" "j < 2 ^ 64" using i less_trans [OF _ unat_lt_64 [of len]] by auto
    ultimately show "i = j" by (simp add: unat_of_nat_small)
  qed
  with t show ?thesis by blast
qed

lemma uread_region:
  assumes "user_space_ok m pml4 p" "user_range_ok p ptr len"
  shows "\<exists>bs. uread m pml4 ptr (unat len) = Inr bs \<and> length bs = unat len"
proof -
  obtain f where "\<And>i. i < unat len \<Longrightarrow> translate m pml4 (ptr + of_nat i) = Some (f i)"
    using user_frames [OF assms] by blast
  from uread_eq [OF this] show ?thesis by simp
qed

section \<open>Invariant\<close>

text \<open>
  An open file refers to an inode of the store and has rights that some grant of its process gives.
  The descriptor table has 3 to 16 slots, and the first three hold no file.
\<close>

definition file_ok :: "ramfs \<Rightarrow> process \<Rightarrow> open_file \<Rightarrow> bool" where
  "file_ok fs p f \<longleftrightarrow> of_inode f < length (inodes fs)
     \<and> (\<exists>g \<in> set (grants p). grant_perms g AND of_perms f = of_perms f)"

definition proc_ok :: "ramfs \<Rightarrow> process \<Rightarrow> bool" where
  "proc_ok fs p \<longleftrightarrow> 3 \<le> length (fds p) \<and> length (fds p) \<le> MAX_FDS \<and> (\<forall>i<3. fds p ! i = None)
     \<and> (\<forall>f. Some f \<in> set (fds p) \<longrightarrow> file_ok fs p f)"

text \<open>Every name of the directory refers to an inode.\<close>

definition dir_ok :: "ramfs \<Rightarrow> bool" where
  "dir_ok fs \<longleftrightarrow> (\<forall>e \<in> set (root fs). de_inode e < length (inodes fs))"

lemma lookup_dir_ok: "dir_ok fs \<Longrightarrow> lookup fs name = Some i \<Longrightarrow> i < length (inodes fs)"
  by (auto simp: dir_ok_def lookup_def find_Some_iff)

definition kernel_ok :: "kernel \<Rightarrow> bool" where
  "kernel_ok k \<longleftrightarrow> sched_ok (sched (kst k)) \<and> screen_ok k \<and> length (kline k) = BUF_LEN \<and> klen k \<le> BUF_LEN
     \<and> dir_ok (kfs k)
     \<and> (\<forall>p. Some p \<in> set (processes (sched (kst k))) \<longrightarrow> proc_ok (kfs k) p)"

lemma cur_proc_in:
  assumes "kernel_ok k" "cur_proc k = Some p"
  shows "proc_ok (kfs k) p" "current (sched (kst k)) < length (processes (sched (kst k)))"
proof -
  have "current (sched (kst k)) < length (processes (sched (kst k)))"
    using assms(1) by (simp add: kernel_ok_def sched_ok_def)
  then show "current (sched (kst k)) < length (processes (sched (kst k)))" "proc_ok (kfs k) p"
    using assms nth_mem [of "current (sched (kst k))" "processes (sched (kst k))"]
    by (auto simp: kernel_ok_def cur_proc_def)
qed

lemma set_cur_simps [simp]:
  "kfs (set_cur p k) = kfs k" "kmem (set_cur p k) = kmem k" "kbitmap (set_cur p k) = kbitmap k"
  "kconsole (set_cur p k) = kconsole k" "kline (set_cur p k) = kline k" "klen (set_cur p k) = klen k"
  "kfont (set_cur p k) = kfont k" "current (sched (kst (set_cur p k))) = current (sched (kst k))"
  "count (sched (kst (set_cur p k))) = count (sched (kst k))" "kpml4 (set_cur p k) = kpml4 k"
  "processes (sched (kst (set_cur p k))) = (processes (sched (kst k)))[current (sched (kst k)) := Some p]"
  by (simp_all add: set_cur_def set_slot_def)

text \<open>Replacing the current process, with a file store that has lost no inode.\<close>

lemma kernel_ok_set_cur:
  assumes "kernel_ok k" "cur_proc k = Some p" "proc_ok fs q" "length (inodes (kfs k)) \<le> length (inodes fs)"
    and "k' = set_cur q (k\<lparr>kfs := fs, kmem := m, kif := b\<rparr>)" "dir_ok fs"
  shows "kernel_ok k'"
proof -
  let ?ps = "processes (sched (kst k))" and ?c = "current (sched (kst k))"
  note c = cur_proc_in(2) [OF assms(1,2)]
  have "used (?ps[?c := Some q]) = used ?ps"
    using used_update [OF c, of "Some q"] assms(2) by (simp add: cur_proc_def)
  then have "sched_ok (sched (kst k'))" using assms(1,5) by (simp add: kernel_ok_def sched_ok_def)
  moreover have "proc_ok fs r" if "Some r \<in> set (?ps[?c := Some q])" for r
  proof -
    have "Some r \<in> insert (Some q) (set ?ps)" using that set_update_subset_insert by fastforce
    moreover have "proc_ok fs r" if "proc_ok (kfs k) r"
      using that assms(4) unfolding proc_ok_def file_ok_def by (meson less_le_trans)
    ultimately show ?thesis using assms(1,3) by (auto simp: kernel_ok_def)
  qed
  ultimately show ?thesis using assms(1,5,6) by (simp add: kernel_ok_def screen_ok_def)
qed

lemma kernel_ok_dir: "kernel_ok k \<Longrightarrow> dir_ok (kfs k)"
  by (simp add: kernel_ok_def)

lemma proc_ok_update_file:
  assumes "proc_ok fs p" "fds p ! fd = Some f" "fd < length (fds p)" "of_inode f' = of_inode f" "of_perms f' = of_perms f"
    and "length (inodes fs) \<le> length (inodes fs')"
  shows "proc_ok fs' (p\<lparr>fds := (fds p)[fd := Some f']\<rparr>)"
proof -
  have "file_ok fs p f" using assms(1-3) nth_mem [of fd "fds p"] by (auto simp: proc_ok_def)
  then have f': "file_ok fs' (p\<lparr>fds := (fds p)[fd := Some f']\<rparr>) f'" using assms(4-6) by (auto simp: file_ok_def)
  have fd3: "3 \<le> fd" using assms(1,2) by (cases "fd < 3") (auto simp: proc_ok_def)
  have "file_ok fs' (p\<lparr>fds := (fds p)[fd := Some f']\<rparr>) g" if "Some g \<in> set ((fds p)[fd := Some f'])" for g
  proof -
    have "Some g \<in> insert (Some f') (set (fds p))" using that set_update_subset_insert by fastforce
    then show ?thesis using f' assms(1,6) by (auto simp: proc_ok_def file_ok_def)
  qed
  then show ?thesis using assms(1) fd3 by (auto simp: proc_ok_def)
qed

lemma proc_ok_new_file:
  assumes "proc_ok fs p" "file_ok fs p f"
  shows "3 \<le> fd \<Longrightarrow> proc_ok fs (p\<lparr>fds := (fds p)[fd := Some f]\<rparr>)"
    and "length (fds p) < MAX_FDS \<Longrightarrow> proc_ok fs (p\<lparr>fds := fds p @ [Some f]\<rparr>)"
proof -
  assume fd: "3 \<le> fd"
  have "file_ok fs (p\<lparr>fds := (fds p)[fd := Some f]\<rparr>) g" if "Some g \<in> set ((fds p)[fd := Some f])" for g
  proof -
    have "Some g \<in> insert (Some f) (set (fds p))" using that set_update_subset_insert by fastforce
    then show ?thesis using assms by (auto simp: proc_ok_def file_ok_def)
  qed
  then show "proc_ok fs (p\<lparr>fds := (fds p)[fd := Some f]\<rparr>)" using assms(1) fd by (auto simp: proc_ok_def)
next
  assume "length (fds p) < MAX_FDS"
  then show "proc_ok fs (p\<lparr>fds := fds p @ [Some f]\<rparr>)"
    using assms by (auto simp: proc_ok_def file_ok_def nth_append)
qed

lemma proc_ok_close: "proc_ok fs p \<Longrightarrow> proc_ok fs (p\<lparr>fds := (fds p)[fd := None]\<rparr>)"
proof -
  assume p: "proc_ok fs p"
  have "file_ok fs (p\<lparr>fds := (fds p)[fd := None]\<rparr>) g" if "Some g \<in> set ((fds p)[fd := None])" for g
  proof -
    have "Some g \<in> insert None (set (fds p))" using that set_update_subset_insert by fastforce
    then show ?thesis using p by (auto simp: proc_ok_def file_ok_def)
  qed
  moreover have "(fds p)[fd := None] ! i = None" if "i < 3" for i
    using p that by (cases "i = fd") (auto simp: proc_ok_def)
  ultimately show ?thesis using p by (auto simp: proc_ok_def)
qed

lemma granted_in: "granted p name AND need = need \<Longrightarrow> need \<noteq> 0 \<Longrightarrow> \<exists>g \<in> set (grants p). grant_name g = name \<and> grant_perms g AND need = need"
  by (auto simp: granted_def find_Some_iff split: option.splits)

lemma open_need_nonzero: "open_need flags = Some need \<Longrightarrow> need \<noteq> 0"
  by (auto simp: open_need_def PERM_READ_def PERM_WRITE_def split: if_splits)

section \<open>Handlers keep the invariant\<close>

lemma kernel_ok_output:
  assumes "kernel_ok k" "screen_ok k'" "same_but_console k k'"
  shows "kernel_ok k'"
  using assms by (auto simp: kernel_ok_def same_but_console_def)

lemma write_file_result:
  assumes "write_file p fd f buf len k = Inr (r, k')"
  shows "k' = k \<and> r = err EFBIG \<or>
    (\<exists>src data e. uread (kmem k) (kpml4 k) buf (unat len) = Inr src
      \<and> write_at (inodes (kfs k) ! of_inode f) (of_offset f) src = (data, Some e) \<and> r = len
      \<and> k' = set_cur (p\<lparr>fds := (fds p)[fd := Some (f\<lparr>of_offset := e\<rparr>)]\<rparr>)
           (k\<lparr>kfs := (kfs k)\<lparr>inodes := (inodes (kfs k))[of_inode f := data]\<rparr>\<rparr>))"
proof (cases "of_offset f + unat len \<le> MAX_FILE_SIZE")
  case True
  then obtain src where src: "uread (kmem k) (kpml4 k) buf (unat len) = Inr src"
    using assms by (auto simp: write_file_def res_simps)
  obtain data e where w: "write_at (inodes (kfs k) ! of_inode f) (of_offset f) src = (data, e)" by fastforce
  show ?thesis using assms True src w by (cases e) (simp_all add: write_file_def)
next
  case False
  then have "write_at (inodes (kfs k) ! of_inode f) (of_offset f) (replicate (unat len) 0)
      = (inodes (kfs k) ! of_inode f, None)" by (simp add: write_at_def Let_def)
  with assms False show ?thesis by (simp add: write_file_def)
qed

lemma sys_write_result:
  assumes "sys_write fd buf len k = Inr (r, k')"
  shows "k' = k \<and> r \<in> err ` {ESRCH, EBADF, EFAULT, EFBIG}
    \<or> (\<exists>p src. cur_proc k = Some p \<and> user_range_ok p buf len \<and> unat fd \<in> {1, 2}
        \<and> uread (kmem k) (kpml4 k) buf (unat len) = Inr src \<and> program_output src k = Inr k' \<and> r = len)
    \<or> (\<exists>p f src data e. cur_proc k = Some p \<and> user_range_ok p buf len \<and> unat fd < length (fds p)
        \<and> fds p ! unat fd = Some f \<and> of_perms f AND PERM_WRITE \<noteq> 0
        \<and> uread (kmem k) (kpml4 k) buf (unat len) = Inr src
        \<and> write_at (inodes (kfs k) ! of_inode f) (of_offset f) src = (data, Some e) \<and> r = len
        \<and> k' = set_cur (p\<lparr>fds := (fds p)[unat fd := Some (f\<lparr>of_offset := e\<rparr>)]\<rparr>)
             (k\<lparr>kfs := (kfs k)\<lparr>inodes := (inodes (kfs k))[of_inode f := data]\<rparr>\<rparr>))"
proof (cases "cur_proc k")
  case None
  then show ?thesis using assms by (simp add: sys_write_def)
next
  case p: (Some p)
  consider (bad) "unat fd \<ge> length (fds p)" | (fault) "unat fd < length (fds p)" "\<not> user_range_ok p buf len"
    | (out) "unat fd < length (fds p)" "user_range_ok p buf len" "unat fd \<in> {1, 2}"
    | (nofile) "unat fd < length (fds p)" "user_range_ok p buf len" "unat fd \<notin> {1, 2}" "fds p ! unat fd = None"
    | (opened) f where "unat fd < length (fds p)" "user_range_ok p buf len" "unat fd \<notin> {1, 2}" "fds p ! unat fd = Some f"
    by (metis not_le not_None_eq)
  then show ?thesis
  proof cases
    case out
    with assms p show ?thesis by (auto simp: sys_write_def res_simps)
  next
    case opened
    show ?thesis
    proof (cases "of_perms f AND PERM_WRITE = 0")
      case False
      with assms p opened have "write_file p (unat fd) f buf len k = Inr (r, k')" by (simp add: sys_write_def)
      from write_file_result [OF this] show ?thesis using p opened False by blast
    qed (use assms p opened in \<open>simp add: sys_write_def\<close>)
  qed (use assms p in \<open>simp_all add: sys_write_def\<close>)
qed

lemma sys_write_ok:
  assumes ok: "kernel_ok k" and w: "sys_write fd buf len k = Inr (r, k')"
  shows "kernel_ok k'"
  using sys_write_result [OF w]
proof (elim disjE conjE exE)
  assume "k' = k"
  then show ?thesis using ok by simp
next
  fix p src assume "program_output src k = Inr k'"
  moreover have "screen_ok k" "klen k \<le> length (kline k)" using ok by (simp_all add: kernel_ok_def)
  ultimately show ?thesis using program_output_spec [of k src] kernel_ok_output [OF ok] by auto
next
  fix p f src data e
  assume p: "cur_proc k = Some p" "unat fd < length (fds p)" "fds p ! unat fd = Some f"
    and k': "k' = set_cur (p\<lparr>fds := (fds p)[unat fd := Some (f\<lparr>of_offset := e\<rparr>)]\<rparr>)
             (k\<lparr>kfs := (kfs k)\<lparr>inodes := (inodes (kfs k))[of_inode f := data]\<rparr>\<rparr>)"
  have "proc_ok ((kfs k)\<lparr>inodes := (inodes (kfs k))[of_inode f := data]\<rparr>)
      (p\<lparr>fds := (fds p)[unat fd := Some (f\<lparr>of_offset := e\<rparr>)]\<rparr>)"
    using p by (intro proc_ok_update_file [OF cur_proc_in(1) [OF ok p(1)] p(3,2)]) simp_all
  moreover have "dir_ok ((kfs k)\<lparr>inodes := (inodes (kfs k))[of_inode f := data]\<rparr>)"
    using kernel_ok_dir [OF ok] by (simp add: dir_ok_def)
  ultimately show ?thesis using k'
    by (intro kernel_ok_set_cur [OF ok p(1), where m = "kmem k" and b = "kif k"]) simp_all
qed

lemma install_fd_spec:
  assumes "3 \<le> length (fds p)"
  shows "install_fd p file k = (err EMFILE, k) \<and> MAX_FDS \<le> length (fds p) \<and> (\<forall>j. 3 \<le> j \<and> j < length (fds p) \<longrightarrow> fds p ! j \<noteq> None)
    \<or> (\<exists>fd. install_fd p file k = (of_nat fd, set_cur (p\<lparr>fds := (fds p)[fd := Some file]\<rparr>) k)
        \<and> 3 \<le> fd \<and> fd < length (fds p) \<and> fds p ! fd = None)
    \<or> install_fd p file k = (of_nat (length (fds p)), set_cur (p\<lparr>fds := fds p @ [Some file]\<rparr>) k)
        \<and> length (fds p) < MAX_FDS"
proof (cases "find (\<lambda>j. fds p ! j = None) [3..<length (fds p)]")
  case None
  then have "\<forall>j. 3 \<le> j \<and> j < length (fds p) \<longrightarrow> fds p ! j \<noteq> None" by (auto simp: find_None_iff)
  with None show ?thesis by (simp add: install_fd_def FIRST_FILE_FD_def)
next
  case (Some fd)
  then have "3 \<le> fd" "fd < length (fds p)" "fds p ! fd = None" by (simp_all add: find_upt_Some)
  with Some show ?thesis by (auto simp: install_fd_def FIRST_FILE_FD_def)
qed

lemma sys_open_result:
  assumes "sys_open ptr len flags k = Inr (r, k')"
  shows "k' = k \<and> r \<in> err ` {ESRCH, EINVAL, ENAMETOOLONG, EFAULT, EACCES, ENOENT}
    \<or> (\<exists>p need name i. cur_proc k = Some p \<and> open_need flags = Some need \<and> user_range_ok p ptr len
        \<and> uread (kmem k) (kpml4 k) ptr (unat len) = Inr name \<and> granted p name AND need = need
        \<and> lookup (kfs k) name = Some i
        \<and> (r, k') = install_fd p \<lparr>of_perms = need, of_inode = i, of_offset = 0\<rparr> k)"
proof (cases "cur_proc k")
  case None
  then show ?thesis using assms by (simp add: sys_open_def)
next
  case p: (Some p)
  show ?thesis
  proof (cases "open_need flags")
    case None
    then show ?thesis using assms p by (simp add: sys_open_def)
  next
    case need: (Some need)
    show ?thesis
    proof (cases "len \<noteq> 0 \<and> \<not> unat len > MAX_PATH \<and> user_range_ok p ptr len")
      case False
      then consider "len = 0" | "len \<noteq> 0" "unat len > MAX_PATH"
        | "len \<noteq> 0" "\<not> unat len > MAX_PATH" "\<not> user_range_ok p ptr len" by blast
      then show ?thesis using assms p need by cases (simp_all add: sys_open_def)
    next
      case True
      then obtain name where n: "uread (kmem k) (kpml4 k) ptr (unat len) = Inr name" "(r, k') = open_name p need name k"
        using assms p need by (auto simp: sys_open_def res_simps)
      show ?thesis
      proof (cases "granted p name AND need = need")
        case False
        then show ?thesis using n(2) by (simp add: open_name_def)
      next
        case g: True
        show ?thesis
        proof (cases "lookup (kfs k) name")
          case None
          then show ?thesis using n(2) g by (simp add: open_name_def)
        next
          case (Some i)
          then have "(r, k') = install_fd p \<lparr>of_perms = need, of_inode = i, of_offset = 0\<rparr> k"
            using n(2) g by (simp add: open_name_def)
          then show ?thesis using p need True n(1) g Some by blast
        qed
      qed
    qed
  qed
qed

lemma set_cur_k [simp]: "k\<lparr>kfs := kfs k, kmem := kmem k, kif := kif k\<rparr> = k"
  by simp

lemma kernel_ok_set_cur_same:
  assumes "kernel_ok k" "cur_proc k = Some p" "proc_ok (kfs k) q"
  shows "kernel_ok (set_cur q k)"
  using kernel_ok_set_cur [OF assms order_refl, where m = "kmem k" and b = "kif k"] kernel_ok_dir [OF assms(1)] by simp

lemma sys_open_ok:
  assumes ok: "kernel_ok k" and w: "sys_open ptr len flags k = Inr (r, k')"
  shows "kernel_ok k'"
  using sys_open_result [OF w]
proof (elim disjE conjE exE)
  assume "k' = k"
  then show ?thesis using ok by simp
next
  fix p need name i
  let ?f = "\<lparr>of_perms = need, of_inode = i, of_offset = 0\<rparr>"
  assume p: "cur_proc k = Some p" "open_need flags = Some need" "granted p name AND need = need"
    and i: "lookup (kfs k) name = Some i" and r: "(r, k') = install_fd p ?f k"
  note P = cur_proc_in(1) [OF ok p(1)]
  have "file_ok (kfs k) p ?f"
    using granted_in [OF p(3) open_need_nonzero [OF p(2)]] lookup_dir_ok [OF kernel_ok_dir [OF ok] i] by (auto simp: file_ok_def)
  note new = proc_ok_new_file [OF P this]
  have "3 \<le> length (fds p)" using P by (simp add: proc_ok_def)
  from install_fd_spec [OF this, of ?f k] r show ?thesis
    using ok new kernel_ok_set_cur_same [OF ok p(1)] by auto
qed

lemma sys_close_ok:
  assumes "kernel_ok k" "sys_close fd k = Inr (r, k')"
  shows "kernel_ok k'"
  using assms kernel_ok_set_cur_same [OF assms(1)] proc_ok_close cur_proc_in(1) [OF assms(1)]
  by (auto simp: sys_close_def split: option.splits if_splits)

lemma sys_read_result:
  assumes "sys_read fd buf len k = Inr (r, k')"
  shows "k' = k \<and> r \<in> err ` {ESRCH, EBADF, EFAULT}
    \<or> (\<exists>p f m n. cur_proc k = Some p \<and> user_range_ok p buf len \<and> unat fd < length (fds p)
        \<and> fds p ! unat fd = Some f \<and> of_perms f AND PERM_READ \<noteq> 0
        \<and> n = min (unat len) (length (inodes (kfs k) ! of_inode f) - of_offset f)
        \<and> uwrite (kpml4 k) buf (take n (drop (of_offset f) (inodes (kfs k) ! of_inode f))) (kmem k) = Inr m
        \<and> r = of_nat n
        \<and> k' = set_cur (p\<lparr>fds := (fds p)[unat fd := Some (f\<lparr>of_offset := of_offset f + n\<rparr>)]\<rparr>) (k\<lparr>kmem := m\<rparr>))"
proof (cases "cur_proc k")
  case None
  then show ?thesis using assms by (simp add: sys_read_def)
next
  case p: (Some p)
  show ?thesis
  proof (cases "unat fd < length (fds p) \<and> user_range_ok p buf len \<and>
      (\<exists>f. fds p ! unat fd = Some f \<and> of_perms f AND PERM_READ \<noteq> 0)")
    case False
    then show ?thesis using assms p by (auto simp: sys_read_def split: if_splits option.splits)
  next
    case True
    then obtain f where f: "fds p ! unat fd = Some f" "of_perms f AND PERM_READ \<noteq> 0" by blast
    have r: "read_file p (unat fd) f buf len k = Inr (r, k')" using assms p True f by (simp add: sys_read_def)
    let ?d = "inodes (kfs k) ! of_inode f"
    let ?n = "min (unat len) (length ?d - of_offset f)"
    obtain dst where d: "read_at ?d (of_offset f) (replicate (unat len) 0) = (dst, ?n)"
      "take ?n dst = take ?n (drop (of_offset f) ?d)"
      by (simp add: read_at_spec)
    then show ?thesis using r p True f by (auto simp: read_file_def res_simps)
  qed
qed

lemma sys_read_ok:
  assumes ok: "kernel_ok k" and w: "sys_read fd buf len k = Inr (r, k')"
  shows "kernel_ok k'"
  using sys_read_result [OF w]
proof (elim disjE conjE exE)
  assume "k' = k"
  then show ?thesis using ok by simp
next
  fix p f m n
  assume p: "cur_proc k = Some p" "unat fd < length (fds p)" "fds p ! unat fd = Some f"
    and k': "k' = set_cur (p\<lparr>fds := (fds p)[unat fd := Some (f\<lparr>of_offset := of_offset f + n\<rparr>)]\<rparr>) (k\<lparr>kmem := m\<rparr>)"
  have "proc_ok (kfs k) (p\<lparr>fds := (fds p)[unat fd := Some (f\<lparr>of_offset := of_offset f + n\<rparr>)]\<rparr>)"
    using p by (intro proc_ok_update_file [OF cur_proc_in(1) [OF ok p(1)] p(3,2)]) simp_all
  with k' show ?thesis by (intro kernel_ok_set_cur [OF ok p(1), where fs = "kfs k" and m = m and b = "kif k"])
    (simp_all add: kernel_ok_dir [OF ok])
qed

lemma sys_exit_ok:
  assumes "kernel_ok k"
  shows "kernel_ok (sys_exit code k)"
proof (cases "cur_proc k")
  case (Some p)
  have "proc_ok (kfs k) (p\<lparr>state := Dead\<rparr>)"
    using cur_proc_in(1) [OF assms Some] by (simp add: proc_ok_def file_ok_def)
  moreover have "(set_cur (p\<lparr>state := Dead\<rparr>) k)\<lparr>kif := True\<rparr> =
      set_cur (p\<lparr>state := Dead\<rparr>) (k\<lparr>kfs := kfs k, kmem := kmem k, kif := True\<rparr>)"
    by (simp add: set_cur_def set_slot_def)
  ultimately show ?thesis using Some kernel_ok_set_cur [OF assms Some _ order_refl, where m = "kmem k" and b = True] kernel_ok_dir [OF assms]
    by (simp add: sys_exit_def)
qed (simp add: sys_exit_def assms)

text \<open>\<^verbatim>\<open>yield_now\<close> does not panic when a process is running: both slots are in use.\<close>

lemma sys_yield_spec:
  assumes ok: "kernel_ok k" and p: "cur_proc k = Some p"
  shows "\<exists>r st. sys_yield k = Inr (r, k\<lparr>kst := st\<rparr>) \<and> kernel_ok (k\<lparr>kst := st\<rparr>)
    \<and> processes (sched st) = processes (sched (kst k))"
proof (cases "next_running (sched (kst k))")
  case None
  then show ?thesis using ok by (intro exI [of _ "Ret 0"] exI [of _ "kst k"]) (simp add: sys_yield_def yield_now_def)
next
  case (Some i)
  have s: "sched_ok (sched (kst k))" using ok by (simp add: kernel_ok_def)
  then have "i < 64" "is_running (processes (sched (kst k)) ! i)" using Some next_running_Some [OF s, of i] by auto
  then obtain q where q: "processes (sched (kst k)) ! i = Some q" using is_runningD by blast
  let ?st = "(kst k)\<lparr>sched := (sched (kst k))\<lparr>current := i\<rparr>, rsp0 := kernel_stack q\<rparr>"
  have "sys_yield k = Inr (Switch (current (sched (kst k))) i, k\<lparr>kst := ?st\<rparr>)"
    using Some q p by (simp add: sys_yield_def yield_now_def cur_proc_def)
  moreover have "kernel_ok (k\<lparr>kst := ?st\<rparr>)"
    using ok \<open>i < 64\<close> by (simp add: kernel_ok_def sched_ok_def screen_ok_def)
  ultimately show ?thesis by (intro exI [of _ "Switch (current (sched (kst k))) i"] exI [of _ ?st]) simp
qed

end
