(* ===== verification/Shell.thy ===== *)
theory Shell
  imports Syscall
begin

text \<open>
  The shell (\<^verbatim>\<open>src/shell.rs\<close>): line editing and the commands, run from the keyboard interrupt. A
  command returns (\<open>Done\<close>) or, for \<^verbatim>\<open>shutdown\<close> and \<^verbatim>\<open>reboot\<close>, ends in an endless \<^verbatim>\<open>hlt\<close> (\<open>Stopped\<close>). The
  addresses of the demo programs, which the linker chooses, are a parameter of \<^verbatim>\<open>spawn\<close>.
\<close>

section \<open>Byte slices\<close>

definition is_ascii_digit :: "u8 \<Rightarrow> bool" where
  "is_ascii_digit c \<longleftrightarrow> 48 \<le> c \<and> c \<le> 57"

text \<open>The loop of \<^verbatim>\<open>parse_dec\<close> from a value on.\<close>

fun parse_dec_loop :: "u64 \<Rightarrow> u8 list \<Rightarrow> u64 option" where
  "parse_dec_loop n [] = Some n"
| "parse_dec_loop n (c # rest) =
     (if \<not> is_ascii_digit c then None
      else case checked_mul n 10 of
        None \<Rightarrow> None
      | Some m \<Rightarrow> (case checked_add m (ucast (c - 48)) of
          None \<Rightarrow> None
        | Some n' \<Rightarrow> parse_dec_loop n' rest))"

definition parse_dec :: "u8 list \<Rightarrow> u64 option" where
  "parse_dec s = (if s = [] then None else parse_dec_loop 0 s)"

definition is_blank :: "u8 \<Rightarrow> bool" where
  "is_blank c \<longleftrightarrow> c = 32 \<or> c = 9"

definition trim :: "u8 list \<Rightarrow> u8 list" where
  "trim s = (let s = dropWhile is_blank s in rev (dropWhile is_blank (rev s)))"

definition split_first_word :: "u8 list \<Rightarrow> u8 list \<times> u8 list" where
  "split_first_word s = (case position (\<lambda>c. c = 32) s of
     Some i \<Rightarrow> (take i s, trim (drop (i + 1) s))
   | None \<Rightarrow> (s, []))"

section \<open>Commands\<close>

datatype outcome = Done kernel | Stopped kernel

definition returns :: "kernel res \<Rightarrow> outcome res" where
  "returns x = rbind x (\<lambda>k. Inr (Done k))"

definition cmd_help :: "kernel \<Rightarrow> kernel res" where
  "cmd_help = print (''commands:\<newline>'' @
     ''  help          show this help\<newline>'' @
     ''  clear / cls   clear the screen\<newline>'' @
     ''  echo <text>   print text\<newline>'' @
     ''  ticks         show timer tick count\<newline>'' @
     ''  ps            list processes\<newline>'' @
     ''  spawn <a|b|f|w|x|r> create a new demo process (a, b, f, w, x or r)\<newline>'' @
     ''  kill <pid>    terminate a process by pid\<newline>'' @
     ''  mem           show free physical memory\<newline>'' @
     ''  reboot        restart the machine\<newline>'' @
     ''  shutdown / poweroff      power off via ACPI\<newline>'' @
     ''  module         read mod_start and mod_end \<newline>'' @
     ''  ls             show files\<newline>'' @
     ''  cat <file>     print file contents\<newline>'' @
     ''  write <file> <text> write to file\<newline>'' @
     ''  touch <name file> creates a file\<newline>'' @
     ''  rm <name file>    delete file\<newline>'')"

text \<open>A write to an I/O port.\<close>

definition outp :: "u16 \<Rightarrow> u16 \<Rightarrow> kernel \<Rightarrow> kernel" where
  "outp port v k = k\<lparr>kports := (port, v) # kports k\<rparr>"

definition cmd_shutdown :: "kernel \<Rightarrow> outcome res" where
  "cmd_shutdown k =
     (if kpm1a k = 0
      then returns (print (''ACPI PM1a_CNT unknown '' @ [CHR 0xE2, CHR 0x80, CHR 0x94] @ '' cannot power off\<newline>'') k)
      else rbind (print ''powering off...\<newline>'' k) (\<lambda>k.
        let k = outp (kpm1a k) (push_bit 10 (ucast (kslp_a k)) OR 0x2000) (k\<lparr>kif := False\<rparr>);
            k = (if kpm1b k \<noteq> 0 then outp (kpm1b k) (push_bit 10 (ucast (kslp_b k)) OR 0x2000) k else k) in
        Inr (Stopped k)))"

text \<open>\<^verbatim>\<open>io_delay\<close>; the bounded wait for the 8042 only reads its status port and is left out.\<close>

definition io_delay :: "kernel \<Rightarrow> kernel" where
  "io_delay k = (outp 0x80 0 ^^ 2000) k"

definition cmd_reboot :: "kernel \<Rightarrow> outcome res" where
  "cmd_reboot k = rbind (print ''rebooting...\<newline>'' k) (\<lambda>k.
     let k = outp 0xCF9 0x06 (outp 0xCF9 0x02 (k\<lparr>kif := False\<rparr>));
         k = outp 0x64 0xFE (io_delay k) in
     Inr (Stopped (io_delay k)))"

definition cmd_echo :: "u8 list \<Rightarrow> kernel \<Rightarrow> kernel res" where
  "cmd_echo args k = rbind (write_bytes_sh args k) (print ''\<newline>'')"

definition cmd_ticks :: "kernel \<Rightarrow> kernel res" where
  "cmd_ticks k = rbind (print ''ticks: '' k) (\<lambda>k. rbind (print_dec (kticks k) k) (print ''\<newline>''))"

definition state_name :: "process_state \<Rightarrow> string" where
  "state_name st = (case st of Running \<Rightarrow> ''running'' | Blocked \<Rightarrow> ''blocked'' | Dead \<Rightarrow> ''dead'')"

definition ps_slot :: "process option \<Rightarrow> kernel \<Rightarrow> kernel res" where
  "ps_slot slot k = (case slot of
     None \<Rightarrow> Inr k
   | Some p \<Rightarrow> rbind (print_dec (pid p) k) (\<lambda>k. rbind (print ''    '' k) (\<lambda>k.
       rbind (print (state_name (state p)) k) (print ''\<newline>''))))"

definition cmd_ps :: "kernel \<Rightarrow> kernel res" where
  "cmd_ps k = rbind (print ''PID  STATE\<newline>'' k) (\<lambda>k'.
     rbind (rfold ps_slot (processes (sched (kst k))) k') (\<lambda>k'.
     rbind (print ''total: '' k') (\<lambda>k'.
     rbind (print_dec (of_nat (count (sched (kst k)))) k') (print ''\<newline>''))))"

definition hello_grant :: "u8 \<Rightarrow> grant list" where
  "hello_grant perms = [\<lparr>grant_name = str ''hello.txt'', grant_perms = perms\<rparr>]"

definition spawn_choice :: "(string \<Rightarrow> u64) \<Rightarrow> u8 list \<Rightarrow> (u64 \<times> grant list) option" where
  "spawn_choice prog args =
     (if args = str ''a'' then Some (prog ''process_a'', [])
      else if args = str ''b'' then Some (prog ''process_b'', [])
      else if args = str ''f'' then Some (prog ''process_f'', hello_grant PERM_READ)
      else if args = str ''w'' then Some (prog ''process_w'', hello_grant PERM_WRITE)
      else if args = str ''x'' then Some (prog ''process_x'', hello_grant PERM_READ)
      else if args = str ''r'' then Some (prog ''process_r'', hello_grant PERM_READ)
      else None)"

definition cmd_spawn :: "(string \<Rightarrow> u64) \<Rightarrow> u8 list \<Rightarrow> kernel \<Rightarrow> kernel res" where
  "cmd_spawn prog args k = (case spawn_choice prog args of
     None \<Rightarrow> print ''usage: spawn <a|b|f|w|x|r>\<newline>'' k
   | Some (entry, gs) \<Rightarrow>
       if count (sched (kst k)) \<ge> 64 then print ''scheduler full\<newline>'' k
       else rbind (next_pid (knext_pid k)) (\<lambda>(p, nxt).
         rbind (process_new (kpml4 k) (kcr3 k) p SYSCALL_MASK 0 entry gs (kmem k, kbitmap k)) (\<lambda>(proc, m, bm).
         rbind (add_process proc (sched (kst k))) (\<lambda>s.
         rbind (print ''spawned pid '' (k\<lparr>knext_pid := nxt, kmem := m, kbitmap := bm, kst := (kst k)\<lparr>sched := s\<rparr>\<rparr>)) (\<lambda>k.
         rbind (print_dec p k) (print ''\<newline>''))))))"

definition has_pid :: "u64 \<Rightarrow> process option \<Rightarrow> bool" where
  "has_pid n slot = (case slot of Some p \<Rightarrow> pid p = n | None \<Rightarrow> False)"

definition cmd_kill :: "u8 list \<Rightarrow> kernel \<Rightarrow> kernel res" where
  "cmd_kill args k = (case parse_dec args of
     None \<Rightarrow> print ''usage: kill <pid>\<newline>'' k
   | Some n \<Rightarrow> (case position (has_pid n) (processes (sched (kst k))) of
       None \<Rightarrow> print ''no such pid\<newline>'' k
     | Some i \<Rightarrow> (case processes (sched (kst k)) ! i of
         None \<Rightarrow> Inr k
       | Some p \<Rightarrow>
           if is_dead p then print ''already dead\<newline>'' k
           else let k = set_slot i (Some (p\<lparr>state := Dead\<rparr>)) k in
             rbind (reap (kimg k) (sched (kst k)) (kbitmap k)) (\<lambda>(s, bm).
             rbind (print ''killed pid '' (k\<lparr>kst := (kst k)\<lparr>sched := s\<rparr>, kbitmap := bm\<rparr>)) (\<lambda>k.
             rbind (print_dec n k) (print ''\<newline>''))))))"

definition cmd_mem :: "kernel \<Rightarrow> kernel res" where
  "cmd_mem k = (let free = free_pages (kbitmap k) in
     rbind (print ''free pages: '' k) (\<lambda>k. rbind (print_dec free k) (\<lambda>k. rbind (print '' ('' k) (\<lambda>k.
     rbind (pmul free 4096) (\<lambda>b. rbind (print_dec (b div 1024) k) (print '' KiB)\<newline>''))))))"

definition cmd_ls :: "kernel \<Rightarrow> kernel res" where
  "cmd_ls k = rfold (\<lambda>(name, size) k. rbind (write_bytes_sh name k) (\<lambda>k. rbind (print '' '' k) (\<lambda>k.
     rbind (print_dec (of_nat size) k) (print ''\<newline>'')))) (list_files (kfs k)) k"

definition cmd_cat :: "u8 list \<Rightarrow> kernel \<Rightarrow> kernel res" where
  "cmd_cat args k = (if args = [] then print ''usage: cat <file>\<newline>'' k
     else case lookup (kfs k) args of
       Some i \<Rightarrow> rbind (write_bytes_sh (inodes (kfs k) ! i) k) (print ''\<newline>'')
     | None \<Rightarrow> print ''file not found\<newline>'' k)"

definition cmd_write :: "u8 list \<Rightarrow> kernel \<Rightarrow> kernel res" where
  "cmd_write args k = (if args = [] then print ''usage: write <file> <text>\<newline>'' k
     else let (name, data) = split_first_word args; (fs, ok) = fs_write name data (kfs k) in
       if ok then print ''written to file\<newline>'' (k\<lparr>kfs := fs\<rparr>)
       else print ''file not found\<newline>'' (k\<lparr>kfs := fs\<rparr>))"

definition cmd_create :: "u8 list \<Rightarrow> kernel \<Rightarrow> kernel res" where
  "cmd_create args k = (if args = [] then print ''usage: touch <name file>\<newline>'' k
     else let (name, _) = split_first_word args; (fs, ok) = fs_create name (kfs k) in
       if ok then print ''file created\<newline>'' (k\<lparr>kfs := fs\<rparr>)
       else print ''file not created\<newline>'' (k\<lparr>kfs := fs\<rparr>))"

definition cmd_rm :: "u8 list \<Rightarrow> kernel \<Rightarrow> kernel res" where
  "cmd_rm args k = (if args = [] then print ''usage: rm <name file>\<newline>'' k
     else let (name, _) = split_first_word args; (fs, ok) = fs_delete name (kfs k) in
       if ok then print ''file deleted\<newline>'' (k\<lparr>kfs := fs\<rparr>)
       else print ''the file was not deleted\<newline>'' (k\<lparr>kfs := fs\<rparr>))"

definition mods :: "kernel \<Rightarrow> kernel res" where
  "mods k = rbind (print ''mod_start='' k) (\<lambda>k. rbind (print_dec (kmod_start k) k) (\<lambda>k.
     rbind (print ''\<newline>'' k) (\<lambda>k. rbind (print ''mod_end='' k) (\<lambda>k.
     rbind (print_dec (kmod_end k) k) (print ''\<newline>'')))))"

section \<open>Dispatch\<close>

definition unknown_command :: "u8 list \<Rightarrow> kernel \<Rightarrow> kernel res" where
  "unknown_command cmd k = rbind (print ''unknown command: '' k) (\<lambda>k. rbind (write_bytes_sh cmd k) (print ''\<newline>''))"

definition run_command :: "(string \<Rightarrow> u64) \<Rightarrow> u8 list \<Rightarrow> u8 list \<Rightarrow> kernel \<Rightarrow> outcome res" where
  "run_command prog cmd args k =
     (if cmd = str ''help'' then returns (cmd_help k)
      else if cmd = str ''clear'' \<or> cmd = str ''cls'' then returns (with_console clear k)
      else if cmd = str ''echo'' then returns (cmd_echo args k)
      else if cmd = str ''ticks'' then returns (cmd_ticks k)
      else if cmd = str ''ps'' then returns (cmd_ps k)
      else if cmd = str ''spawn'' then returns (cmd_spawn prog args k)
      else if cmd = str ''kill'' then returns (cmd_kill args k)
      else if cmd = str ''mem'' then returns (cmd_mem k)
      else if cmd = str ''reboot'' then cmd_reboot k
      else if cmd = str ''shutdown'' \<or> cmd = str ''poweroff'' then cmd_shutdown k
      else if cmd = str ''module'' then returns (mods k)
      else if cmd = str ''ls'' then returns (cmd_ls k)
      else if cmd = str ''cat'' then returns (cmd_cat args k)
      else if cmd = str ''write'' then returns (cmd_write args k)
      else if cmd = str ''touch'' then returns (cmd_create args k)
      else if cmd = str ''rm'' then returns (cmd_rm args k)
      else returns (unknown_command cmd k))"

definition execute :: "(string \<Rightarrow> u64) \<Rightarrow> kernel \<Rightarrow> outcome res" where
  "execute prog k = rbind (typed k) (\<lambda>line. let line = trim line in
     if line = [] then Inr (Done k)
     else let (cmd, args) = split_first_word line in run_command prog cmd args k)"

definition on_char :: "(string \<Rightarrow> u64) \<Rightarrow> u8 \<Rightarrow> kernel \<Rightarrow> outcome res" where
  "on_char prog ch k =
     (if \<not> kready k then Inr (Done k)
      else if ch = 10 then
        rbind (with_console (write_byte (kfont k) 10) k) (\<lambda>k.
        rbind (execute prog k) (\<lambda>r. case r of
          Stopped k \<Rightarrow> Inr (Stopped k)
        | Done k \<Rightarrow> returns (prompt (k\<lparr>klen := 0\<rparr>))))
      else if ch = 8 then
        (if klen k > 0 then returns (with_console backspace (k\<lparr>klen := klen k - 1\<rparr>)) else Inr (Done k))
      else if klen k < BUF_LEN then
        (if klen k < length (kline k)
         then let k = k\<lparr>kline := (kline k)[klen k := ch], klen := klen k + 1\<rparr> in
           returns (with_console (write_byte (kfont k) ch) k)
         else Inl BadIndex)
      else Inr (Done k))"

end
