(* ===== verification/Sample_Kernel.thy ===== *)
theory Sample_Kernel
  imports Syscall
begin

text \<open>
  A small concrete kernel on which the properties of system calls and shell commands are evaluated:
  one large page maps the first gigabyte onto itself, one process owns a page of it and may read and
  write the only file, \<^verbatim>\<open>a\<close>, whose contents are \<^verbatim>\<open>hi\<close>.
\<close>

definition sample_mem :: mem where
  "sample_mem x = (if x = 0x1000 then 0x07 else if x = 0x1001 then 0x20 else if x = 0x2000 then 0x87
     else if x = 0x400000 then 97 else if x = 0x400001 then 98 else 0)"

definition sample_user :: process where
  "sample_user = (sample_process 1 Running)\<lparr>syscall_mask := SYSCALL_MASK, user_regions := [(0x400000, 0x401000)],
     grants := [\<lparr>grant_name = [97], grant_perms = PERM_READ OR PERM_WRITE\<rparr>]\<rparr>"

definition sample_kernel :: kernel where
  "sample_kernel = \<lparr>kmem = sample_mem, kbitmap = sample_bitmap, kimg = sample_kimage, kpml4 = 0x1000, kcr3 = 0x1000,
     kfs = \<lparr>inodes = [[104, 105]], root = [\<lparr>de_name = [97], de_inode = 0\<rparr>]\<rparr>,
     kst = \<lparr>sched = \<lparr>processes = Some sample_user # replicate 63 None, current = 0, count = 1\<rparr>, rsp0 = 0\<rparr>,
     knext_pid = 3, kconsole = Some blank_console, kfont = blank_font, kline = replicate BUF_LEN 0, klen = 0,
     kready = True, kif = True, kticks = 0, kmod_start = 0, kmod_end = 0, kpm1a = 0, kpm1b = 0, kslp_a = 0,
     kslp_b = 0, kports = []\<rparr>"

section \<open>Its page tables\<close>

lemma sample_entry_0: "read64 sample_mem 0x1000 = 0x2007" "read64 sample_mem 0x2000 = 0x87"
  by (simp_all add: read64_def sample_mem_def)

lemma sample_entry_other:
  assumes "a = 0x1000 \<or> a = 0x2000" "0 < k" "k < 512"
  shows "read64 sample_mem (entry_addr a k) = 0"
proof -
  have "sample_mem (entry_addr a k + of_nat i) = 0" if "i < 8" for i
  proof -
    have e: "entry_addr a k + of_nat i = a + of_nat (8 * k + i)" by (simp add: entry_addr_def)
    have "unat (a + of_nat (8 * k + i)) = unat a + (8 * k + i)"
      using assms that by (intro unat_plus_nat) auto
    then have "unat (entry_addr a k + of_nat i) = unat a + 8 * k + i" by (simp only: e)
    then have "unat (entry_addr a k + of_nat i) \<notin> {0x1000, 0x1001, 0x2000, 0x400000, 0x400001}"
      using assms that by auto
    then show ?thesis by (auto simp: sample_mem_def)
  qed
  from this [of 0] this [of 1] this [of 2] this [of 3] this [of 4] this [of 5] this [of 6] this [of 7]
  show ?thesis by (simp add: read64_def add.assoc)
qed

lemma sample_views: "present 0x2007" "\<not> huge 0x2007" "entry_to_table 0x2007 = 0x2000" "present 0x87" "huge 0x87" "\<not> present 0"
  by (simp_all add: present_def huge_def entry_to_table_def PAGE_PRESENT_def PS_def)

lemma entry_addr_0 [simp]: "entry_addr a 0 = a"
  by (simp add: entry_addr_def)

lemma sample_tables:
  assumes "path q" "table_at sample_mem 0x1000 q = Some a"
  shows "a = 0x1000 \<or> a = 0x2000"
proof (cases q)
  case (Cons k ks)
  then have k: "k < 512" "\<forall>k \<in> set ks. k < 512" using assms(1) by (auto simp: path_def)
  then have "k = 0" using assms(2) Cons sample_entry_other [of "0x1000" k]
    by (cases "k = 0") (auto simp: Let_def sample_views)
  then have ks: "table_at sample_mem 0x2000 ks = Some a"
    using assms(2) Cons by (simp add: sample_entry_0 sample_views)
  show ?thesis
  proof (cases ks)
    case (Cons j js)
    then have "j < 512" using k by simp
    then show ?thesis using ks Cons sample_entry_other [of "0x2000" j]
      by (cases "j = 0") (auto simp: Let_def sample_views sample_entry_0)
  qed (use ks in simp)
qed (use assms in simp)

lemma sample_table_pages: "table_pages sample_mem 0x1000 \<subseteq> {1, 2}"
  using sample_tables by (fastforce simp: table_pages_def page_no_def)

lemma sample_translate:
  assumes "unat v < 2 ^ 30"
  shows "translate sample_mem 0x1000 v = Some v"
proof -
  have i: "pml4_idx v = 0" "pdpt_idx v = 0" using assms by (simp_all add: idx_div)
  have "xlate sample_mem 0x1000 (indices v) = Some (0x87, 2)"
    by (simp add: indices_def i sample_entry_0 sample_views)
  moreover have "v AND mask 30 = v"
    using assms by (simp only: word_unat_eq_iff unat_and_mask) simp
  moreover have "(0x87 :: u64) AND 0x000FFFFFFFFFF000 = 0" by simp
  ultimately show ?thesis by (simp add: translate_def)
qed

lemma sample_region: "a \<in> region_bytes sample_user \<longleftrightarrow> 0x400000 \<le> unat a \<and> unat a < 0x401000"
  by (simp add: region_bytes_def sample_user_def word_le_nat_alt word_less_nat_alt)

lemma sample_space: "user_space_ok sample_mem 0x1000 sample_user"
proof -
  have t: "translate sample_mem 0x1000 a = Some a" if "a \<in> region_bytes sample_user" for a
    using that by (intro sample_translate) (simp add: sample_region)
  have "page_no a \<notin> table_pages sample_mem 0x1000" if "a \<in> region_bytes sample_user" for a
  proof -
    have "1024 \<le> page_no a" using that div_le_mono [of "0x400000" "unat a" 4096] by (simp add: sample_region page_no_def)
    then show ?thesis using sample_table_pages by auto
  qed
  with t show ?thesis by (auto simp: user_space_ok_def paged_def inj_on_def)
qed

section \<open>Its invariant\<close>

lemma sample_cur [simp]: "cur_proc sample_kernel = Some sample_user"
  by (simp add: cur_proc_def sample_kernel_def)

lemma sample_procs: "Some p \<in> set (processes (sched (kst sample_kernel))) \<longleftrightarrow> p = sample_user"
  by (auto simp: sample_kernel_def)

lemma sample_kernel_ok: "kernel_ok sample_kernel"
proof -
  have "sched_ok (sched (kst sample_kernel))" by (simp add: sched_ok_def sample_kernel_def used_def)
  moreover have "screen_ok sample_kernel"
    by (simp add: screen_ok_def sample_kernel_def blank_font_ok blank_console_ok)
  moreover have "proc_ok (kfs sample_kernel) sample_user"
    by (auto simp: proc_ok_def sample_user_def sample_process_def MAX_FDS_def less_Suc_eq numeral_3_eq_3)
  moreover have "length (kline sample_kernel) = BUF_LEN" "klen sample_kernel \<le> BUF_LEN" "dir_ok (kfs sample_kernel)"
    by (simp_all add: sample_kernel_def dir_ok_def)
  ultimately show ?thesis unfolding kernel_ok_def using sample_procs by simp
qed

end
