(* ===== verification/Syscall_Safety.thy ===== *)
theory Syscall_Safety
  imports Sample_Kernel
begin

text \<open>
  What system calls may do. Whatever a user program passes, the kernel neither panics nor faults and
  its invariant holds afterwards; a file is reached only through a grant, and an open call tells
  nothing about files that were not granted; a write changes one file, a read one buffer.
\<close>

section \<open>Address spaces stay sound\<close>

definition users_ok :: "kernel \<Rightarrow> bool" where
  "users_ok k \<longleftrightarrow> (\<forall>p. Some p \<in> set (processes (sched (kst k))) \<longrightarrow> user_space_ok (kmem k) (kpml4 k) p)"

definition kernel_inv :: "kernel \<Rightarrow> bool" where
  "kernel_inv k \<longleftrightarrow> kernel_ok k \<and> users_ok k"

lemma user_space_ok_cong:
  assumes "user_regions q = user_regions p" "\<forall>v. translate m' pml4 v = translate m pml4 v"
    and "table_pages m' pml4 = table_pages m pml4"
  shows "user_space_ok m' pml4 q \<longleftrightarrow> user_space_ok m pml4 p"
proof -
  have "translate m' pml4 = translate m pml4" using assms(2) by (intro ext) simp
  then show ?thesis using assms(1,3) by (simp add: user_space_ok_def region_bytes_def)
qed

lemma users_ok_set_cur:
  assumes "kernel_ok k" "users_ok k" "cur_proc k = Some p" "user_regions q = user_regions p"
    and "\<forall>v. translate m (kpml4 k) v = translate (kmem k) (kpml4 k) v"
    and "table_pages m (kpml4 k) = table_pages (kmem k) (kpml4 k)"
    and "processes (sched (kst k')) = (processes (sched (kst k)))[current (sched (kst k)) := Some q]"
      "kmem k' = m" "kpml4 k' = kpml4 k"
  shows "users_ok k'"
  unfolding users_ok_def
proof (intro allI impI)
  fix r assume "Some r \<in> set (processes (sched (kst k')))"
  then have "Some r \<in> insert (Some q) (set (processes (sched (kst k))))"
    using assms(7) set_update_subset_insert by fastforce
  moreover have "Some p \<in> set (processes (sched (kst k)))"
    using cur_proc_in(2) [OF assms(1,3)] assms(3) nth_mem unfolding cur_proc_def by metis
  then have "user_space_ok (kmem k) (kpml4 k) p" using assms(2) by (simp add: users_ok_def)
  then have "user_space_ok m (kpml4 k) q" using user_space_ok_cong [OF assms(4-6)] by simp
  moreover have "user_space_ok m (kpml4 k) r" if "user_space_ok (kmem k) (kpml4 k) r"
    using that user_space_ok_cong [OF refl assms(5,6), of r] by simp
  ultimately have "user_space_ok m (kpml4 k) r" using assms(2) by (auto simp: users_ok_def)
  then show "user_space_ok (kmem k') (kpml4 k') r" using assms(8,9) by simp
qed

lemma users_ok_cur: "kernel_inv k \<Longrightarrow> cur_proc k = Some p \<Longrightarrow> user_space_ok (kmem k) (kpml4 k) p"
  using cur_proc_in(2) [of k p] nth_mem unfolding kernel_inv_def users_ok_def cur_proc_def by metis

lemma users_ok_same: "users_ok k \<Longrightarrow> kmem k' = kmem k \<Longrightarrow> kpml4 k' = kpml4 k
  \<Longrightarrow> processes (sched (kst k')) = processes (sched (kst k)) \<Longrightarrow> users_ok k'"
  by (simp add: users_ok_def)

section \<open>No panic and no fault\<close>

text \<open>A call that returns and keeps the invariant, whatever its arguments.\<close>

definition safe :: "('a \<times> kernel) res \<Rightarrow> bool" where
  "safe x \<longleftrightarrow> (\<exists>r k'. x = Inr (r, k') \<and> kernel_inv k')"

lemma safeI: "x = Inr (r, k') \<Longrightarrow> kernel_inv k' \<Longrightarrow> safe x"
  by (auto simp: safe_def)

lemma safe_ret: "safe x \<Longrightarrow> safe (ret x)"
  by (auto simp: safe_def ret_def)

lemma write_file_total:
  assumes "kernel_inv k" "cur_proc k = Some p" "user_range_ok p buf len"
  shows "\<exists>r k'. write_file p fd f buf len k = Inr (r, k')"
proof -
  obtain bs where "uread (kmem k) (kpml4 k) buf (unat len) = Inr bs"
    using uread_region [OF users_ok_cur [OF assms(1,2)] assms(3)] by blast
  then show ?thesis by (auto simp: write_file_def split: prod.split option.split)
qed

lemma sys_write_total:
  assumes inv: "kernel_inv k"
  shows "\<exists>r k'. sys_write fd buf len k = Inr (r, k')"
proof (cases "cur_proc k")
  case p: (Some p)
  show ?thesis
  proof (cases "user_range_ok p buf len")
    case ok: True
    obtain src where src: "uread (kmem k) (kpml4 k) buf (unat len) = Inr src"
      using uread_region [OF users_ok_cur [OF inv p] ok] by blast
    have "screen_ok k" "klen k \<le> length (kline k)" using inv by (simp_all add: kernel_inv_def kernel_ok_def)
    then obtain k1 where "program_output src k = Inr k1" using program_output_spec by blast
    then show ?thesis
      using p ok src write_file_total [OF inv p ok] by (auto simp: sys_write_def split: option.split)
  qed (use p in \<open>simp add: sys_write_def\<close>)
qed (simp add: sys_write_def)

lemma sys_write_safe:
  assumes inv: "kernel_inv k"
  shows "safe (sys_write fd buf len k)"
proof -
  have ok: "kernel_ok k" "users_ok k" using inv by (simp_all add: kernel_inv_def)
  obtain r k' where w: "sys_write fd buf len k = Inr (r, k')" using sys_write_total [OF inv] by blast
  have "users_ok k'"
    using sys_write_result [OF w]
  proof (elim disjE conjE exE)
    fix p src assume "program_output src k = Inr k'"
    then have "same_but_console k k'"
      using program_output_spec [of k src] ok(1) by (auto simp: kernel_ok_def)
    then show ?thesis using users_ok_same [OF ok(2)] by (auto simp: same_but_console_def)
  next
    fix p f src data e
    assume p: "cur_proc k = Some p"
      and k': "k' = set_cur (p\<lparr>fds := (fds p)[unat fd := Some (f\<lparr>of_offset := e\<rparr>)]\<rparr>)
        (k\<lparr>kfs := (kfs k)\<lparr>inodes := (inodes (kfs k))[of_inode f := data]\<rparr>\<rparr>)"
    show ?thesis
      by (rule users_ok_set_cur [OF ok p, where m = "kmem k" and q = "p\<lparr>fds := (fds p)[unat fd := Some (f\<lparr>of_offset := e\<rparr>)]\<rparr>"])
        (simp_all add: k')
  qed (use ok in simp)
  then show ?thesis using w sys_write_ok [OF ok(1) w] by (intro safeI [OF w]) (simp add: kernel_inv_def)
qed

lemma sys_open_safe:
  assumes inv: "kernel_inv k"
  shows "safe (sys_open ptr len flags k)"
proof -
  have ok: "kernel_ok k" "users_ok k" using inv by (simp_all add: kernel_inv_def)
  have "\<exists>r k'. sys_open ptr len flags k = Inr (r, k')"
  proof (cases "cur_proc k")
    case p: (Some p)
    show ?thesis
    proof (cases "user_range_ok p ptr len")
      case True
      then obtain src where "uread (kmem k) (kpml4 k) ptr (unat len) = Inr src"
        using uread_region [OF users_ok_cur [OF inv p]] by blast
      then show ?thesis using p by (auto simp: sys_open_def split: option.split)
    qed (use p in \<open>auto simp: sys_open_def split: option.split\<close>)
  qed (simp add: sys_open_def)
  then obtain r k' where w: "sys_open ptr len flags k = Inr (r, k')" by blast
  have "users_ok k'"
    using sys_open_result [OF w]
  proof (elim disjE conjE exE)
    fix p need name i
    let ?f = "\<lparr>of_perms = need, of_inode = i, of_offset = 0\<rparr>"
    assume p: "cur_proc k = Some p" and r: "(r, k') = install_fd p ?f k"
    have "3 \<le> length (fds p)" using cur_proc_in(1) [OF ok(1) p] by (simp add: proc_ok_def)
    from install_fd_spec [OF this, of ?f k] r obtain q where
      "k' = k \<or> k' = set_cur q k \<and> user_regions q = user_regions p" by fastforce
    then show ?thesis
      using ok(2) users_ok_set_cur [OF ok p, where m = "kmem k" and k' = k' and q = q] by auto
  qed (use ok in simp)
  then show ?thesis using w sys_open_ok [OF ok(1) w] by (intro safeI [OF w]) (simp add: kernel_inv_def)
qed

text \<open>A read through a checked pointer: the frames of the buffer receive the bytes of the file.\<close>

lemma sys_read_success:
  assumes inv: "kernel_inv k"
    and p: "cur_proc k = Some p" "unat fd < length (fds p)" "user_range_ok p buf len"
      "fds p ! unat fd = Some f" "of_perms f AND PERM_READ \<noteq> 0"
    and n: "n = min (unat len) (length (inodes (kfs k) ! of_inode f) - of_offset f)"
  shows "\<exists>fr m. sys_read fd buf len k = Inr (of_nat n,
       set_cur (p\<lparr>fds := (fds p)[unat fd := Some (f\<lparr>of_offset := of_offset f + n\<rparr>)]\<rparr>) (k\<lparr>kmem := m\<rparr>))
    \<and> (\<forall>i<unat len. translate (kmem k) (kpml4 k) (buf + of_nat i) = Some (fr i))
    \<and> (\<forall>v. translate m (kpml4 k) v = translate (kmem k) (kpml4 k) v)
    \<and> table_pages m (kpml4 k) = table_pages (kmem k) (kpml4 k)
    \<and> (\<forall>x. x \<notin> fr ` {..<n} \<longrightarrow> m x = kmem k x)
    \<and> (\<forall>i<n. m (fr i) = (inodes (kfs k) ! of_inode f) ! (of_offset f + i))"
proof -
  have us: "user_space_ok (kmem k) (kpml4 k) p" by (rule users_ok_cur [OF inv p(1)])
  obtain fr where fr: "inj_on fr {..<unat len}"
    "\<And>i. i < unat len \<Longrightarrow> translate (kmem k) (kpml4 k) (buf + of_nat i) = Some (fr i) \<and> page_no (fr i) \<notin> table_pages (kmem k) (kpml4 k)"
    using user_frames [OF us p(3)] by blast
  let ?d = "inodes (kfs k) ! of_inode f"
  let ?bs = "take n (drop (of_offset f) ?d)"
  have l: "length ?bs = n" by (simp add: n)
  have "paged (kpml4 k)" using us by (simp add: user_space_ok_def)
  from uwrite_spec [OF this, of ?bs "kmem k" buf fr] obtain m where m: "uwrite (kpml4 k) buf ?bs (kmem k) = Inr m"
    "\<forall>v. translate m (kpml4 k) v = translate (kmem k) (kpml4 k) v" "table_pages m (kpml4 k) = table_pages (kmem k) (kpml4 k)"
    "\<forall>x. (\<forall>i<n. x \<noteq> fr i) \<longrightarrow> m x = kmem k x" "\<forall>i<n. (\<forall>j<n. fr j = fr i \<longrightarrow> j = i) \<longrightarrow> m (fr i) = ?bs ! i"
    using fr(2) unfolding l by (auto simp: n)
  have "m (fr i) = ?d ! (of_offset f + i)" if i: "i < n" for i
  proof -
    have "n \<le> unat len" by (simp add: n)
    then have "\<forall>j<n. fr j = fr i \<longrightarrow> j = i" using inj_onD [OF fr(1), of _ i] i by auto
    then have "m (fr i) = ?bs ! i" using m(5) i by blast
    moreover have "of_offset f + i < length ?d" using i by (simp add: n less_diff_conv add.commute)
    ultimately show ?thesis using i by simp
  qed
  moreover have "\<forall>x. x \<notin> fr ` {..<n} \<longrightarrow> m x = kmem k x" using m(4) by blast
  moreover have "read_file p (unat fd) f buf len k = Inr (of_nat n,
      set_cur (p\<lparr>fds := (fds p)[unat fd := Some (f\<lparr>of_offset := of_offset f + n\<rparr>)]\<rparr>) (k\<lparr>kmem := m\<rparr>))"
  proof -
    obtain dst where d: "read_at ?d (of_offset f) (replicate (unat len) 0) = (dst, n)" "take n dst = ?bs"
      by (simp add: read_at_spec n)
    show ?thesis using m(1) by (simp add: read_file_def d)
  qed
  then have "sys_read fd buf len k = Inr (of_nat n,
      set_cur (p\<lparr>fds := (fds p)[unat fd := Some (f\<lparr>of_offset := of_offset f + n\<rparr>)]\<rparr>) (k\<lparr>kmem := m\<rparr>))"
    using p by (simp add: sys_read_def)
  ultimately show ?thesis using fr m(2,3) by blast
qed

lemma sys_read_safe:
  assumes inv: "kernel_inv k"
  shows "safe (sys_read fd buf len k)"
proof (cases "\<exists>p f. cur_proc k = Some p \<and> unat fd < length (fds p) \<and> user_range_ok p buf len
      \<and> fds p ! unat fd = Some f \<and> of_perms f AND PERM_READ \<noteq> 0")
  case False
  then have "\<exists>e. sys_read fd buf len k = Inr (e, k)" by (auto simp: sys_read_def split: option.split)
  then show ?thesis using inv by (auto simp: safe_def)
next
  case True
  then obtain p f where p: "cur_proc k = Some p" "unat fd < length (fds p)" "user_range_ok p buf len"
    "fds p ! unat fd = Some f" "of_perms f AND PERM_READ \<noteq> 0" by blast
  from sys_read_success [OF inv p refl] obtain n m q where
    w: "sys_read fd buf len k = Inr (n, set_cur q (k\<lparr>kmem := m\<rparr>))" and q: "user_regions q = user_regions p"
    and m: "\<forall>v. translate m (kpml4 k) v = translate (kmem k) (kpml4 k) v"
      "table_pages m (kpml4 k) = table_pages (kmem k) (kpml4 k)" by fastforce
  have ok: "kernel_ok k" "users_ok k" using inv by (simp_all add: kernel_inv_def)
  have "users_ok (set_cur q (k\<lparr>kmem := m\<rparr>))" by (rule users_ok_set_cur [OF ok p(1) q m]) simp_all
  then show ?thesis using sys_read_ok [OF ok(1) w] by (intro safeI [OF w]) (simp add: kernel_inv_def)
qed

lemma sys_close_safe:
  assumes inv: "kernel_inv k"
  shows "safe (sys_close fd k)"
proof -
  have ok: "kernel_ok k" "users_ok k" using inv by (simp_all add: kernel_inv_def)
  have "\<exists>r k'. sys_close fd k = Inr (r, k')" by (auto simp: sys_close_def split: option.split)
  then obtain r k' where w: "sys_close fd k = Inr (r, k')" by blast
  have "users_ok k'"
  proof (cases "cur_proc k")
    case (Some p)
    have "k' = k \<or> k' = set_cur (p\<lparr>fds := (fds p)[unat fd := None]\<rparr>) k"
      using w Some by (auto simp: sys_close_def split: if_splits)
    then show ?thesis
      using ok users_ok_set_cur [OF ok Some, where m = "kmem k" and k' = k' and q = "p\<lparr>fds := (fds p)[unat fd := None]\<rparr>"]
      by auto
  qed (use w ok in \<open>simp add: sys_close_def\<close>)
  then show ?thesis using sys_close_ok [OF ok(1) w] by (intro safeI [OF w]) (simp add: kernel_inv_def)
qed

lemma sys_exit_safe:
  assumes inv: "kernel_inv k"
  shows "kernel_inv (sys_exit code k)"
proof -
  have ok: "kernel_ok k" "users_ok k" using inv by (simp_all add: kernel_inv_def)
  have "users_ok (sys_exit code k)"
  proof (cases "cur_proc k")
    case (Some p)
    show ?thesis
      by (rule users_ok_set_cur [OF ok Some, where m = "kmem k" and q = "p\<lparr>state := Dead\<rparr>"])
        (simp_all add: sys_exit_def Some)
  qed (simp add: sys_exit_def ok)
  then show ?thesis using sys_exit_ok [OF ok(1)] by (simp add: kernel_inv_def)
qed

lemma sys_yield_safe:
  assumes "kernel_inv k" "cur_proc k = Some p"
  shows "safe (sys_yield k)"
proof -
  have ok: "kernel_ok k" "users_ok k" using assms(1) by (simp_all add: kernel_inv_def)
  obtain r st where w: "sys_yield k = Inr (r, k\<lparr>kst := st\<rparr>)" "kernel_ok (k\<lparr>kst := st\<rparr>)"
    "processes (sched st) = processes (sched (kst k))" using sys_yield_spec [OF ok(1) assms(2)] by blast
  then show ?thesis using users_ok_same [OF ok(2), of "k\<lparr>kst := st\<rparr>"] by (intro safeI [OF w(1)]) (simp add: kernel_inv_def)
qed

lemmas handlers_safe = sys_write_safe sys_read_safe sys_open_safe sys_close_safe sys_yield_safe

lemma syscall_handler_safe:
  assumes inv: "kernel_inv k"
  shows "safe (syscall_handler nr arg1 arg2 arg3 k)"
proof (cases "syscall_exists nr \<and> syscall_allowed nr k")
  case True
  then obtain p where p: "cur_proc k = Some p" by (auto simp: syscall_allowed_def split: option.splits)
  have "safe (Inr (Halt, sys_exit arg1 k))" using sys_exit_safe [OF inv] by (auto simp: safe_def)
  moreover have "safe (Inr (Ret (err ENOSYS), k))" using inv by (auto simp: safe_def)
  ultimately show ?thesis
    using True handlers_safe [OF inv] p unfolding syscall_handler_def by (simp add: safe_ret)
qed (use inv in \<open>auto simp: syscall_handler_def safe_def\<close>)

section \<open>Properties\<close>

lemma sample_kernel_inv: "kernel_inv sample_kernel"
proof -
  have "kmem sample_kernel = sample_mem" "kpml4 sample_kernel = 0x1000" by (simp_all add: sample_kernel_def)
  then show ?thesis using sample_kernel_ok sample_space sample_procs by (simp add: kernel_inv_def users_ok_def)
qed



text \<open>
  C6. Opening a file needs a grant: a call of \<^verbatim>\<open>open\<close> that changes anything found the name at a user
  address of the caller, a grant of that name covers the rights the flags ask for, the name is in the
  directory, and the only change is a new descriptor, from 3 to 15, free before, with exactly those
  rights, at offset 0 of that file. In every other case an error code is returned.
\<close>

theorem open_needs_grant:
  assumes "kernel_inv k" "sys_open ptr len flags k = Inr (r, k')"
  shows "k' = k \<and> r \<in> err ` {ESRCH, EINVAL, ENAMETOOLONG, EFAULT, EACCES, ENOENT, EMFILE}
    \<or> (\<exists>p name need g i fd q. cur_proc k = Some p \<and> user_range_ok p ptr len
        \<and> uread (kmem k) (kpml4 k) ptr (unat len) = Inr name \<and> open_need flags = Some need
        \<and> g \<in> set (grants p) \<and> grant_name g = name \<and> grant_perms g AND need = need
        \<and> lookup (kfs k) name = Some i \<and> r = of_nat fd \<and> 3 \<le> fd \<and> fd < 16
        \<and> (fd < length (fds p) \<longrightarrow> fds p ! fd = None)
        \<and> k' = set_cur q k \<and> (\<exists>tab. q = p\<lparr>fds := tab\<rparr>) \<and> length (fds p) \<le> length (fds q)
        \<and> fds q ! fd = Some \<lparr>of_perms = need, of_inode = i, of_offset = 0\<rparr>
        \<and> (\<forall>j < length (fds p). j \<noteq> fd \<longrightarrow> fds q ! j = fds p ! j))"
  using sys_open_result [OF assms(2)]
proof (elim disjE conjE exE)
  fix p need name i
  let ?f = "\<lparr>of_perms = need, of_inode = i, of_offset = 0\<rparr>"
  assume p: "cur_proc k = Some p" "open_need flags = Some need" "user_range_ok p ptr len"
    "uread (kmem k) (kpml4 k) ptr (unat len) = Inr name" "granted p name AND need = need" "lookup (kfs k) name = Some i"
    and r: "(r, k') = install_fd p ?f k"
  obtain g where g: "g \<in> set (grants p)" "grant_name g = name" "grant_perms g AND need = need"
    using granted_in [OF p(5) open_need_nonzero [OF p(2)]] by blast
  have l: "3 \<le> length (fds p)" "length (fds p) \<le> 16"
    using cur_proc_in(1) [OF _ p(1)] assms(1) by (simp_all add: proc_ok_def kernel_inv_def MAX_FDS_def)
  consider (full) "r = err EMFILE" "k' = k"
    | (slot) fd where "r = of_nat fd" "k' = set_cur (p\<lparr>fds := (fds p)[fd := Some ?f]\<rparr>) k" "3 \<le> fd" "fd < length (fds p)" "fds p ! fd = None"
    | (new) "r = of_nat (length (fds p))" "k' = set_cur (p\<lparr>fds := fds p @ [Some ?f]\<rparr>) k" "length (fds p) < 16"
    using install_fd_spec [OF l(1), of ?f k] r by (auto simp: MAX_FDS_def)
  then show ?thesis
  proof cases
    case full
    then show ?thesis by simp
  next
    case slot
    show ?thesis
      by (rule disjI2, rule exI [of _ p], rule exI [of _ name], rule exI [of _ need], rule exI [of _ g],
          rule exI [of _ i], rule exI [of _ fd], rule exI [of _ "p\<lparr>fds := (fds p)[fd := Some ?f]\<rparr>"])
        (use p g slot l in \<open>auto intro!: exI [of _ "(fds p)[fd := Some ?f]"]\<close>)
  next
    case new
    show ?thesis
      by (rule disjI2, rule exI [of _ p], rule exI [of _ name], rule exI [of _ need], rule exI [of _ g],
          rule exI [of _ i], rule exI [of _ "length (fds p)"], rule exI [of _ "p\<lparr>fds := fds p @ [Some ?f]\<rparr>"])
        (use p g new l in \<open>auto simp: nth_append intro!: exI [of _ "fds p @ [Some ?f]"]\<close>)
  qed
qed auto

lemma sample_uread: "uread (kmem sample_kernel) (kpml4 sample_kernel) 0x400000 (Suc 0) = Inr [97]"
  by (simp add: sample_kernel_def sample_translate sample_mem_def)

lemma sample_range: "user_range_ok sample_user 0x400000 1"
  by (simp add: user_range_ok_def checked_add_def sample_user_def word_le_nat_alt)

lemma sample_granted: "granted sample_user [97] = PERM_READ OR PERM_WRITE"
  by (simp add: granted_def sample_user_def)

definition sample_file :: open_file where
  "sample_file = \<lparr>of_perms = PERM_READ OR PERM_WRITE, of_inode = 0, of_offset = 0\<rparr>"

definition sample_opened :: kernel where
  "sample_opened = set_cur (sample_user\<lparr>fds := [None, None, None, Some sample_file]\<rparr>) sample_kernel"

lemma sample_open: "sys_open 0x400000 1 O_RDWR sample_kernel = Inr (3, sample_opened)"
proof -
  have need: "open_need O_RDWR = Some (PERM_READ OR PERM_WRITE)"
    by (simp add: open_need_def O_RDWR_def O_ACCMODE_def O_RDONLY_def O_WRONLY_def)
  have look: "lookup (kfs sample_kernel) [97] = Some 0" by (simp add: lookup_def sample_kernel_def)
  have "fds sample_user = [None, None, None]" by (simp add: sample_user_def sample_process_def)
  then have ins: "install_fd sample_user sample_file sample_kernel = (3, sample_opened)"
    by (simp add: install_fd_def FIRST_FILE_FD_def MAX_FDS_def sample_opened_def)
  have "sys_open 0x400000 1 O_RDWR sample_kernel = Inr (install_fd sample_user sample_file sample_kernel)"
    by (simp add: sys_open_def need sample_range sample_uread MAX_PATH_def open_name_def sample_granted look
        sample_file_def del: uread.simps)
  then show ?thesis using ins by simp
qed

lemma sample_opened_inv: "kernel_inv sample_opened"
  using sys_open_safe [OF sample_kernel_inv, of "0x400000" 1 O_RDWR] sample_open by (simp add: safe_def)

lemma sample_opened_simps [simp]:
  "cur_proc sample_opened = Some (sample_user\<lparr>fds := [None, None, None, Some sample_file]\<rparr>)"
  "kmem sample_opened = sample_mem" "kpml4 sample_opened = 0x1000"
  "kfs sample_opened = \<lparr>inodes = [[104, 105]], root = [\<lparr>de_name = [97], de_inode = 0\<rparr>]\<rparr>"
  by (simp_all add: sample_opened_def cur_proc_def sample_kernel_def)

theorem open_needs_grant_witness:
  "\<exists>g name. sys_open 0x400000 1 O_RDWR sample_kernel = Inr (3, sample_opened)
     \<and> uread (kmem sample_kernel) (kpml4 sample_kernel) 0x400000 (unat (1 :: u64)) = Inr name
     \<and> g \<in> set (grants sample_user) \<and> grant_name g = name"
proof -
  have "3 \<notin> err ` {ESRCH, EINVAL, ENAMETOOLONG, EFAULT, EACCES, ENOENT, EMFILE}" by (simp add: err_def errnos)
  with open_needs_grant [OF sample_kernel_inv sample_open] obtain g name where
    "uread (kmem sample_kernel) (kpml4 sample_kernel) 0x400000 (unat (1 :: u64)) = Inr name"
    "g \<in> set (grants sample_user)" "grant_name g = name" by auto
  then show ?thesis using sample_open by blast
qed

text \<open>
  C21. An open call reveals nothing about files that were not granted: when no grant of the caller has
  the name, the call returns the same error and changes nothing, whatever files exist.
\<close>

theorem open_hides_ungranted:
  assumes "cur_proc k = Some p" "uread (kmem k) (kpml4 k) ptr (unat len) = Inr name"
    and "\<forall>g \<in> set (grants p). grant_name g \<noteq> name"
  shows "\<exists>e \<in> {EINVAL, ENAMETOOLONG, EFAULT, EACCES}. \<forall>fs.
    sys_open ptr len flags (k\<lparr>kfs := fs\<rparr>) = Inr (err e, k\<lparr>kfs := fs\<rparr>)"
proof -
  have p: "cur_proc (k\<lparr>kfs := fs\<rparr>) = Some p" for fs using assms(1) by (simp add: cur_proc_def)
  have g: "granted p name = 0" using assms(3) by (auto simp: granted_def find_Some_iff split: option.splits)
  show ?thesis
  proof (cases "open_need flags")
    case (Some need)
    then have "open_name p need name (k\<lparr>kfs := fs\<rparr>) = (err EACCES, k\<lparr>kfs := fs\<rparr>)" for fs
      using open_need_nonzero by (auto simp: open_name_def g)
    then show ?thesis using Some assms(2) p by (simp add: sys_open_def)
  qed (simp add: sys_open_def p)
qed

theorem open_hides_ungranted_witness:
  "\<exists>e \<in> {EINVAL, ENAMETOOLONG, EFAULT, EACCES}. \<forall>fs.
    sys_open 0x400001 1 O_RDONLY (sample_kernel\<lparr>kfs := fs\<rparr>) = Inr (err e, sample_kernel\<lparr>kfs := fs\<rparr>)"
proof (rule open_hides_ungranted [OF sample_cur, of _ _ "[98]"])
  show "uread (kmem sample_kernel) (kpml4 sample_kernel) 0x400001 (unat (1 :: u64)) = Inr [98]"
    by (simp add: sample_kernel_def sample_translate sample_mem_def)
qed (simp add: sample_user_def)

text \<open>
  C22. A write changes at most one file, one that was opened for writing with a grant that allows it:
  the contents of every other inode, the directory, memory and every other process stay as they were.
  The file changed holds the bytes of the caller's buffer at the offset of the descriptor, and the
  descriptor moves behind them.
\<close>

theorem write_changes_one_file:
  assumes "kernel_inv k" "sys_write fd buf len k = Inr (r, k')"
  shows "root (kfs k') = root (kfs k) \<and> length (inodes (kfs k')) = length (inodes (kfs k)) \<and> kmem k' = kmem k
    \<and> (\<forall>i. i \<noteq> current (sched (kst k)) \<longrightarrow> processes (sched (kst k')) ! i = processes (sched (kst k)) ! i)
    \<and> (\<forall>j < length (inodes (kfs k)). inodes (kfs k') ! j \<noteq> inodes (kfs k) ! j \<longrightarrow>
        (\<exists>p q f g src. cur_proc k = Some p \<and> fds p ! unat fd = Some f \<and> of_inode f = j \<and> of_perms f AND PERM_WRITE \<noteq> 0
          \<and> g \<in> set (grants p) \<and> grant_perms g AND of_perms f = of_perms f
          \<and> uread (kmem k) (kpml4 k) buf (unat len) = Inr src \<and> r = len
          \<and> take (unat len) (drop (of_offset f) (inodes (kfs k') ! j)) = src
          \<and> cur_proc k' = Some q \<and> fds q ! unat fd = Some (f\<lparr>of_offset := of_offset f + unat len\<rparr>)))"
  using sys_write_result [OF assms(2)]
proof (elim disjE conjE exE)
  fix p src assume "program_output src k = Inr k'"
  then have "same_but_console k k'"
    using program_output_spec [of k src] assms(1) by (auto simp: kernel_inv_def kernel_ok_def)
  then show ?thesis by (auto simp: same_but_console_def)
next
  fix p f src data e
  assume p: "cur_proc k = Some p" "user_range_ok p buf len" "unat fd < length (fds p)" "fds p ! unat fd = Some f" "of_perms f AND PERM_WRITE \<noteq> 0"
    and src: "uread (kmem k) (kpml4 k) buf (unat len) = Inr src" and r: "r = len"
    and w: "write_at (inodes (kfs k) ! of_inode f) (of_offset f) src = (data, Some e)"
    and k': "k' = set_cur (p\<lparr>fds := (fds p)[unat fd := Some (f\<lparr>of_offset := e\<rparr>)]\<rparr>)
        (k\<lparr>kfs := (kfs k)\<lparr>inodes := (inodes (kfs k))[of_inode f := data]\<rparr>\<rparr>)"
  have ok: "kernel_ok k" using assms(1) by (simp add: kernel_inv_def)
  have "file_ok (kfs k) p f" using cur_proc_in(1) [OF ok p(1)] p(3,4) nth_mem by (metis proc_ok_def)
  then obtain g where g: "g \<in> set (grants p)" "grant_perms g AND of_perms f = of_perms f" "of_inode f < length (inodes (kfs k))"
    by (auto simp: file_ok_def)
  have l: "length src = unat len" using uread_region [OF users_ok_cur [OF assms(1) p(1)] p(2)] src by auto
  have d: "take (length src) (drop (of_offset f) data) = src" "e = of_offset f + length src"
    using write_at_Some [OF w] by (auto intro!: nth_equalityI)
  have "take (unat len) (drop (of_offset f) data) = src" "e = of_offset f + unat len" using d l by simp_all
  moreover have "cur_proc k' = Some (p\<lparr>fds := (fds p)[unat fd := Some (f\<lparr>of_offset := e\<rparr>)]\<rparr>)"
    using cur_proc_in(2) [OF ok p(1)] by (simp add: k' cur_proc_def)
  moreover have "\<forall>j < length (inodes (kfs k)). inodes (kfs k') ! j \<noteq> inodes (kfs k) ! j \<longrightarrow> j = of_inode f \<and> inodes (kfs k') ! j = data"
    using g(3) by (auto simp: k' nth_list_update)
  moreover have "fds (p\<lparr>fds := (fds p)[unat fd := Some (f\<lparr>of_offset := e\<rparr>)]\<rparr>) ! unat fd = Some (f\<lparr>of_offset := e\<rparr>)"
    using p(3) by simp
  ultimately have "\<exists>p q f g src. cur_proc k = Some p \<and> fds p ! unat fd = Some f \<and> of_inode f = j \<and> of_perms f AND PERM_WRITE \<noteq> 0
      \<and> g \<in> set (grants p) \<and> grant_perms g AND of_perms f = of_perms f
      \<and> uread (kmem k) (kpml4 k) buf (unat len) = Inr src \<and> r = len
      \<and> take (unat len) (drop (of_offset f) (inodes (kfs k') ! j)) = src
      \<and> cur_proc k' = Some q \<and> fds q ! unat fd = Some (f\<lparr>of_offset := of_offset f + unat len\<rparr>)"
    if "j < length (inodes (kfs k))" "inodes (kfs k') ! j \<noteq> inodes (kfs k) ! j" for j
    using that p g(1,2) src r by blast
  moreover have "root (kfs k') = root (kfs k)" "length (inodes (kfs k')) = length (inodes (kfs k))" "kmem k' = kmem k"
    "processes (sched (kst k')) ! i = processes (sched (kst k)) ! i" if "i \<noteq> current (sched (kst k))" for i
    using that by (simp_all add: k')
  ultimately show ?thesis by (simp add: k')
qed auto

lemma sample_range_2: "user_range_ok (sample_user\<lparr>fds := x\<rparr>) 0x400000 2"
  by (simp add: user_range_ok_def checked_add_def sample_user_def word_le_nat_alt)

lemma sample_uread_2: "uread sample_mem 0x1000 0x400000 2 = Inr [97, 98]"
  proof -
  have "uread sample_mem 0x1000 0x400000 (Suc (Suc 0)) = Inr [97, 98]"
    by (simp add: sample_translate) (simp add: sample_mem_def)
  then show ?thesis by (simp only: numeral_2_eq_2)
qed

lemma sample_write:
  "\<exists>k'. sys_write 3 0x400000 2 sample_opened = Inr (2, k') \<and> inodes (kfs k') = [[97, 98]]"
proof -
  have w: "write_at [104, 105] 0 [97, 98] = ([97, 98], Some 2)" by (simp add: write_at_def MAX_FILE_SIZE_def)
  have "of_perms sample_file AND PERM_WRITE \<noteq> 0" by (simp add: sample_file_def PERM_READ_def PERM_WRITE_def)
  then show ?thesis
    by (simp add: sys_write_def sample_range_2 write_file_def sample_file_def w sample_uread_2 MAX_FILE_SIZE_def del: uread.simps)
qed

theorem write_changes_one_file_witness:
  "\<exists>k' q. sys_write 3 0x400000 2 sample_opened = Inr (2, k') \<and> inodes (kfs k') ! 0 = [97, 98]
     \<and> cur_proc k' = Some q \<and> fds q ! 3 = Some (sample_file\<lparr>of_offset := 2\<rparr>)"
proof -
  obtain k' where k': "sys_write 3 0x400000 2 sample_opened = Inr (2, k')" "inodes (kfs k') = [[97, 98]]"
    using sample_write by blast
  have "inodes (kfs k') ! 0 \<noteq> inodes (kfs sample_opened) ! 0" using k'(2) by simp
  with write_changes_one_file [OF sample_opened_inv k'(1)] obtain q where
    "cur_proc k' = Some q" "fds q ! 3 = Some (sample_file\<lparr>of_offset := of_offset sample_file + unat (2 :: u64)\<rparr>)" by force
  with k' show ?thesis by (auto simp: sample_file_def)
qed

text \<open>
  C23. A read delivers the file: on success it returns the number of bytes up to the end of the file or
  of the buffer, reading the buffer afterwards gives exactly those bytes of the file, the descriptor
  moves behind them, no file changes, and memory outside the frames of the buffer stays as it was,
  page tables included.
\<close>

theorem read_delivers_file:
  assumes "kernel_inv k" "cur_proc k = Some p" "user_range_ok p buf len" "unat fd < length (fds p)"
    and "fds p ! unat fd = Some f" "of_perms f AND PERM_READ \<noteq> 0"
  shows "\<exists>n k' q. sys_read fd buf len k = Inr (of_nat n, k')
    \<and> n = min (unat len) (length (inodes (kfs k) ! of_inode f) - of_offset f)
    \<and> uread (kmem k') (kpml4 k') buf n = Inr (take n (drop (of_offset f) (inodes (kfs k) ! of_inode f)))
    \<and> cur_proc k' = Some q \<and> fds q ! unat fd = Some (f\<lparr>of_offset := of_offset f + n\<rparr>)
    \<and> kfs k' = kfs k \<and> (\<forall>v. translate (kmem k') (kpml4 k') v = translate (kmem k) (kpml4 k) v)
    \<and> (\<forall>x. (\<forall>i<n. translate (kmem k) (kpml4 k) (buf + of_nat i) \<noteq> Some x) \<longrightarrow> kmem k' x = kmem k x)"
proof -
  let ?d = "inodes (kfs k) ! of_inode f"
  define n where "n = min (unat len) (length ?d - of_offset f)"
  let ?q = "p\<lparr>fds := (fds p)[unat fd := Some (f\<lparr>of_offset := of_offset f + n\<rparr>)]\<rparr>"
  obtain fr m where r: "sys_read fd buf len k = Inr (of_nat n, set_cur ?q (k\<lparr>kmem := m\<rparr>))"
    and fr: "\<forall>i<unat len. translate (kmem k) (kpml4 k) (buf + of_nat i) = Some (fr i)"
    and m: "\<forall>v. translate m (kpml4 k) v = translate (kmem k) (kpml4 k) v"
      "\<forall>x. x \<notin> fr ` {..<n} \<longrightarrow> m x = kmem k x" "\<forall>i<n. m (fr i) = ?d ! (of_offset f + i)"
    using sys_read_success [OF assms(1,2,4,3,5,6) n_def] by blast
  have "uread m (kpml4 k) buf n = Inr (map (\<lambda>i. m (fr i)) [0..<n])"
    using fr m(1) by (intro uread_eq) (simp add: n_def)
  also have "map (\<lambda>i. m (fr i)) [0..<n] = take n (drop (of_offset f) ?d)"
    using m(3) by (intro nth_equalityI) (auto simp: n_def)
  finally have "uread m (kpml4 k) buf n = Inr (take n (drop (of_offset f) ?d))" .
  moreover have "cur_proc (set_cur ?q (k\<lparr>kmem := m\<rparr>)) = Some ?q"
    using cur_proc_in(2) [OF _ assms(2)] assms(1) by (simp add: cur_proc_def kernel_inv_def)
  moreover have "\<forall>x. (\<forall>i<n. translate (kmem k) (kpml4 k) (buf + of_nat i) \<noteq> Some x) \<longrightarrow> m x = kmem k x"
  proof (intro allI impI)
    fix x assume x: "\<forall>i<n. translate (kmem k) (kpml4 k) (buf + of_nat i) \<noteq> Some x"
    have "n \<le> unat len" by (simp add: n_def)
    then have "x \<notin> fr ` {..<n}" using x fr by auto
    then show "m x = kmem k x" using m(2) by blast
  qed
  ultimately show ?thesis using r m(1) assms(4)
    by (intro exI [of _ n] exI [of _ "set_cur ?q (k\<lparr>kmem := m\<rparr>)"] exI [of _ ?q]) (simp add: n_def)
qed

theorem read_delivers_file_witness:
  "\<exists>k'. sys_read 3 0x400000 2 sample_opened = Inr (2, k') \<and> uread (kmem k') (kpml4 k') 0x400000 2 = Inr [104, 105]"
proof -
  obtain n k' where r: "sys_read 3 0x400000 2 sample_opened = Inr (of_nat n, k')"
    "n = min (unat (2 :: u64)) (length [104 :: u8, 105] - 0)"
    "uread (kmem k') (kpml4 k') 0x400000 n = Inr (take n (drop 0 [104, 105]))"
    using read_delivers_file [OF sample_opened_inv sample_opened_simps(1) sample_range_2, of 3 sample_file]
    by (auto simp: sample_file_def PERM_READ_def PERM_WRITE_def simp del: uread.simps)
  have "n = 2" using r(2) by simp
  with r(1,3) show ?thesis by (simp del: uread.simps)
qed

end
