(* ===== verification/Shell_Safety.thy ===== *)
theory Shell_Safety
  imports Shell Syscall_Safety
begin

text \<open>
  Properties of the shell: number parsing and word splitting, line editing as operations on the typed
  line, and that no key press and no command other than \<^verbatim>\<open>spawn\<close> can bring the kernel down.
\<close>

section \<open>Parsing\<close>

definition dec_step :: "nat \<Rightarrow> u8 \<Rightarrow> nat" where
  "dec_step a c = a * 10 + (unat c - 48)"

definition dec_value :: "u8 list \<Rightarrow> nat" where
  "dec_value s = foldl dec_step 0 s"

lemma dec_value_mono: "a \<le> foldl dec_step a s"
proof (induction s arbitrary: a)
  case (Cons c s)
  have "a \<le> dec_step a c" by (simp add: dec_step_def)
  then show ?case using Cons.IH [of "dec_step a c"] by simp
qed simp

lemma unat_digit: "is_ascii_digit c \<Longrightarrow> unat (ucast (c - 48) :: u64) = unat c - 48"
proof -
  assume "is_ascii_digit c"
  then have "48 \<le> c" by (simp add: is_ascii_digit_def)
  then have "unat (c - 48) = unat c - 48" by (simp add: unat_sub)
  moreover have "unat (c - 48) < 2 ^ 8" using unsigned_less [of "c - 48", where ?'a = nat] by simp
  ultimately show ?thesis by (simp add: unsigned_ucast_eq take_bit_eq_mod)
qed

lemma parse_dec_step:
  assumes "is_ascii_digit c"
  shows "parse_dec_loop n (c # rest) = (if dec_step (unat n) c < 2 ^ 64 then parse_dec_loop (of_nat (dec_step (unat n) c)) rest else None)"
proof (cases "unat n * 10 < 2 ^ 64")
  case False
  then show ?thesis using assms by (simp add: checked_mul_def dec_step_def)
next
  case True
  have m: "unat (n * 10) = unat n * 10" using True unat_mult_small [of n 10] by simp
  define x :: u64 where "x = ucast (c - 48)"
  have d: "dec_step (unat n) c = unat n * 10 + unat x" using unat_digit [OF assms] by (simp add: dec_step_def x_def)
  have "of_nat (unat n * 10 + unat x) = n * 10 + x" by simp
  then show ?thesis using assms True m by (simp add: checked_mul_def checked_add_def d flip: x_def)
qed

lemma parse_dec_loop_spec:
  "parse_dec_loop n s = (if (\<forall>c \<in> set s. is_ascii_digit c) \<and> foldl dec_step (unat n) s < 2 ^ 64
     then Some (of_nat (foldl dec_step (unat n) s)) else None)"
proof (induction s arbitrary: n)
  case (Cons c s)
  show ?case
  proof (cases "is_ascii_digit c \<and> dec_step (unat n) c < 2 ^ 64")
    case True
    then have "unat (of_nat (dec_step (unat n) c) :: u64) = dec_step (unat n) c" by (simp add: unat_of_nat_small)
    then show ?thesis using True Cons.IH [of "of_nat (dec_step (unat n) c)"] parse_dec_step [of c n s] by simp
  next
    case False
    then have "parse_dec_loop n (c # s) = None"
      by (cases "is_ascii_digit c") (simp_all only: parse_dec_step, simp_all)
    moreover have "\<not> ((\<forall>d \<in> set (c # s). is_ascii_digit d) \<and> foldl dec_step (unat n) (c # s) < 2 ^ 64)"
      using False dec_value_mono [of "dec_step (unat n) c" s] by auto
    ultimately show ?thesis by simp
  qed
qed simp

lemma trim_spec:
  "\<exists>a b. s = a @ trim s @ b \<and> (\<forall>c \<in> set (a @ b). is_blank c)
    \<and> (trim s \<noteq> [] \<longrightarrow> \<not> is_blank (hd (trim s)) \<and> \<not> is_blank (last (trim s)))"
proof -
  let ?t = "dropWhile is_blank s"
  let ?u = "rev (dropWhile is_blank (rev ?t))"
  have s: "s = takeWhile is_blank s @ ?t" by simp
  have t: "?t = ?u @ rev (takeWhile is_blank (rev ?t))"
    by (metis rev_append rev_rev_ident takeWhile_dropWhile_id)
  have "?u \<noteq> [] \<Longrightarrow> \<not> is_blank (last ?u)"
    using hd_dropWhile [of is_blank "rev ?t"] by (simp add: last_rev)
  moreover have "?u \<noteq> [] \<Longrightarrow> hd ?u = hd ?t" using t by (metis hd_append2)
  moreover have "?u \<noteq> [] \<Longrightarrow> ?t \<noteq> []" by (metis dropWhile.simps(1) rev.simps(1))
  ultimately have "?u \<noteq> [] \<Longrightarrow> \<not> is_blank (hd ?u) \<and> \<not> is_blank (last ?u)" using hd_dropWhile [of is_blank s] by auto
  moreover have "s = takeWhile is_blank s @ ?u @ rev (takeWhile is_blank (rev ?t))" using s t by metis
  moreover have "\<forall>c \<in> set (takeWhile is_blank s @ rev (takeWhile is_blank (rev ?t))). is_blank c"
  proof -
    have "is_blank c" if "c \<in> set (takeWhile is_blank xs)" for c xs using set_takeWhileD [OF that] by simp
    then show ?thesis by (simp only: set_append set_rev) blast
  qed
  ultimately show ?thesis unfolding trim_def Let_def by blast
qed

section \<open>Output of commands\<close>

definition out :: "kernel \<Rightarrow> kernel res \<Rightarrow> bool" where
  "out k x \<longleftrightarrow> (\<exists>k'. x = Inr k' \<and> screen_ok k' \<and> same_but_console k k')"

lemma out_step: "outputs f \<Longrightarrow> screen_ok k \<Longrightarrow> out k (f k)"
  by (simp add: outputs_def out_def)

lemma out_rbind:
  assumes "out k x" "\<And>k'. screen_ok k' \<Longrightarrow> same_but_console k k' \<Longrightarrow> out k' (f k')"
  shows "out k (rbind x f)"
proof -
  obtain k' where k': "x = Inr k'" "screen_ok k'" "same_but_console k k'" using assms(1) by (auto simp: out_def)
  then show ?thesis using assms(2) [OF k'(2,3)] same_but_console_trans by (auto simp: out_def)
qed

lemma out_Inr: "screen_ok k \<Longrightarrow> out k (Inr k)"
  by (simp add: out_def)

lemma out_rfold:
  assumes "\<And>x k. x \<in> set xs \<Longrightarrow> screen_ok k \<Longrightarrow> out k (f x k)" "screen_ok k"
  shows "out k (rfold f xs k)"
  using assms
proof (induction xs arbitrary: k)
  case (Cons x xs)
  have "out k (rbind (f x k) (rfold f xs))"
  proof (rule out_rbind)
    show "out k (f x k)" using Cons.prems by simp
    fix k' assume "screen_ok k'"
    then show "out k' (rfold f xs k')" using Cons.prems(1) by (intro Cons.IH) simp_all
  qed
  then show ?case by simp
qed (simp add: out_Inr)

lemmas outs = outputs_print [THEN out_step] outputs_print_dec [THEN out_step] outputs_write_bytes [THEN out_step]
  outputs_clear [THEN out_step] outputs_backspace [THEN out_step] outputs_byte [THEN out_step] out_Inr

lemma cmd_outputs:
  assumes "screen_ok k"
  shows "out k (cmd_help k)" "out k (cmd_echo args k)" "out k (cmd_ticks k)" "out k (mods k)"
    "out k (unknown_command cmd k)" "out k (cmd_ls k)" "out k (cmd_ps k)" "out k (cmd_cat args k)"
proof -
  show "out k (cmd_help k)" unfolding cmd_help_def using assms by (rule outs)
  show "out k (cmd_echo args k)" unfolding cmd_echo_def using assms by (intro out_rbind outs)
  show "out k (cmd_ticks k)" unfolding cmd_ticks_def using assms by (intro out_rbind outs)
  show "out k (mods k)" unfolding mods_def using assms by (intro out_rbind outs)
  show "out k (unknown_command cmd k)" unfolding unknown_command_def using assms by (intro out_rbind outs)
  have "out k' (case x of (name, sz) \<Rightarrow> rbind (write_bytes_sh name k') (\<lambda>k. rbind (print '' '' k) (\<lambda>k.
      rbind (print_dec (of_nat sz) k) (print ''\<newline>''))))" if "screen_ok k'" for x k'
    using that by (cases x) (auto intro!: out_rbind outs)
  then show "out k (cmd_ls k)" unfolding cmd_ls_def using assms by (intro out_rfold) auto
  have slot: "out k' (ps_slot x k')" if "screen_ok k'" for x k'
    using that by (cases x) (auto simp: ps_slot_def intro!: out_rbind outs)
  show "out k (cmd_ps k)" unfolding cmd_ps_def using assms by (intro out_rbind outs out_rfold slot)
  show "out k (cmd_cat args k)" unfolding cmd_cat_def using assms
    by (auto split: option.split intro!: out_rbind outs)
qed

section \<open>Invariant\<close>

definition shell_inv :: "kernel \<Rightarrow> bool" where
  "shell_inv k \<longleftrightarrow> kernel_inv k \<and> bitmap_ok (kbitmap k) \<and> kimage_ok (kimg k)"

lemma shell_invD:
  assumes "shell_inv k"
  shows "kernel_ok k" "users_ok k" "screen_ok k" "bitmap_ok (kbitmap k)" "kimage_ok (kimg k)" "sched_ok (sched (kst k))"
  using assms by (simp_all add: shell_inv_def kernel_inv_def kernel_ok_def)

lemma shell_inv_console: "shell_inv k \<Longrightarrow> same_but_console k k' \<Longrightarrow> screen_ok k' \<Longrightarrow> shell_inv k'"
  by (auto simp: shell_inv_def kernel_inv_def kernel_ok_def users_ok_def same_but_console_def)

lemma shell_inv_fs:
  assumes "shell_inv k" "dir_ok fs" "length (inodes (kfs k)) \<le> length (inodes fs)"
  shows "shell_inv (k\<lparr>kfs := fs\<rparr>)"
proof -
  have "proc_ok fs p" if "proc_ok (kfs k) p" for p
    using that assms(3) unfolding proc_ok_def file_ok_def by (meson less_le_trans)
  then show ?thesis using assms(1,2)
    by (auto simp: shell_inv_def kernel_inv_def kernel_ok_def users_ok_def screen_ok_def)
qed

lemma fs_steps:
  assumes "dir_ok fs"
  shows "dir_ok (fst (fs_write name data fs)) \<and> length (inodes fs) \<le> length (inodes (fst (fs_write name data fs)))"
    "dir_ok (fst (fs_create name fs)) \<and> length (inodes fs) \<le> length (inodes (fst (fs_create name fs)))"
    "dir_ok (fst (fs_delete name fs)) \<and> length (inodes fs) \<le> length (inodes (fst (fs_delete name fs)))"
  using assms
  by (auto simp: dir_ok_def fs_write_def fs_create_def fs_delete_def push_file_def less_Suc_eq
      split: option.split dest!: in_set_takeD in_set_dropD)

section \<open>Killing a process\<close>

text \<open>The process table after the slot \<open>i\<close> is marked dead.\<close>

definition marked :: "nat \<Rightarrow> process \<Rightarrow> scheduler \<Rightarrow> scheduler" where
  "marked i p s = s\<lparr>processes := (processes s)[i := Some (p\<lparr>state := Dead\<rparr>)]\<rparr>"

lemma marked_ok:
  assumes "sched_ok s" "i < 64" "processes s ! i = Some p"
  shows "sched_ok (marked i p s)"
  using assms used_update [of i "processes s" "Some (p\<lparr>state := Dead\<rparr>)"] by (simp add: sched_ok_def marked_def)

lemma kill_reap:
  assumes inv: "shell_inv k" and i: "i < 64" "processes (sched (kst k)) ! i = Some p"
  defines "s1 \<equiv> marked i p (sched (kst k))"
  shows "\<exists>s bm. reap (kimg k) s1 (kbitmap k) = Inr (s, bm) \<and> shell_inv (k\<lparr>kst := (kst k)\<lparr>sched := s\<rparr>, kbitmap := bm\<rparr>)
    \<and> current s = current (sched (kst k))
    \<and> (\<forall>j<64. processes s ! j = (if j \<in> reaped s1 {..<64} then None else processes s1 ! j))
    \<and> free_set bm = free_set (kbitmap k) \<union> freeable (kimg k) (stack_pages s1 (reaped s1 {..<64}))"
proof -
  note D = shell_invD [OF inv]
  let ?ps = "processes (sched (kst k))"
  obtain s bm where s: "reap (kimg k) s1 (kbitmap k) = Inr (s, bm)" "sched_ok s" "bitmap_ok bm" "current s = current s1"
    "\<forall>j<64. processes s ! j = (if j \<in> reaped s1 {..<64} then None else processes s1 ! j)"
    "free_set bm = free_set (kbitmap k) \<union> freeable (kimg k) (stack_pages s1 (reaped s1 {..<64}))"
    using reap_spec [OF marked_ok [OF D(6) i] D(4,5)] unfolding s1_def by blast
  have len: "length ?ps = 64" "length (processes s) = 64" using D(6) s(2) by (simp_all add: sched_ok_def)
  have p: "Some p \<in> set ?ps" using i len nth_mem [of i ?ps] by simp
  have sub: "q = p\<lparr>state := Dead\<rparr> \<or> Some q \<in> set ?ps" if "Some q \<in> set (processes s)" for q
  proof -
    obtain j where j: "j < 64" "processes s ! j = Some q" using \<open>Some q \<in> _\<close> len by (auto simp: in_set_conv_nth)
    then have "processes s1 ! j = Some q" using s(5) by (auto split: if_splits)
    then show ?thesis using j(1) len by (cases "j = i") (auto simp: s1_def marked_def in_set_conv_nth)
  qed
  have ok: "proc_ok (kfs k) q \<and> user_space_ok (kmem k) (kpml4 k) q" if "Some q \<in> set ?ps" for q
    using that D(1,2) by (simp add: kernel_ok_def users_ok_def)
  then have "proc_ok (kfs k) (p\<lparr>state := Dead\<rparr>) \<and> user_space_ok (kmem k) (kpml4 k) (p\<lparr>state := Dead\<rparr>)"
    using p by (simp add: proc_ok_def file_ok_def user_space_ok_def region_bytes_def)
  then have "\<forall>q. Some q \<in> set (processes s) \<longrightarrow> proc_ok (kfs k) q \<and> user_space_ok (kmem k) (kpml4 k) q"
    using sub ok by blast
  then have "shell_inv (k\<lparr>kst := (kst k)\<lparr>sched := s\<rparr>, kbitmap := bm\<rparr>)"
    using inv s(2,3) by (simp add: shell_inv_def kernel_inv_def kernel_ok_def users_ok_def screen_ok_def)
  then show ?thesis using s by (auto simp: s1_def marked_def)
qed

lemma has_pid_position:
  assumes "position (has_pid n) ps = Some i"
  shows "\<exists>p. ps ! i = Some p \<and> pid p = n" "i < length ps"
  using assms by (auto simp: position_Some has_pid_def split: option.splits)

lemma cmd_kill_live:
  assumes inv: "shell_inv k" and n: "parse_dec args = Some n"
    and i: "position (has_pid n) (processes (sched (kst k))) = Some i" "processes (sched (kst k)) ! i = Some p" "\<not> is_dead p"
  defines "s1 \<equiv> marked i p (sched (kst k))"
  shows "\<exists>k' s. cmd_kill args k = Inr k' \<and> shell_inv k' \<and> sched (kst k') = s \<and> current s = current (sched (kst k))
    \<and> (\<forall>j<64. processes s ! j = (if j \<in> reaped s1 {..<64} then None else processes s1 ! j))
    \<and> free_set (kbitmap k') = free_set (kbitmap k) \<union> freeable (kimg k) (stack_pages s1 (reaped s1 {..<64}))
    \<and> kmem k' = kmem k \<and> kpml4 k' = kpml4 k \<and> knext_pid k' = knext_pid k"
proof -
  have len: "length (processes (sched (kst k))) = 64" using shell_invD(6) [OF inv] by (simp add: sched_ok_def)
  have i64: "i < 64" using has_pid_position(2) [OF i(1)] len by simp
  from kill_reap [OF inv i64 i(2)] obtain s bm where s: "reap (kimg k) s1 (kbitmap k) = Inr (s, bm)"
    "shell_inv (k\<lparr>kst := (kst k)\<lparr>sched := s\<rparr>, kbitmap := bm\<rparr>)" "current s = current (sched (kst k))"
    "\<forall>j<64. processes s ! j = (if j \<in> reaped s1 {..<64} then None else processes s1 ! j)"
    "free_set bm = free_set (kbitmap k) \<union> freeable (kimg k) (stack_pages s1 (reaped s1 {..<64}))"
    unfolding s1_def by blast
  let ?k = "k\<lparr>kst := (kst k)\<lparr>sched := s\<rparr>, kbitmap := bm\<rparr>"
  have k1: "set_slot i (Some (p\<lparr>state := Dead\<rparr>)) k = k\<lparr>kst := (kst k)\<lparr>sched := s1\<rparr>\<rparr>"
    by (simp add: set_slot_def s1_def marked_def)
  have "out ?k (rbind (print ''killed pid '' ?k) (\<lambda>k. rbind (print_dec n k) (print ''\<newline>'')))"
    using shell_invD(3) [OF s(2)] by (intro out_rbind outs)
  then obtain k' where k': "rbind (print ''killed pid '' ?k) (\<lambda>k. rbind (print_dec n k) (print ''\<newline>'')) = Inr k'"
    "screen_ok k'" "same_but_console ?k k'" by (auto simp: out_def)
  have "cmd_kill args k = Inr k'" using n i s(1) k'(1) by (simp add: cmd_kill_def k1)
  moreover have "sched (kst k') = s" "kbitmap k' = bm" "kmem k' = kmem k" "kpml4 k' = kpml4 k" "knext_pid k' = knext_pid k"
    using k'(3) by (auto simp: same_but_console_def)
  ultimately show ?thesis using s(3-5) shell_inv_console [OF s(2) k'(3,2)] by auto
qed

lemma typed_ok: "shell_inv k \<Longrightarrow> typed k = Inr (take (klen k) (kline k))"
  using shell_invD(1) [of k] by (simp add: typed_def kernel_ok_def)

text \<open>The word that \<^verbatim>\<open>execute\<close> takes as the command.\<close>

definition command_word :: "kernel \<Rightarrow> u8 list" where
  "command_word k = fst (split_first_word (trim (take (klen k) (kline k))))"

lemma shell_inv_line: "shell_inv k \<Longrightarrow> length l = BUF_LEN \<Longrightarrow> n \<le> BUF_LEN \<Longrightarrow> shell_inv (k\<lparr>kline := l, klen := n\<rparr>)"
  by (simp add: shell_inv_def kernel_inv_def kernel_ok_def users_ok_def screen_ok_def)

lemma shell_inv_len: "shell_inv k \<Longrightarrow> n \<le> BUF_LEN \<Longrightarrow> shell_inv (k\<lparr>klen := n\<rparr>)"
  using shell_inv_line [of k "kline k" n] by (auto simp: shell_inv_def kernel_inv_def kernel_ok_def)

text \<open>A key other than Enter edits the line; the line is what has been typed.\<close>

definition edit :: "u8 \<Rightarrow> u8 list \<Rightarrow> u8 list" where
  "edit ch line = (if ch = 8 then butlast line else if length line < BUF_LEN then line @ [ch] else line)"

lemma on_char_edit:
  assumes inv: "shell_inv k" and r: "kready k" and ch: "ch \<noteq> 10"
  shows "\<exists>k' l n. on_char prog ch k = Inr (Done k') \<and> shell_inv k' \<and> same_but_console (k\<lparr>kline := l, klen := n\<rparr>) k'
    \<and> take (klen k') (kline k') = edit ch (take (klen k) (kline k))"
proof -
  have len: "length (kline k) = BUF_LEN" "klen k \<le> BUF_LEN" using shell_invD(1) [OF inv] by (simp_all add: kernel_ok_def)
  have fin: "\<exists>k'. returns x = Inr (Done k') \<and> shell_inv k' \<and> same_but_console k1 k'" if "shell_inv k1" "out k1 x" for k1 x
    using that shell_inv_console by (auto simp: out_def returns_def)
  have same: "same_but_console (k\<lparr>kline := kline k, klen := klen k\<rparr>) k" by simp
  consider (erase) "ch = 8" "klen k > 0" | (none) "ch = 8" "klen k = 0" | (full) "ch \<noteq> 8" "klen k = BUF_LEN"
    | (append) "ch \<noteq> 8" "klen k < BUF_LEN" using len(2) by linarith
  then show ?thesis
  proof cases
    case erase
    let ?k1 = "k\<lparr>klen := klen k - 1\<rparr>"
    have inv1: "shell_inv ?k1" using len by (intro shell_inv_len [OF inv]) simp
    obtain k' where "returns (with_console backspace ?k1) = Inr (Done k')" "shell_inv k'" "same_but_console ?k1 k'"
      using fin [OF inv1 outs(5) [OF shell_invD(3) [OF inv1]]] by blast
    moreover have "take (klen k - 1) (kline k) = butlast (take (klen k) (kline k))" using len by (simp add: butlast_take)
    ultimately show ?thesis using erase r
      by (intro exI [of _ k'] exI [of _ "kline k"] exI [of _ "klen k - 1"]) (auto simp: on_char_def edit_def same_but_console_def)
  next
    case none
    then have "on_char prog ch k = Inr (Done k)" "take (klen k) (kline k) = edit ch (take (klen k) (kline k))"
      using r by (simp_all add: on_char_def edit_def)
    then show ?thesis using inv same by metis
  next
    case full
    then have "on_char prog ch k = Inr (Done k)" "take (klen k) (kline k) = edit ch (take (klen k) (kline k))"
      using r ch len by (simp_all add: on_char_def edit_def)
    then show ?thesis using inv same by metis
  next
    case append
    let ?k1 = "k\<lparr>kline := (kline k)[klen k := ch], klen := klen k + 1\<rparr>"
    have inv1: "shell_inv ?k1" using len append by (intro shell_inv_line [OF inv]) simp_all
    obtain k' where "returns (with_console (write_byte (kfont ?k1) ch) ?k1) = Inr (Done k')" "shell_inv k'" "same_but_console ?k1 k'"
      using fin [OF inv1 outs(6) [OF shell_invD(3) [OF inv1]]] by blast
    moreover have "take (klen k + 1) ((kline k)[klen k := ch]) = take (klen k) (kline k) @ [ch]"
      using len append by (simp add: take_Suc_conv_app_nth)
    ultimately show ?thesis using append r ch len
      by (intro exI [of _ k'] exI [of _ "(kline k)[klen k := ch]"] exI [of _ "klen k + 1"])
        (auto simp: on_char_def edit_def same_but_console_def Let_def)
  qed
qed

section \<open>Commands\<close>

text \<open>
  A step that returns and keeps an invariant, and a command that does so or stops the machine.
\<close>

definition good :: "(kernel \<Rightarrow> bool) \<Rightarrow> kernel res \<Rightarrow> bool" where
  "good I x \<longleftrightarrow> (\<exists>k'. x = Inr k' \<and> I k')"

definition fine :: "(kernel \<Rightarrow> bool) \<Rightarrow> outcome res \<Rightarrow> bool" where
  "fine I x \<longleftrightarrow> (\<exists>k'. x = Inr (Done k') \<and> I k') \<or> (\<exists>k'. x = Inr (Stopped k'))"

lemma fine_returns: "good I x \<Longrightarrow> fine I (returns x)"
  by (auto simp: good_def fine_def returns_def)

text \<open>
  What an invariant must allow to be kept by every command: output, changes of the files and of the line, the end
  of a process, and, where \<open>spawnable\<close> holds, a new one.
\<close>

locale command_invariant =
  fixes I :: "kernel \<Rightarrow> bool" and prog :: "string \<Rightarrow> u64" and spawnable :: "kernel \<Rightarrow> bool"
  assumes inv_shell: "I k \<Longrightarrow> shell_inv k"
    and inv_console: "I k \<Longrightarrow> same_but_console k k' \<Longrightarrow> screen_ok k' \<Longrightarrow> I k'"
    and inv_fs: "I k \<Longrightarrow> dir_ok fs \<Longrightarrow> length (inodes (kfs k)) \<le> length (inodes fs) \<Longrightarrow> I (k\<lparr>kfs := fs\<rparr>)"
    and inv_len: "I k \<Longrightarrow> n \<le> BUF_LEN \<Longrightarrow> I (k\<lparr>klen := n\<rparr>)"
    and inv_kill: "I k \<Longrightarrow> parse_dec args = Some m \<Longrightarrow> position (has_pid m) (processes (sched (kst k))) = Some i
      \<Longrightarrow> processes (sched (kst k)) ! i = Some p \<Longrightarrow> \<not> is_dead p \<Longrightarrow> good I (cmd_kill args k)"
    and inv_spawn: "I k \<Longrightarrow> spawnable k \<Longrightarrow> good I (cmd_spawn prog args k)"
    and spawnable_console: "spawnable k \<Longrightarrow> same_but_console k k' \<Longrightarrow> spawnable k'"
begin

lemma good_out: "I k \<Longrightarrow> out k x \<Longrightarrow> good I x"
  using inv_console by (auto simp: good_def out_def)

lemma inv_screen: "I k \<Longrightarrow> screen_ok k"
  using inv_shell shell_invD(3) by blast

lemma good_print: "I k \<Longrightarrow> good I (print s k)"
  using good_out outs(1) inv_screen by blast

lemma file_commands:
  assumes "I k"
  shows "good I (cmd_write args k)" "good I (cmd_create args k)" "good I (cmd_rm args k)"
proof -
  have "dir_ok (kfs k)" using shell_invD(1) [OF inv_shell [OF assms]] by (rule kernel_ok_dir)
  note st = fs_steps [OF this]
  note si = inv_fs [OF assms]
  show "good I (cmd_write args k)" "good I (cmd_create args k)" "good I (cmd_rm args k)"
    using st si assms
    by (auto simp: cmd_write_def cmd_create_def cmd_rm_def Let_def split: prod.split intro!: good_print)
      (metis fst_conv)+
qed

lemma cmd_mem_good:
  assumes "I k"
  shows "good I (cmd_mem k)"
proof -
  let ?free = "free_pages (kbitmap k)"
  have "card (free_set (kbitmap k)) \<le> card {..<64 * BITMAP_LEN}"
    by (intro card_mono) (auto simp: free_set_def)
  then have "unat ?free \<le> 2097152" using free_pages_card [OF shell_invD(4) [OF inv_shell [OF assms]]] by (simp add: BITMAP_LEN_def)
  then have "pmul ?free 4096 = Inr (?free * 4096)" by (simp add: pmul_def)
  then show ?thesis unfolding cmd_mem_def Let_def using inv_screen [OF assms]
    by (intro good_out [OF assms]) (auto intro!: out_rbind outs)
qed

lemma cmd_kill_good:
  assumes "I k"
  shows "good I (cmd_kill args k)"
proof (cases "parse_dec args")
  case n: (Some n)
  show ?thesis
  proof (cases "position (has_pid n) (processes (sched (kst k)))")
    case i: (Some i)
    then obtain p where p: "processes (sched (kst k)) ! i = Some p" using has_pid_position(1) by blast
    show ?thesis
    proof (cases "is_dead p")
      case False
      then show ?thesis using inv_kill [OF assms n i p] by blast
    qed (use n i p good_print [OF assms] in \<open>simp add: cmd_kill_def\<close>)
  qed (use n good_print [OF assms] in \<open>simp add: cmd_kill_def\<close>)
qed (use good_print [OF assms] in \<open>simp add: cmd_kill_def\<close>)

lemma stop_commands:
  assumes "I k"
  shows "fine I (cmd_shutdown k)" "fine I (cmd_reboot k)"
proof -
  have p: "\<exists>k'. print s k = Inr k'" for s using good_print [OF assms] by (auto simp: good_def)
  show "fine I (cmd_reboot k)" using p [of "''rebooting...\<newline>''"] by (auto simp: cmd_reboot_def fine_def Let_def)
  show "fine I (cmd_shutdown k)"
  proof (cases "kpm1a k = 0")
    case True
    then show ?thesis using fine_returns [OF good_print [OF assms]] by (simp add: cmd_shutdown_def)
  next
    case False
    then show ?thesis using p [of "''powering off...\<newline>''"] by (auto simp: cmd_shutdown_def fine_def Let_def)
  qed
qed

lemma run_command_fine:
  assumes "I k" "cmd = str ''spawn'' \<longrightarrow> spawnable k"
  shows "fine I (run_command prog cmd args k)"
proof -
  note S = inv_screen [OF assms(1)]
  note o = cmd_outputs [OF S, THEN good_out [OF assms(1)], THEN fine_returns]
    outs(4) [OF S, THEN good_out [OF assms(1)], THEN fine_returns]
    file_commands [OF assms(1), THEN fine_returns] cmd_mem_good [OF assms(1), THEN fine_returns]
    cmd_kill_good [OF assms(1), THEN fine_returns] stop_commands [OF assms(1)]
  show ?thesis
  proof (cases "cmd = str ''spawn''")
    case True
    then have "fine I (returns (cmd_spawn prog args k))" using assms by (intro fine_returns inv_spawn) simp_all
    then show ?thesis unfolding run_command_def using o by (simp only: if_False if_True simp_thms split: if_split)
  next
    case False
    then show ?thesis unfolding run_command_def using o by (simp only: if_False simp_thms split: if_split)
  qed
qed

lemma execute_fine:
  assumes "I k" "command_word k = str ''spawn'' \<longrightarrow> spawnable k"
  shows "fine I (execute prog k)"
proof (cases "trim (take (klen k) (kline k)) = []")
  case True
  then show ?thesis using assms(1) by (simp add: execute_def typed_ok inv_shell fine_def)
next
  case False
  then show ?thesis using run_command_fine [OF assms] typed_ok [OF inv_shell [OF assms(1)]]
    by (simp add: execute_def command_word_def split_beta Let_def)
qed

lemma on_char_enter:
  assumes inv: "I k" and r: "kready k" and w: "command_word k = str ''spawn'' \<longrightarrow> spawnable k"
  shows "(\<exists>k'. on_char prog 10 k = Inr (Done k') \<and> I k' \<and> klen k' = 0) \<or> (\<exists>k'. on_char prog 10 k = Inr (Stopped k'))"
proof -
  obtain k1 where k1: "with_console (write_byte (kfont k) 10) k = Inr k1" "screen_ok k1" "same_but_console k k1"
    using outs(6) [OF inv_screen [OF inv], of 10] by (auto simp: out_def)
  have inv1: "I k1" by (rule inv_console [OF inv k1(3,2)])
  have "command_word k1 = command_word k" using k1(3) by (auto simp: command_word_def same_but_console_def)
  then have "fine I (execute prog k1)" using execute_fine [OF inv1] w spawnable_console [OF _ k1(3)] by simp
  then consider k2 where "execute prog k1 = Inr (Done k2)" "I k2" | k2 where "execute prog k1 = Inr (Stopped k2)"
    by (auto simp: fine_def)
  then show ?thesis
  proof cases
    case 1
    have inv2: "I (k2\<lparr>klen := 0\<rparr>)" using 1(2) by (rule inv_len) simp
    obtain k3 where k3: "prompt (k2\<lparr>klen := 0\<rparr>) = Inr k3" "screen_ok k3" "same_but_console (k2\<lparr>klen := 0\<rparr>) k3"
      using outs(1) [OF inv_screen [OF inv2]] by (auto simp: out_def prompt_def)
    then show ?thesis using 1(1) k1(1) r inv_console [OF inv2 k3(3,2)]
      by (auto simp: on_char_def returns_def same_but_console_def)
  qed (use k1(1) r in \<open>simp add: on_char_def\<close>)
qed

end

section \<open>Starting a process\<close>

lemma cmd_spawn_made:
  assumes "kernel_ok k" "spawn_choice prog args = Some (entry, gs)" "count (sched (kst k)) < 64"
    and "tables_ok (kmem k) (kbitmap k) (kpml4 k)" "11 \<le> card (free_set (kbitmap k))" "unat (knext_pid k) < 2 ^ 27"
    and "\<forall>v \<in> user_pages (knext_pid k). \<not> in_huge (kmem k) (kpml4 k) v"
    and "KERNEL_VIRT \<le> entry" "unat (entry - KERNEL_VIRT) + 0x2000 \<le> 2 ^ 52"
  shows "\<exists>k' proc m' bm' s' i. cmd_spawn prog args k = Inr k' \<and> screen_ok k'
    \<and> same_but_console (k\<lparr>knext_pid := knext_pid k + 1, kmem := m', kbitmap := bm', kst := (kst k)\<lparr>sched := s'\<rparr>\<rparr>) k'
    \<and> process_made (kmem k) (kbitmap k) (kpml4 k) (knext_pid k) entry proc m' bm' \<and> syscall_mask proc = SYSCALL_MASK \<and> grants proc = gs
    \<and> i < 64 \<and> processes (sched (kst k)) ! i = None \<and> (\<forall>j<i. processes (sched (kst k)) ! j \<noteq> None)
    \<and> processes s' = (processes (sched (kst k)))[i := Some proc] \<and> count s' = count (sched (kst k)) + 1 \<and> sched_ok s'"
proof -
  have s: "sched_ok (sched (kst k))" "screen_ok k" using assms(1) by (simp_all add: kernel_ok_def)
  obtain proc m' bm' where p: "process_new (kpml4 k) (kcr3 k) (knext_pid k) SYSCALL_MASK 0 entry gs (kmem k, kbitmap k) = Inr (proc, m', bm')"
    "process_made (kmem k) (kbitmap k) (kpml4 k) (knext_pid k) entry proc m' bm'" "syscall_mask proc = SYSCALL_MASK" "grants proc = gs"
    using process_new_spec [OF assms(4-9), of "kcr3 k" SYSCALL_MASK 0 gs] by blast
  obtain i s' where a: "add_process proc (sched (kst k)) = Inr s'" "i < 64" "processes (sched (kst k)) ! i = None"
    "\<forall>j<i. processes (sched (kst k)) ! j \<noteq> None" "processes s' = (processes (sched (kst k)))[i := Some proc]"
    "count s' = Suc (count (sched (kst k)))" "sched_ok s'"
    using add_process_spec [OF s(1), of proc] assms(3) by (auto split: if_splits)
  let ?k = "k\<lparr>knext_pid := knext_pid k + 1, kmem := m', kbitmap := bm', kst := (kst k)\<lparr>sched := s'\<rparr>\<rparr>"
  have "screen_ok ?k" using s(2) by (simp add: screen_ok_def)
  then have "out ?k (rbind (print ''spawned pid '' ?k) (\<lambda>k'. rbind (print_dec (knext_pid k) k') (print ''\<newline>'')))"
    by (intro out_rbind outs)
  then obtain k' where k': "rbind (print ''spawned pid '' ?k) (\<lambda>k'. rbind (print_dec (knext_pid k) k') (print ''\<newline>'')) = Inr k'"
    "same_but_console ?k k'" "screen_ok k'" by (auto simp: out_def)
  have "next_pid (knext_pid k) = Inr (knext_pid k, knext_pid k + 1)" using assms(6) by (simp add: next_pid_def padd_def)
  then have "cmd_spawn prog args k = Inr k'"
    using assms(2,3) p(1) a(1) k'(1) by (simp add: cmd_spawn_def)
  then show ?thesis using k'(2,3) a p(2-4) by (intro exI [of _ k'] exI [of _ proc] exI [of _ m'] exI [of _ bm'] exI [of _ s'] exI [of _ i]) simp
qed

lemma sample_shell_inv: "shell_inv sample_kernel"
  using sample_kernel_inv sample_bitmap_ok sample_kimage_ok by (simp add: shell_inv_def sample_kernel_def)

section \<open>Properties\<close>

text \<open>
  C24. \<^verbatim>\<open>parse_dec\<close> accepts exactly the non-empty strings of decimal digits whose value fits in 64 bits,
  and returns that value: no overflow goes unnoticed.
\<close>

theorem parse_dec_correct:
  "parse_dec s = Some n \<longleftrightarrow> s \<noteq> [] \<and> (\<forall>c \<in> set s. 48 \<le> c \<and> c \<le> 57) \<and> dec_value s = unat n"
proof -
  have "(of_nat v :: u64) = n \<longleftrightarrow> v = unat n" if "v < 2 ^ 64" for v
    using that unat_of_nat_small [of v, where 'a = 64] by auto
  moreover have "unat n < 2 ^ 64" by simp
  ultimately show ?thesis
    by (auto simp: parse_dec_def parse_dec_loop_spec dec_value_def is_ascii_digit_def)
qed

theorem parse_dec_correct_witness: "parse_dec [49, 50, 48] = Some 120"
  by (simp add: parse_dec_correct dec_value_def dec_step_def)

text \<open>
  C25. The line buffer behaves as the line on the screen: a key other than Enter appends its character
  while fewer than 128 are typed, Backspace removes the last one, a full or an empty line ignores
  them, and apart from the buffer and the console the key changes nothing.
\<close>

theorem keys_edit_the_line:
  assumes "shell_inv k" "kready k" "ch \<noteq> 10"
  shows "\<exists>k' l n. on_char prog ch k = Inr (Done k') \<and> same_but_console (k\<lparr>kline := l, klen := n\<rparr>) k'
    \<and> take (klen k') (kline k') = (if ch = 8 then butlast (take (klen k) (kline k))
        else if klen k < 128 then take (klen k) (kline k) @ [ch] else take (klen k) (kline k))"
proof -
  have "length (kline k) = 128" "klen k \<le> 128" using shell_invD(1) [OF assms(1)] by (simp_all add: kernel_ok_def BUF_LEN_def)
  then have e: "edit ch (take (klen k) (kline k)) = (if ch = 8 then butlast (take (klen k) (kline k))
      else if klen k < 128 then take (klen k) (kline k) @ [ch] else take (klen k) (kline k))"
    by (simp add: edit_def BUF_LEN_def)
  show ?thesis using on_char_edit [OF assms, of prog] unfolding e by blast
qed

theorem keys_edit_the_line_witness:
  "\<exists>k'. on_char (\<lambda>_. 0) 97 sample_kernel = Inr (Done k') \<and> take (klen k') (kline k') = [97]"
  using keys_edit_the_line [OF sample_shell_inv, of 97 "\<lambda>_. 0"] by (auto simp: sample_kernel_def)

text \<open>
  C26. \<^verbatim>\<open>kill <pid>\<close> ends the process: the first slot with that pid is freed together with both of its
  stack pages (as far as they are outside the reserved ranges), or only marked dead when it is the
  current process; every other slot stays as it was, except that other dead processes are reaped; and
  the kernel invariant holds.
\<close>

theorem kill_frees_process:
  assumes "shell_inv k" "parse_dec args = Some n"
    and "position (has_pid n) (processes (sched (kst k))) = Some i" "processes (sched (kst k)) ! i = Some p" "\<not> is_dead p"
  shows "\<exists>k' s'. cmd_kill args k = Inr k' \<and> shell_inv k' \<and> s' = sched (kst k') \<and> pid p = n
    \<and> (i \<noteq> current (sched (kst k)) \<longrightarrow> processes s' ! i = None
        \<and> freeable (kimg k) {page_no (kernel_stack_phys p), page_no (user_stack_phys p)} \<subseteq> free_set (kbitmap k'))
    \<and> (i = current (sched (kst k)) \<longrightarrow> processes s' ! i = Some (p\<lparr>state := Dead\<rparr>))
    \<and> (\<forall>j<64. j \<noteq> i \<longrightarrow> (\<forall>q. processes (sched (kst k)) ! j = Some q \<longrightarrow> \<not> is_dead q \<or> j = current (sched (kst k)))
         \<longrightarrow> processes s' ! j = processes (sched (kst k)) ! j)"
proof -
  let ?s = "sched (kst k)" and ?s1 = "marked i p (sched (kst k))"
  have len: "length (processes ?s) = 64" using shell_invD(6) [OF assms(1)] by (simp add: sched_ok_def)
  have i: "i < 64" "pid p = n" using has_pid_position [OF assms(3)] assms(4) len by auto
  obtain k' where k': "cmd_kill args k = Inr k'" "shell_inv k'"
    "\<forall>j<64. processes (sched (kst k')) ! j = (if j \<in> reaped ?s1 {..<64} then None else processes ?s1 ! j)"
    "free_set (kbitmap k') = free_set (kbitmap k) \<union> freeable (kimg k) (stack_pages ?s1 (reaped ?s1 {..<64}))"
    using cmd_kill_live [OF assms] by blast
  have slots: "processes ?s1 ! j = (if j = i then Some (p\<lparr>state := Dead\<rparr>) else processes ?s ! j)" if "j < 64" for j
    using that len by (simp add: marked_def)
  have "i \<in> reaped ?s1 {..<64} \<longleftrightarrow> i \<noteq> current ?s"
    using i(1) slots [of i] by (auto simp: reaped_def marked_def is_dead_def)
  moreover have "{page_no (kernel_stack_phys p), page_no (user_stack_phys p)} \<subseteq> stack_pages ?s1 (reaped ?s1 {..<64})"
    if "i \<in> reaped ?s1 {..<64}"
    using that slots [OF i(1)] by (force simp: stack_pages_def)
  moreover have "j \<notin> reaped ?s1 {..<64}" if "j < 64" "j \<noteq> i"
      "\<forall>q. processes ?s ! j = Some q \<longrightarrow> \<not> is_dead q \<or> j = current ?s" for j
    using that slots [of j] by (auto simp: reaped_def marked_def)
  ultimately show ?thesis using k' i slots by (auto simp: freeable_def)
qed

theorem kill_frees_process_witness:
  "\<exists>k'. cmd_kill [49] sample_kernel = Inr k' \<and> shell_inv k' \<and> processes (sched (kst k')) ! 0 = Some (sample_user\<lparr>state := Dead\<rparr>)"
proof -
  have "parse_dec [49] = Some 1"
    by (simp add: parse_dec_def is_ascii_digit_def checked_mul_def checked_add_def)
  moreover have "position (has_pid 1) (processes (sched (kst sample_kernel))) = Some 0"
    "processes (sched (kst sample_kernel)) ! 0 = Some sample_user" "\<not> is_dead sample_user" "current (sched (kst sample_kernel)) = 0"
    by (simp_all add: sample_kernel_def has_pid_def sample_user_def sample_process_def is_dead_def)
  ultimately show ?thesis using kill_frees_process [OF sample_shell_inv, of "[49]" 1 0 sample_user] by auto
qed



end
