(* ===== verification/Ownership.thy ===== *)
theory Ownership
  imports Shell_Safety
begin

text \<open>
  Who owns which page of physical memory. Page tables, free pages, the code of the programs and the two stacks of each
  process never overlap; a process sees only its own user stack and code. Every event of the running system keeps
  this, so that \<^verbatim>\<open>spawn\<close> finds sound page tables at any time.
\<close>

section \<open>Invariant\<close>

definition frames :: "process \<Rightarrow> nat set" where
  "frames p = {page_no (kernel_stack_phys p), page_no (user_stack_phys p)}"

text \<open>The part of a process that decides what it owns.\<close>

definition ident :: "process \<Rightarrow> u64 \<times> (u64 \<times> u64) list \<times> u64 \<times> u64" where
  "ident p = (pid p, user_regions p, kernel_stack_phys p, user_stack_phys p)"

text \<open>\<open>code\<close> is the set of pages with the code of the programs.\<close>

definition owns :: "nat set \<Rightarrow> mem \<Rightarrow> bitmap \<Rightarrow> u64 \<Rightarrow> u64 \<Rightarrow> process \<Rightarrow> bool" where
  "owns code m bm pml4 n p \<longleftrightarrow> unat (pid p) < unat n
     \<and> user_regions p = [(code_virt (pid p), code_virt (pid p) + 0x2000), (stack_virt (pid p), stack_virt (pid p) + 0x1000)]
     \<and> frames p \<inter> (code \<union> free_set bm \<union> table_pages m pml4) = {}
     \<and> (\<forall>a \<in> regions (pid p). \<exists>pa. translate m pml4 a = Some pa \<and> page_no pa \<in> insert (page_no (user_stack_phys p)) code)"

definition owned :: "nat set \<Rightarrow> mem \<Rightarrow> bitmap \<Rightarrow> u64 \<Rightarrow> u64 \<Rightarrow> process option list \<Rightarrow> bool" where
  "owned code m bm pml4 n ps \<longleftrightarrow> tables_ok m bm pml4 \<and> code \<inter> (free_set bm \<union> table_pages m pml4) = {} \<and> unat n \<le> 2 ^ 27
     \<and> (\<forall>p v. unat p < 2 ^ 27 \<longrightarrow> v \<in> user_pages p \<longrightarrow> \<not> in_huge m pml4 v)
     \<and> (\<forall>p. Some p \<in> set ps \<longrightarrow> owns code m bm pml4 n p)
     \<and> (\<forall>i j p q. i < j \<longrightarrow> j < length ps \<longrightarrow> ps ! i = Some p \<longrightarrow> ps ! j = Some q \<longrightarrow> pid p \<noteq> pid q \<and> frames p \<inter> frames q = {})"

section \<open>Steps that take nothing\<close>

lemma tables_ok_frame:
  assumes "tables_ok m bm pml4" "\<forall>x. page_no x \<in> table_pages m pml4 \<longrightarrow> m' x = m x"
    and "bitmap_ok bm'" "0 \<notin> free_set bm'" "free_set bm' \<inter> table_pages m pml4 = {}"
  shows "tables_ok m' bm' pml4"
proof -
  note D = tables_okD [OF assms(1)]
  have t: "table_at m' pml4 q = table_at m pml4 q" if "path q" for q
    using walk_frame [OF D(3) assms(2), of q] that by (auto simp: path_def)
  have "read64 m' (entry_addr pml4 k) = read64 m (entry_addr pml4 k)" if "k < 512" for k
    using table_pagesI [of "[]" m pml4 pml4] assms(2) that by (intro read64_same_page [OF D(3)]) (auto simp: path_def)
  moreover have "page_no a \<notin> free_set bm'" if "path q" "table_at m pml4 q = Some a" for q a
    using table_pagesI [OF that] assms(5) by blast
  ultimately show ?thesis using D assms(3,4) t unfolding tables_ok_def by simp
qed

lemma in_huge_frame:
  assumes "paged pml4" "\<forall>x. page_no x \<in> table_pages m pml4 \<longrightarrow> m' x = m x"
  shows "in_huge m' pml4 v = in_huge m pml4 v"
  using walk_frame [OF assms, of "indices v"] indices_walk by (intro same_leaf_huge) auto

text \<open>Memory changes outside the tables; processes may go, and only their pages may become free.\<close>

definition gone :: "process option list \<Rightarrow> process option list \<Rightarrow> nat set" where
  "gone ps ps' = (\<Union>j \<in> {j. j < length ps \<and> ps' ! j = None}. case ps ! j of Some p \<Rightarrow> frames p | None \<Rightarrow> {})"

definition survivors :: "process option list \<Rightarrow> process option list \<Rightarrow> bool" where
  "survivors ps ps' \<longleftrightarrow> length ps' = length ps
     \<and> (\<forall>j<length ps. ps' ! j \<noteq> None \<longrightarrow> map_option ident (ps' ! j) = map_option ident (ps ! j))"

lemma survivorsD: "survivors ps ps' \<Longrightarrow> j < length ps \<Longrightarrow> ps' ! j = Some p \<Longrightarrow> \<exists>q. ps ! j = Some q \<and> ident q = ident p"
  by (cases "ps ! j") (fastforce simp: survivors_def)+

lemma ident_eqD: "ident q = ident p \<Longrightarrow> pid q = pid p \<and> user_regions q = user_regions p \<and> frames q = frames p
    \<and> user_stack_phys q = user_stack_phys p"
  by (simp add: ident_def frames_def)

lemma owned_step:
  assumes o: "owned code m bm pml4 n ps" and m: "\<forall>x. page_no x \<in> table_pages m pml4 \<longrightarrow> m' x = m x"
    and s: "survivors ps ps'" and bm: "bitmap_ok bm'" "0 \<notin> free_set bm'" "free_set bm' \<subseteq> free_set bm \<union> gone ps ps'"
  shows "owned code m' bm' pml4 n ps'"
proof -
  have ok: "tables_ok m bm pml4" and own: "\<And>p. Some p \<in> set ps \<Longrightarrow> owns code m bm pml4 n p"
    and apart: "\<And>i j p q. i < j \<Longrightarrow> j < length ps \<Longrightarrow> ps ! i = Some p \<Longrightarrow> ps ! j = Some q \<Longrightarrow> pid p \<noteq> pid q \<and> frames p \<inter> frames q = {}"
    using o by (auto simp: owned_def)
  note pml4 = tables_okD(3) [OF ok]
  have tp: "table_pages m' pml4 = table_pages m pml4" by (rule table_pages_frame [OF pml4 m])
  have gone: "\<exists>j p. j < length ps \<and> ps ! j = Some p \<and> ps' ! j = None \<and> x \<in> frames p \<and> owns code m bm pml4 n p"
    if "x \<in> gone ps ps'" for x
    using that own by (fastforce simp: gone_def in_set_conv_nth split: option.splits)
  have free: "free_set bm' \<inter> (code \<union> table_pages m pml4) = {}"
  proof (intro equals0I)
    fix x assume x: "x \<in> free_set bm' \<inter> (code \<union> table_pages m pml4)"
    then consider "x \<in> free_set bm" | "x \<in> gone ps ps'" using bm(3) by blast
    then show False
    proof cases
      case 1
      then show ?thesis using x o tables_okD(4) [OF ok] by (auto simp: owned_def table_pages_def)
    next
      case 2
      then show ?thesis using gone [OF 2] x by (auto simp: owns_def)
    qed
  qed
  have each: "owns code m' bm' pml4 n p" if p: "Some p \<in> set ps'" for p
  proof -
    obtain j where "j < length ps'" "ps' ! j = Some p" using p by (auto simp: in_set_conv_nth)
    then have j: "j < length ps" "ps' ! j = Some p" using s by (simp_all add: survivors_def)
    then obtain q where q: "ps ! j = Some q" "ident q = ident p" using survivorsD [OF s] by blast
    note e = ident_eqD [OF q(2)]
    have "owns code m bm pml4 n q" using own j(1) q(1) by (metis nth_mem)
    moreover have "frames q \<inter> gone ps ps' = {}"
    proof (intro equals0I)
      fix x assume x: "x \<in> frames q \<inter> gone ps ps'"
      then obtain i r where i: "i < length ps" "ps ! i = Some r" "ps' ! i = None" "x \<in> frames r" using gone by blast
      then have "i \<noteq> j" using j(2) by auto
      then show False using apart [of i j r q] apart [of j i q r] i j(1) q(1) x by (cases "i < j") auto
    qed
    ultimately show ?thesis
      using e bm(3) translate_frame [OF pml4 m] unfolding owns_def tp by auto
  qed
  have "pid p \<noteq> pid q \<and> frames p \<inter> frames q = {}" if ij: "i < j" "j < length ps'" "ps' ! i = Some p" "ps' ! j = Some q" for i j p q
  proof -
    have l: "j < length ps" "i < length ps" using ij s by (simp_all add: survivors_def)
    obtain p0 q0 where "ps ! i = Some p0" "ident p0 = ident p" "ps ! j = Some q0" "ident q0 = ident q"
      using survivorsD [OF s l(2) ij(3)] survivorsD [OF s l(1) ij(4)] by blast
    then show ?thesis using apart [OF ij(1) l(1)] ident_eqD by metis
  qed
  moreover have "tables_ok m' bm' pml4" using free by (intro tables_ok_frame [OF ok m bm(1,2)]) blast
  ultimately show ?thesis
    using o free each tp in_huge_frame [OF pml4 m] unfolding owned_def by auto
qed

section \<open>Creating a process\<close>

lemma unat_or_offset:
  assumes "paged x"
  shows "unat (x OR (w AND mask 12)) = unat x + unat w mod 4096"
proof -
  have "unat (x AND mask 12) = 0" using assms by (simp only: unat_and_mask) (simp add: paged_def)
  then have z: "x AND mask 12 = 0" by (simp only: unsigned_eq_0_iff)
  have o: "unat (w AND mask 12) = unat w mod 4096" using unat_and_mask [of w 12] by simp
  have "x AND (w AND mask 12) = (x AND mask 12) AND w" by (simp only: ac_simps)
  then have "x OR (w AND mask 12) = x + (w AND mask 12)" using z by (simp add: disjunctive_add_eq_or)
  moreover have "unat x + unat w mod 4096 < 2 ^ 64"
    using assms aligned_room [of x 4096 "unat w mod 4096"] by (simp add: paged_def)
  ultimately show ?thesis using unat_add_small [of x "w AND mask 12"] o by simp
qed

lemma page_no_or_offset: "paged x \<Longrightarrow> page_no (x OR (w AND mask 12)) = page_no x"
  by (simp add: page_no_def unat_or_offset paged_def div_add1_eq)

text \<open>The pages an entry point is mapped from.\<close>

definition code_frames :: "u64 \<Rightarrow> nat set" where
  "code_frames entry = {page_no (entry - KERNEL_VIRT), Suc (page_no (entry - KERNEL_VIRT))}"

lemma code_page:
  assumes "unat (entry - KERNEL_VIRT) + 0x2000 \<le> 2 ^ 52"
  defines "f \<equiv> (entry - KERNEL_VIRT) AND NOT 0xFFF"
  shows "paged f" "paged (f + 0x1000)" "page_no f = page_no (entry - KERNEL_VIRT)"
    "page_no (f + 0x1000) = Suc (page_no (entry - KERNEL_VIRT))"
proof -
  have uf: "unat f = page_no (entry - KERNEL_VIRT) * 4096" unfolding f_def page_no_def by (rule unat_page_base)
  have "unat f \<le> unat (entry - KERNEL_VIRT)" unfolding uf page_no_def by simp
  then have "unat (f + 0x1000) = unat f + 0x1000" using assms(1) unat_plus_nat [of f 4096] by simp
  then show "paged f" "paged (f + 0x1000)" "page_no f = page_no (entry - KERNEL_VIRT)"
    "page_no (f + 0x1000) = Suc (page_no (entry - KERNEL_VIRT))"
    unfolding paged_def page_no_def [of f] page_no_def [of "f + _"] by (simp_all add: uf)
qed

lemma region_bytes_regions:
  "user_regions p = [(code_virt q, code_virt q + 0x2000), (stack_virt q, stack_virt q + 0x1000)] \<Longrightarrow> region_bytes p = regions q"
  by (simp add: region_bytes_def regions_def)

lemma pages_in_regions:
  assumes "unat p < 2 ^ 27" "v \<in> user_pages p"
  shows "v \<in> regions p"
proof -
  have "unat (code_virt p + 0x2000) = unat (code_virt p) + 0x2000" "unat (stack_virt p + 0x1000) = unat (stack_virt p) + 0x1000"
    "unat (code_virt p + 0x1000) = unat (code_virt p) + 0x1000"
    using assms(1) unat_plus_nat [of "code_virt p" "0x2000"] unat_plus_nat [of "stack_virt p" "0x1000"]
      unat_plus_nat [of "code_virt p" "0x1000"] by (simp_all add: region_arith)
  then show ?thesis using assms(2)
    by (auto simp: regions_def user_pages_def word_le_nat_alt word_less_nat_alt)
qed

text \<open>What the MMU gives a new process: three pages, one frame each.\<close>

lemma made_space:
  assumes pm: "process_made m bm pml4 p entry proc m' bm'" and p: "unat p < 2 ^ 27"
    and e: "unat (entry - KERNEL_VIRT) + 0x2000 \<le> 2 ^ 52" and apart: "page_no (user_stack_phys proc) \<notin> code_frames entry"
  shows "inj_on (translate m' pml4) (regions p)"
    "\<forall>w \<in> regions p. \<exists>pa. translate m' pml4 w = Some pa \<and> page_no pa \<in> insert (page_no (user_stack_phys proc)) (code_frames entry)"
proof -
  let ?u = "user_stack_phys proc" and ?f = "(entry - KERNEL_VIRT) AND NOT 0xFFF"
  define fr where "fr v = (if v = stack_virt p then ?u else if v = code_virt p then ?f else ?f + 0x1000)" for v
  note c = code_page [OF e]
  have d: "stack_virt p \<noteq> code_virt p" "stack_virt p \<noteq> code_virt p + 0x1000" "code_virt p \<noteq> code_virt p + 0x1000"
    using page_distinct [OF p] by metis+
  have pg: "paged (fr v)" "page_no (fr v) \<in> insert (page_no ?u) (code_frames entry)" if "v \<in> user_pages p" for v
    using pm c that by (auto simp: fr_def user_pages_def code_frames_def process_made_def)
  have inj: "v = v'" if "v \<in> user_pages p" "v' \<in> user_pages p" "page_no (fr v) = page_no (fr v')" for v v'
    using that apart c d unfolding fr_def user_pages_def code_frames_def by (auto split: if_splits)
  have mapped: "user_mapped m' pml4 v (fr v)" if "v \<in> user_pages p" for v
  proof -
    have "user_mapped m' pml4 (stack_virt p) ?u" "user_mapped m' pml4 (code_virt p) ?f"
      "user_mapped m' pml4 (code_virt p + 0x1000) (?f + 0x1000)" using pm unfolding process_made_def by blast+
    then show ?thesis using that d unfolding fr_def user_pages_def by auto
  qed
  have t: "\<exists>v \<in> user_pages p. indices w = indices v \<and> translate m' pml4 w = Some (fr v OR (w AND mask 12))"
    if w: "w \<in> regions p" for w
  proof -
    obtain v where v: "v \<in> user_pages p" "indices w = indices v" using own_region [OF p w] by blast
    then show ?thesis using mapped [OF v(1)] by (auto simp: user_mapped_def)
  qed
  show "inj_on (translate m' pml4) (regions p)"
  proof (rule inj_onI)
    fix w w' assume w: "w \<in> regions p" "w' \<in> regions p" and eq: "translate m' pml4 w = translate m' pml4 w'"
    obtain v v' where v: "v \<in> user_pages p" "indices w = indices v" "translate m' pml4 w = Some (fr v OR (w AND mask 12))"
      and v': "v' \<in> user_pages p" "indices w' = indices v'" "translate m' pml4 w' = Some (fr v' OR (w' AND mask 12))"
      using t [OF w(1)] t [OF w(2)] by blast
    have o: "fr v OR (w AND mask 12) = fr v' OR (w' AND mask 12)" using eq v(3) v'(3) by simp
    then have "page_no (fr v) = page_no (fr v')" using page_no_or_offset [OF pg(1)] v(1) v'(1) by metis
    then have vv: "v = v'" using inj v(1) v'(1) by blast
    have "unat (fr v) + unat w mod 4096 = unat (fr v') + unat w' mod 4096"
      using arg_cong [OF o, of unat] by (simp only: unat_or_offset [OF pg(1) [OF v(1)]] unat_or_offset [OF pg(1) [OF v'(1)]])
    then have "unat w mod 4096 = unat w' mod 4096" using vv by simp
    moreover have "unat w div 4096 = unat w' div 4096"
      using indices_eq_iff [OF region_page(2) [OF p w(1)] region_page(2) [OF p w(2)]] v(2) v'(2) vv by simp
    ultimately have "unat w = unat w'" by (metis div_mult_mod_eq)
    then show "w = w'" by (simp add: word_unat_eq_iff)
  qed
  show "\<forall>w \<in> regions p. \<exists>pa. translate m' pml4 w = Some pa \<and> page_no pa \<in> insert (page_no ?u) (code_frames entry)"
    using t pg page_no_or_offset by metis
qed

text \<open>A process made where memory is owned as it should be, from code that no one else uses.\<close>

definition spawns :: "nat set \<Rightarrow> mem \<Rightarrow> bitmap \<Rightarrow> u64 \<Rightarrow> u64 \<Rightarrow> process option list \<Rightarrow> u64 \<Rightarrow> process \<Rightarrow> mem \<Rightarrow> bitmap \<Rightarrow> bool" where
  "spawns code m bm pml4 n ps entry proc m' bm' \<longleftrightarrow> owned code m bm pml4 n ps \<and> process_made m bm pml4 n entry proc m' bm'
     \<and> unat n < 2 ^ 27 \<and> unat (entry - KERNEL_VIRT) + 0x2000 \<le> 2 ^ 52 \<and> code_frames entry \<subseteq> code"

lemma ownedD:
  assumes "owned code m bm pml4 n ps"
  shows "tables_ok m bm pml4" "code \<inter> (free_set bm \<union> table_pages m pml4) = {}" "free_set bm \<inter> table_pages m pml4 = {}"
    "Some p \<in> set ps \<Longrightarrow> owns code m bm pml4 n p"
    "unat q < 2 ^ 27 \<Longrightarrow> v \<in> user_pages q \<Longrightarrow> \<not> in_huge m pml4 v"
    "i < j \<Longrightarrow> j < length ps \<Longrightarrow> ps ! i = Some p \<Longrightarrow> ps ! j = Some p' \<Longrightarrow> pid p \<noteq> pid p' \<and> frames p \<inter> frames p' = {}"
  using assms tables_okD(4) [of m bm pml4] unfolding owned_def table_pages_def by blast+

lemma spawnsD:
  assumes "spawns code m bm pml4 n ps entry proc m' bm'"
  shows "owned code m bm pml4 n ps" "unat n < 2 ^ 27" "code_frames entry \<subseteq> code" "tables_ok m' bm' pml4" "pid proc = n"
    "frames proc \<subseteq> free_set bm - free_set bm'" "free_set bm' \<subseteq> free_set bm"
    "table_pages m' pml4 \<subseteq> table_pages m pml4 \<union> (free_set bm - free_set bm' - frames proc)"
    "same_outside m m' pml4 (user_pages n)"
    "user_regions proc = [(code_virt n, code_virt n + 0x2000), (stack_virt n, stack_virt n + 0x1000)]"
    "frames proc \<inter> (code \<union> table_pages m pml4) = {}" "page_no (user_stack_phys proc) \<in> frames proc"
    "unat (n + 1) = unat n + 1"
proof -
  have pm: "process_made m bm pml4 n entry proc m' bm'" and o: "owned code m bm pml4 n ps" and n: "unat n < 2 ^ 27"
    using assms by (simp_all add: spawns_def)
  show fr: "frames proc \<subseteq> free_set bm - free_set bm'" "free_set bm' \<subseteq> free_set bm"
    and "table_pages m' pml4 \<subseteq> table_pages m pml4 \<union> (free_set bm - free_set bm' - frames proc)"
    "same_outside m m' pml4 (user_pages n)" "tables_ok m' bm' pml4" "pid proc = n"
    "user_regions proc = [(code_virt n, code_virt n + 0x2000), (stack_virt n, stack_virt n + 0x1000)]"
    using pm unfolding process_made_def frames_def by blast+
  show "frames proc \<inter> (code \<union> table_pages m pml4) = {}" using fr(1) ownedD(2,3) [OF o] by blast
  show "unat (n + 1) = unat n + 1" using n unat_plus_nat [of n 1] by simp
qed (use assms in \<open>auto simp: spawns_def frames_def\<close>)

text \<open>The new process has its own address space.\<close>

lemma spawned_space:
  assumes "spawns code m bm pml4 n ps entry proc m' bm'"
  shows "owns code m' bm' pml4 (n + 1) proc" "user_space_ok m' pml4 proc"
proof -
  note S = spawnsD [OF assms]
  have ap: "page_no (user_stack_phys proc) \<notin> code_frames entry" using S(3,11,12) by blast
  have "process_made m bm pml4 n entry proc m' bm'" "unat (entry - KERNEL_VIRT) + 0x2000 \<le> 2 ^ 52"
    using assms by (simp_all add: spawns_def)
  note sp = made_space [OF this(1) S(2) this(2) ap]
  have frame: "insert (page_no (user_stack_phys proc)) (code_frames entry) \<inter> table_pages m' pml4 = {}"
    using S(3,6,8,11,12) ownedD(2) [OF S(1)] by blast
  have "\<forall>a \<in> regions n. \<exists>pa. translate m' pml4 a = Some pa \<and> page_no pa \<in> insert (page_no (user_stack_phys proc)) code"
    using sp(2) S(3) by blast
  moreover have "frames proc \<inter> (code \<union> free_set bm' \<union> table_pages m' pml4) = {}" using S(6,8,11) by blast
  ultimately show "owns code m' bm' pml4 (n + 1) proc" unfolding owns_def S(5) using S(10,13) by simp
  have "\<forall>a \<in> regions n. \<exists>pa. translate m' pml4 a = Some pa \<and> page_no pa \<notin> table_pages m' pml4"
    using sp(2) frame by blast
  then show "user_space_ok m' pml4 proc"
    unfolding user_space_ok_def region_bytes_regions [OF S(10)] using tables_okD(3) [OF S(4)] sp(1) by blast
qed

text \<open>The others keep theirs.\<close>

lemma others_keep_space:
  assumes "spawns code m bm pml4 n ps entry proc m' bm'" "Some q \<in> set ps"
  shows "owns code m' bm' pml4 (n + 1) q" "user_space_ok m pml4 q \<Longrightarrow> user_space_ok m' pml4 q" "pid q \<noteq> n"
    "frames q \<inter> frames proc = {}"
proof -
  note S = spawnsD [OF assms(1)]
  have own: "owns code m bm pml4 n q" using ownedD(4) [OF S(1)] assms(2) .
  then have pid: "unat (pid q) < 2 ^ 27" "pid q \<noteq> n" "unat (pid q) < unat (n + 1)" using S(2,13) by (auto simp: owns_def)
  have t: "translate m' pml4 a = translate m pml4 a" if "a \<in> regions (pid q)" for a
    using other_region [OF S(2) pid(1,2) that] S(9) by (simp add: same_outside_def)
  have keep: "page_no pa \<notin> table_pages m' pml4" if "a \<in> regions (pid q)" "translate m pml4 a = Some pa" for a pa
  proof -
    have "page_no pa \<in> insert (page_no (user_stack_phys q)) code" "frames q \<inter> (code \<union> free_set bm \<union> table_pages m pml4) = {}"
      using own that unfolding owns_def by auto
    then show ?thesis using S(8) ownedD(2) [OF S(1)] unfolding frames_def by blast
  qed
  have reg: "user_regions q = [(code_virt (pid q), code_virt (pid q) + 0x2000), (stack_virt (pid q), stack_virt (pid q) + 0x1000)]"
    and f: "frames q \<inter> (code \<union> free_set bm \<union> table_pages m pml4) = {}" using own by (simp_all add: owns_def)
  show "owns code m' bm' pml4 (n + 1) q"
    using own t pid(3) f S(7,8) unfolding owns_def by auto
  show "pid q \<noteq> n" "frames q \<inter> frames proc = {}" using pid(2) f S(6) by blast+
  note r = region_bytes_regions [OF reg]
  show "user_space_ok m' pml4 q" if q: "user_space_ok m pml4 q"
  proof -
    have "inj_on (translate m' pml4) (regions (pid q))" using q t unfolding user_space_ok_def r inj_on_def by simp
    moreover have "\<forall>a \<in> regions (pid q). \<exists>pa. translate m' pml4 a = Some pa \<and> page_no pa \<notin> table_pages m' pml4"
      using q t keep unfolding user_space_ok_def r by fastforce
    ultimately show ?thesis using q unfolding user_space_ok_def r by blast
  qed
qed

lemma owned_spawn:
  assumes s: "spawns code m bm pml4 n ps entry proc m' bm'" and i: "i < length ps" "ps ! i = None"
  shows "owned code m' bm' pml4 (n + 1) (ps[i := Some proc])"
proof -
  note S = spawnsD [OF s] and O = ownedD [OF S(1)]
  have "pid p \<noteq> pid q \<and> frames p \<inter> frames q = {}"
    if ab: "a < b" "b < length ps" "ps[i := Some proc] ! a = Some p" "ps[i := Some proc] ! b = Some q" for a b p q
  proof -
    have other: "pid x \<noteq> n \<and> frames x \<inter> frames proc = {}" if "c < length ps" "ps ! c = Some x" for c x
      using others_keep_space(3,4) [OF s, of x] that nth_mem [of c ps] by simp
    consider "a = i" "b \<noteq> i" | "b = i" "a \<noteq> i" | "a \<noteq> i" "b \<noteq> i" using ab(1) by auto
    then show ?thesis
    proof cases
      case 1
      then show ?thesis using ab other [of b q] i S(5) by auto
    next
      case 2
      then show ?thesis using ab other [of a p] i S(5) by auto
    next
      case 3
      then show ?thesis using ab O(6) [of a b p q] by simp
    qed
  qed
  moreover have "\<not> in_huge m' pml4 v" if v: "unat q < 2 ^ 27" "v \<in> user_pages q" for q v
  proof (cases "q = n")
    case True
    then show ?thesis using s v(2) unfolding spawns_def process_made_def user_mapped_def user_pages_def by auto
  next
    case False
    then have "indices v \<notin> indices ` user_pages n" using other_region [OF S(2) v(1) False] pages_in_regions [OF v] by blast
    then show ?thesis using S(9) O(5) [OF v] by (simp add: same_outside_def)
  qed
  moreover have "\<forall>q. Some q \<in> set (ps[i := Some proc]) \<longrightarrow> owns code m' bm' pml4 (n + 1) q"
    using spawned_space(1) [OF s] others_keep_space(1) [OF s] set_update_subset_insert [of ps i "Some proc"] by auto
  moreover have "code \<inter> (free_set bm' \<union> table_pages m' pml4) = {}" using O(2) S(7,8) by blast
  ultimately show ?thesis unfolding owned_def using S(2,4,13) by auto
qed

section \<open>The running system\<close>

text \<open>The programs of \<^verbatim>\<open>spawn\<close> are in the kernel image, in pages of \<open>code\<close>.\<close>

definition loadable :: "nat set \<Rightarrow> u64 \<Rightarrow> bool" where
  "loadable code entry \<longleftrightarrow> KERNEL_VIRT \<le> entry \<and> unat (entry - KERNEL_VIRT) + 0x2000 \<le> 2 ^ 52 \<and> code_frames entry \<subseteq> code"

definition programs_ok :: "nat set \<Rightarrow> (string \<Rightarrow> u64) \<Rightarrow> bool" where
  "programs_ok code prog \<longleftrightarrow> (\<forall>args entry gs. spawn_choice prog args = Some (entry, gs) \<longrightarrow> loadable code entry)"

definition sys_inv :: "nat set \<Rightarrow> (string \<Rightarrow> u64) \<Rightarrow> kernel \<Rightarrow> bool" where
  "sys_inv code prog k \<longleftrightarrow> shell_inv k \<and> programs_ok code prog
     \<and> owned code (kmem k) (kbitmap k) (kpml4 k) (knext_pid k) (processes (sched (kst k)))"

text \<open>Room for a process: eleven free pages and a pid.\<close>

definition spawnable :: "kernel \<Rightarrow> bool" where
  "spawnable k \<longleftrightarrow> 11 \<le> card (free_set (kbitmap k)) \<and> unat (knext_pid k) < 2 ^ 27"

text \<open>A step that leaves pages, page tables and the owners of pages alone.\<close>

definition steady :: "kernel \<Rightarrow> kernel \<Rightarrow> bool" where
  "steady k k' \<longleftrightarrow> kbitmap k' = kbitmap k \<and> kimg k' = kimg k \<and> kpml4 k' = kpml4 k \<and> knext_pid k' = knext_pid k
     \<and> map (map_option ident) (processes (sched (kst k'))) = map (map_option ident) (processes (sched (kst k)))
     \<and> (\<forall>x. page_no x \<in> table_pages (kmem k) (kpml4 k) \<longrightarrow> kmem k' x = kmem k x)"

lemma sys_inv_steady:
  assumes "sys_inv code prog k" "shell_inv k'" "steady k k'"
  shows "sys_inv code prog k'"
proof -
  let ?ps = "processes (sched (kst k))" and ?ps' = "processes (sched (kst k'))"
  have o: "owned code (kmem k) (kbitmap k) (kpml4 k) (knext_pid k) ?ps" using assms(1) by (simp add: sys_inv_def)
  note t = tables_okD [OF ownedD(1) [OF o]]
  have i: "map (map_option ident) ?ps' = map (map_option ident) ?ps" using assms(3) by (simp add: steady_def)
  then have l: "length ?ps' = length ?ps" by (metis length_map)
  have "map_option ident (?ps' ! j) = map_option ident (?ps ! j)" if "j < length ?ps" for j
    using arg_cong [OF i, of "\<lambda>xs. xs ! j"] that l by simp
  then have "survivors ?ps ?ps'" using l by (simp add: survivors_def)
  then have "owned code (kmem k') (kbitmap k) (kpml4 k) (knext_pid k) ?ps'"
    using assms(3) t(1,2) by (intro owned_step [OF o]) (auto simp: steady_def)
  then show ?thesis using assms by (simp add: sys_inv_def steady_def)
qed

lemma steady_console: "same_but_console k k' \<Longrightarrow> steady k k'"
  by (auto simp: steady_def same_but_console_def)

lemma sys_inv_kill:
  assumes inv: "sys_inv code prog k" and n: "parse_dec args = Some n"
    and i: "position (has_pid n) (processes (sched (kst k))) = Some i" "processes (sched (kst k)) ! i = Some p" "\<not> is_dead p"
  shows "good (sys_inv code prog) (cmd_kill args k)"
proof -
  let ?ps = "processes (sched (kst k))" and ?s1 = "marked i p (sched (kst k))"
  let ?R = "reaped ?s1 {..<64}"
  have sh: "shell_inv k" and o: "owned code (kmem k) (kbitmap k) (kpml4 k) (knext_pid k) ?ps" using inv by (simp_all add: sys_inv_def)
  obtain k' where k': "cmd_kill args k = Inr k'" "shell_inv k'"
    "\<forall>j<64. processes (sched (kst k')) ! j = (if j \<in> ?R then None else processes ?s1 ! j)"
    "free_set (kbitmap k') = free_set (kbitmap k) \<union> freeable (kimg k) (stack_pages ?s1 ?R)"
    "kmem k' = kmem k" "kpml4 k' = kpml4 k" "knext_pid k' = knext_pid k"
    using cmd_kill_live [OF sh n i] by blast
  let ?ps' = "processes (sched (kst k'))"
  have l: "length ?ps = 64" "length ?ps' = 64" using shell_invD(6) [OF sh] shell_invD(6) [OF k'(2)] by (simp_all add: sched_ok_def)
  have mk: "map_option ident (processes ?s1 ! j) = map_option ident (?ps ! j)" if "j < 64" for j
    using that l i(2) by (cases "j = i") (simp_all add: marked_def ident_def)
  then have "survivors ?ps ?ps'" using k'(3) l by (simp add: survivors_def)
  moreover have "stack_pages ?s1 ?R \<subseteq> gone ?ps ?ps'"
  proof
    fix x assume "x \<in> stack_pages ?s1 ?R"
    then obtain j q where j: "j \<in> ?R" "processes ?s1 ! j = Some q" "x \<in> frames q"
      by (auto simp: stack_pages_def frames_def split: option.splits)
    then have j64: "j < 64" by (simp add: reaped_def)
    then obtain q0 where "?ps ! j = Some q0" "ident q0 = ident q" using mk [OF j64] j(2) by (cases "?ps ! j") auto
    then have q0: "?ps ! j = Some q0" "x \<in> frames q0" using j(3) ident_eqD by blast+
    moreover have "?ps' ! j = None" using k'(3) j(1) j64 by simp
    ultimately show "x \<in> gone ?ps ?ps'" unfolding gone_def using j64 l by (intro UN_I [of j]) simp_all
  qed
  then have "free_set (kbitmap k') \<subseteq> free_set (kbitmap k) \<union> gone ?ps ?ps'" using k'(4) by (auto simp: freeable_def)
  moreover have "0 \<notin> free_set (kbitmap k')"
    using k'(4) tables_okD(2) [OF ownedD(1) [OF o]] by (simp add: freeable_def reserved_pages_def)
  ultimately have "owned code (kmem k) (kbitmap k') (kpml4 k) (knext_pid k) ?ps'"
    using shell_invD(4) [OF k'(2)] by (intro owned_step [OF o]) simp_all
  then show ?thesis using inv k' by (auto simp: good_def sys_inv_def)
qed

lemma sys_inv_print:
  assumes "sys_inv code prog k"
  shows "good (sys_inv code prog) (print s k)"
proof -
  have sh: "shell_inv k" using assms by (simp add: sys_inv_def)
  then obtain k' where k': "print s k = Inr k'" "screen_ok k'" "same_but_console k k'"
    using outs(1) [OF shell_invD(3)] by (auto simp: out_def)
  then show ?thesis using sys_inv_steady [OF assms shell_inv_console [OF sh k'(3,2)] steady_console [OF k'(3)]]
    by (simp add: good_def)
qed

lemma proc_ok_made: "process_made m bm pml4 p entry proc m' bm' \<Longrightarrow> proc_ok fs proc"
  by (auto simp: process_made_def proc_ok_def MAX_FDS_def nth_Cons' split: if_splits)

lemma sys_inv_spawn:
  assumes inv: "sys_inv code prog k" and room: "spawnable k"
  shows "good (sys_inv code prog) (cmd_spawn prog args k)"
proof (cases "spawn_choice prog args")
  case None
  then show ?thesis using sys_inv_print [OF inv] by (simp add: cmd_spawn_def)
next
  case (Some eg)
  then obtain entry gs where eg: "spawn_choice prog args = Some (entry, gs)" by (cases eg) simp
  show ?thesis
  proof (cases "count (sched (kst k)) < 64")
    case False
    then show ?thesis using sys_inv_print [OF inv] eg by (simp add: cmd_spawn_def)
  next
    case True
    have sh: "shell_inv k" and pr: "programs_ok code prog"
      and o: "owned code (kmem k) (kbitmap k) (kpml4 k) (knext_pid k) (processes (sched (kst k)))" using inv by (simp_all add: sys_inv_def)
    have e: "KERNEL_VIRT \<le> entry" "unat (entry - KERNEL_VIRT) + 0x2000 \<le> 2 ^ 52" "code_frames entry \<subseteq> code"
      using pr eg unfolding programs_ok_def loadable_def by blast+
    have r: "11 \<le> card (free_set (kbitmap k))" "unat (knext_pid k) < 2 ^ 27" using room by (simp_all add: spawnable_def)
    have h: "\<forall>v \<in> user_pages (knext_pid k). \<not> in_huge (kmem k) (kpml4 k) v" using ownedD(5) [OF o] r(2) by blast
    obtain k' proc m' bm' s' i where k': "cmd_spawn prog args k = Inr k'" "screen_ok k'"
      "same_but_console (k\<lparr>knext_pid := knext_pid k + 1, kmem := m', kbitmap := bm', kst := (kst k)\<lparr>sched := s'\<rparr>\<rparr>) k'"
      and p: "process_made (kmem k) (kbitmap k) (kpml4 k) (knext_pid k) entry proc m' bm'"
      and i: "i < 64" "processes (sched (kst k)) ! i = None" "processes s' = (processes (sched (kst k)))[i := Some proc]" "sched_ok s'"
      using cmd_spawn_made [OF shell_invD(1) [OF sh] eg True ownedD(1) [OF o] r h e(1,2)] by blast
    let ?ps = "processes (sched (kst k))"
    let ?k = "k\<lparr>knext_pid := knext_pid k + 1, kmem := m', kbitmap := bm', kst := (kst k)\<lparr>sched := s'\<rparr>\<rparr>"
    have sp: "spawns code (kmem k) (kbitmap k) (kpml4 k) (knext_pid k) ?ps entry proc m' bm'"
      using o p r(2) e by (simp add: spawns_def)
    have il: "i < length ?ps" using i(1) shell_invD(6) [OF sh] by (simp add: sched_ok_def)
    have "owned code m' bm' (kpml4 k) (knext_pid k + 1) (processes s')" unfolding i(3) by (rule owned_spawn [OF sp il i(2)])
    moreover have "shell_inv ?k"
    proof -
      have mem: "q = proc \<or> Some q \<in> set ?ps" if "Some q \<in> set (processes s')" for q
        using that set_update_subset_insert [of ?ps i "Some proc"] unfolding i(3) by auto
      have "proc_ok (kfs k) q \<and> user_space_ok m' (kpml4 k) q" if "Some q \<in> set (processes s')" for q
        using mem [OF that] proc_ok_made [OF p] spawned_space(2) [OF sp] others_keep_space(2) [OF sp, of q] shell_invD(1,2) [OF sh]
        by (auto simp: kernel_ok_def users_ok_def)
      then show ?thesis using sh i(4) tables_okD(1) [OF spawnsD(4) [OF sp]]
        by (simp add: shell_inv_def kernel_inv_def kernel_ok_def users_ok_def screen_ok_def)
    qed
    ultimately have "sys_inv code prog ?k" using pr by (simp add: sys_inv_def)
    then have "sys_inv code prog k'"
      using sys_inv_steady [OF _ shell_inv_console [OF \<open>shell_inv ?k\<close> k'(3,2)] steady_console [OF k'(3)]] by blast
    then show ?thesis using k'(1) by (simp add: good_def)
  qed
qed

interpretation sys: command_invariant "sys_inv code prog" prog spawnable for code prog
proof
  fix k k' :: kernel
  assume inv: "sys_inv code prog k"
  show sh: "shell_inv k" using inv by (simp add: sys_inv_def)
  show "sys_inv code prog k'" if "same_but_console k k'" "screen_ok k'"
    using sys_inv_steady [OF inv shell_inv_console [OF sh that] steady_console [OF that(1)]] .
  show "sys_inv code prog (k\<lparr>kfs := fs\<rparr>)" if "dir_ok fs" "length (inodes (kfs k)) \<le> length (inodes fs)" for fs
    using sys_inv_steady [OF inv shell_inv_fs [OF sh that]] by (simp add: steady_def)
  show "sys_inv code prog (k\<lparr>klen := n\<rparr>)" if "n \<le> BUF_LEN" for n
    using sys_inv_steady [OF inv shell_inv_len [OF sh that]] by (simp add: steady_def)
  show "good (sys_inv code prog) (cmd_kill args k)"
    if "parse_dec args = Some m" "position (has_pid m) (processes (sched (kst k))) = Some i" "processes (sched (kst k)) ! i = Some p"
      "\<not> is_dead p" for args m i p
    by (rule sys_inv_kill [OF inv that])
  show "good (sys_inv code prog) (cmd_spawn prog args k)" if "spawnable k" for args
    by (rule sys_inv_spawn [OF inv that])
qed (auto simp: spawnable_def same_but_console_def)

end
