(* ===== verification/Xhci.thy ===== *)
theory Xhci
  imports Shell
begin

text \<open>
  The xHCI driver (\<^verbatim>\<open>src/xhci.rs\<close>): command, transfer and event rings, control transfers, descriptors,
  enumeration of devices and hubs, and polling of a boot-protocol keyboard.

  The controller is a parameter: what a register read returns at a given time, and what the
  controller has written to memory by then. Time advances with every register read and every look at
  the event ring. Volatile writes go to memory and are recorded in order. The state extends the
  kernel state, because the driver allocates pages, prints to the console and feeds the shell.
  Addresses inside an allocated page and register addresses do not overflow (pages lie below
  \<^verbatim>\<open>2^33\<close>, and a BAR leaves room for its registers). The two loops that run until the event ring is
  empty take the patience of the caller as fuel: when events keep coming, the result is \<open>Diverges\<close>.
\<close>

section \<open>State\<close>

record device =
  mmio_in :: "nat \<Rightarrow> u64 \<Rightarrow> u32"
  dma :: "nat \<Rightarrow> mem \<Rightarrow> mem"
  patience :: nat

record xhci = kernel +
  xdev :: device
  xclock :: nat
  xout :: "(u64 \<times> u64) list"  \<comment> \<open>volatile writes, latest first\<close>
  cmd_ring :: u64
  cmd_enq :: nat
  cmd_pcs :: u32
  evt_ring :: u64
  evt_deq :: nat
  evt_ccs :: u32
  rt_base :: u64
  db_base :: u64
  dcbaa :: u64
  op_base :: u64
  ctx_size :: u64
  hid_slot :: u32
  hid_tr_ring :: u64
  hid_tr_enq :: nat
  hid_tr_pcs :: u32
  hid_buf :: u64
  hid_ep_addr :: u8
  hid_ready :: bool
  hid_prev :: "u8 list"

record trb =
  param :: u64
  status :: u32
  control :: u32

definition TRB_ENABLE_SLOT :: u32 where "TRB_ENABLE_SLOT = push_bit 10 9"
definition TRB_ADDRESS_DEVICE :: u32 where "TRB_ADDRESS_DEVICE = push_bit 10 11"
definition TRB_CONFIGURE_EP :: u32 where "TRB_CONFIGURE_EP = push_bit 10 12"
definition TRB_EVALUATE_CONTEXT :: u32 where "TRB_EVALUATE_CONTEXT = push_bit 10 13"
definition TRB_LINK :: u32 where "TRB_LINK = push_bit 10 6"
definition TRB_SETUP :: u32 where "TRB_SETUP = push_bit 10 2"
definition TRB_DATA :: u32 where "TRB_DATA = push_bit 10 3"
definition TRB_STATUS :: u32 where "TRB_STATUS = push_bit 10 4"
definition TRB_NORMAL :: u32 where "TRB_NORMAL = push_bit 10 1"
definition TRB_NOOP :: u32 where "TRB_NOOP = push_bit 10 8"

definition EVT_TRANSFER :: u32 where "EVT_TRANSFER = 32"
definition EVT_CMD_COMPL :: u32 where "EVT_CMD_COMPL = 33"
definition EVT_PORT_CHANGE :: u32 where "EVT_PORT_CHANGE = 34"
definition EVT_RING_SIZE :: nat where "EVT_RING_SIZE = 256"

lemmas trb_types = TRB_ENABLE_SLOT_def TRB_ADDRESS_DEVICE_def TRB_CONFIGURE_EP_def TRB_EVALUATE_CONTEXT_def
  TRB_LINK_def TRB_SETUP_def TRB_DATA_def TRB_STATUS_def TRB_NORMAL_def TRB_NOOP_def

section \<open>Memory and registers\<close>

definition write32 :: "mem \<Rightarrow> u64 \<Rightarrow> u32 \<Rightarrow> mem" where
  "write32 m a v = (\<lambda>x. let k = unat (x - a) in if k < 4 then ucast (drop_bit (8 * k) v) else m x)"

definition read_trb :: "mem \<Rightarrow> u64 \<Rightarrow> trb" where
  "read_trb m a = \<lparr>param = read64 m a, status = read32 m (a + 8), control = read32 m (a + 12)\<rparr>"

definition write_trb :: "u64 \<Rightarrow> trb \<Rightarrow> mem \<Rightarrow> mem" where
  "write_trb a t m = write32 (write32 (write64 m a (param t)) (a + 8) (status t)) (a + 12) (control t)"

definition trb_at :: "u64 \<Rightarrow> nat \<Rightarrow> u64" where
  "trb_at ring i = ring + of_nat (i * 16)"

definition set_mem :: "(mem \<Rightarrow> mem) \<Rightarrow> xhci \<Rightarrow> xhci" where
  "set_mem f s = s\<lparr>kmem := f (kmem s)\<rparr>"

definition poke32 :: "u64 \<Rightarrow> u32 \<Rightarrow> xhci \<Rightarrow> xhci" where
  "poke32 a v = set_mem (\<lambda>m. write32 m a v)"

definition poke64 :: "u64 \<Rightarrow> u64 \<Rightarrow> xhci \<Rightarrow> xhci" where
  "poke64 a v = set_mem (\<lambda>m. write64 m a v)"

definition dma_tick :: "xhci \<Rightarrow> xhci" where
  "dma_tick s = s\<lparr>kmem := dma (xdev s) (xclock s) (kmem s), xclock := xclock s + 1\<rparr>"

definition r32 :: "u64 \<Rightarrow> xhci \<Rightarrow> u32 \<times> xhci" where
  "r32 a s = (mmio_in (xdev s) (xclock s) a, s\<lparr>xclock := xclock s + 1\<rparr>)"

definition w32 :: "u64 \<Rightarrow> u32 \<Rightarrow> xhci \<Rightarrow> xhci" where
  "w32 a v s = poke32 a v (s\<lparr>xout := (a, ucast v) # xout s\<rparr>)"

definition w64 :: "u64 \<Rightarrow> u64 \<Rightarrow> xhci \<Rightarrow> xhci" where
  "w64 a v s = poke64 a v (s\<lparr>xout := (a, v) # xout s\<rparr>)"

definition alloc_page :: "xhci \<Rightarrow> (u64 \<times> xhci) res" where
  "alloc_page s = rbind (pmm_alloc (kbitmap s)) (\<lambda>(phys, bm).
     Inr (phys, set_mem (\<lambda>m. write_bytes m phys 0 4096) (s\<lparr>kbitmap := bm\<rparr>)))"

text \<open>\<^verbatim>\<open>kprint!\<close> and \<^verbatim>\<open>write_hex!\<close>: a run of texts and hexadecimal numbers.\<close>

datatype piece = S string | H u64

definition print_piece :: "piece \<Rightarrow> kernel \<Rightarrow> kernel res" where
  "print_piece p k = (case p of
     S t \<Rightarrow> print t k
   | H v \<Rightarrow> with_console (write_hex (kfont k) v) k)"

definition on_kernel :: "(kernel \<Rightarrow> kernel res) \<Rightarrow> xhci \<Rightarrow> xhci res" where
  "on_kernel f s = rbind (f (kernel.truncate s)) (\<lambda>k. Inr (kernel.extend k (kernel.more s)))"

definition say :: "piece list \<Rightarrow> xhci \<Rightarrow> xhci res" where
  "say ps s = on_kernel (rfold print_piece ps) s"

section \<open>Event ring\<close>

definition consume_event :: "xhci \<Rightarrow> (u32 \<times> u32 \<times> u32) option \<times> xhci" where
  "consume_event s0 =
     (let s = dma_tick s0; trb = read_trb (kmem s) (trb_at (evt_ring s) (evt_deq s)); ctrl = control trb in
      if ctrl AND 1 \<noteq> evt_ccs s then (None, s)
      else let trb_type = drop_bit 10 ctrl AND 0x3F; slot_id = drop_bit 24 ctrl; code = drop_bit 24 (status trb) AND 0xFF;
          s = s\<lparr>evt_deq := evt_deq s + 1\<rparr>;
          s = (if evt_deq s = EVT_RING_SIZE then s\<lparr>evt_deq := 0, evt_ccs := evt_ccs s XOR 1\<rparr> else s) in
        (Some (trb_type, code, slot_id), w64 (rt_base s + 0x20 + 0x18) (trb_at (evt_ring s) (evt_deq s) OR 8) s))"

definition event_timeout :: "xhci \<Rightarrow> ((u32 \<times> u32) \<times> xhci) res" where
  "event_timeout s =
     (let (sts, s) = r32 (op_base s + 4) s; (crcr, s) = r32 (op_base s + 0x18) s;
          s = dma_tick s; trb = read_trb (kmem s) (trb_at (evt_ring s) (evt_deq s)) in
      rbind (say [S ''xhci: event timeout usbsts='', H (ucast sts), S '' crr='', H (ucast (crcr AND 8)),
        S '' deq_ctrl='', H (ucast (control trb)), S '' ccs='', H (ucast (evt_ccs s)), S ''\<newline>''] s) (\<lambda>s.
      Inr ((0xFF, 0), s)))"

text \<open>\<open>n\<close> rounds are left when the timer shows \<open>n\<close>.\<close>

fun wait_loop :: "nat \<Rightarrow> u32 \<Rightarrow> xhci \<Rightarrow> ((u32 \<times> u32) \<times> xhci) res" where
  "wait_loop n expected s = (case consume_event s of (ev, s) \<Rightarrow>
     (case ev of
        Some (typ, code, slot) \<Rightarrow>
          if typ = expected then
            (if expected = EVT_CMD_COMPL \<and> code \<noteq> 1
             then rbind (say [S ''xhci: cmd failed code='', H (ucast code), S ''\<newline>''] s) (\<lambda>s. Inr ((code, slot), s))
             else Inr ((code, slot), s))
          else if n \<le> 1 then event_timeout s else wait_loop (n - 1) expected s
      | None \<Rightarrow> if n \<le> 1 then event_timeout s else wait_loop (n - 1) expected s))"

declare wait_loop.simps [simp del]

definition wait_event :: "u32 \<Rightarrow> xhci \<Rightarrow> ((u32 \<times> u32) \<times> xhci) res" where
  "wait_event expected s = wait_loop 10000000 expected s"

fun drain_loop :: "nat \<Rightarrow> xhci \<Rightarrow> xhci res" where
  "drain_loop 0 s = Inl Diverges"
| "drain_loop (Suc n) s = (case consume_event s of (ev, s) \<Rightarrow> if ev = None then Inr s else drain_loop n s)"

definition drain_events :: "xhci \<Rightarrow> xhci res" where
  "drain_events s = drain_loop (patience (xdev s)) s"

section \<open>Command ring\<close>

text \<open>The control word of the Link TRB: toggle cycle, and the cycle bit of the lap.\<close>

definition link_control :: "u32 \<Rightarrow> u32" where
  "link_control pcs = TRB_LINK OR 2 OR pcs"

definition post_command :: "u64 \<Rightarrow> u32 \<Rightarrow> u32 \<Rightarrow> xhci \<Rightarrow> xhci" where
  "post_command par sta ctl s =
     (let s = set_mem (write_trb (trb_at (cmd_ring s) (cmd_enq s)) \<lparr>param = par, status = sta, control = ctl OR cmd_pcs s\<rparr>) s;
          s = s\<lparr>cmd_enq := cmd_enq s + 1\<rparr>;
          s = (if cmd_enq s = 31
               then (poke32 (trb_at (cmd_ring s) 31 + 12) (link_control (cmd_pcs s)) s)\<lparr>cmd_enq := 0, cmd_pcs := cmd_pcs s XOR 1\<rparr>
               else s) in
      w32 (db_base s) 0 s)"

text \<open>A bounded wait on a register.\<close>

fun spin_while :: "nat \<Rightarrow> (u32 \<Rightarrow> bool) \<Rightarrow> u64 \<Rightarrow> xhci \<Rightarrow> xhci" where
  "spin_while n c a s = (case r32 a s of (v, s) \<Rightarrow> if c v \<and> n > 0 then spin_while (n - 1) c a s else s)"

declare spin_while.simps [simp del]

text \<open>Recovery aborts the current command, takes the pending events and sets the ring up afresh.\<close>

definition abort_command :: "xhci \<Rightarrow> xhci" where
  "abort_command s =
     (let (v, s) = r32 (op_base s + 0x18) s;
          s = w32 (op_base s + 0x18) ((v AND NOT 0xF) OR 4) s in
      spin_while 5000000 (\<lambda>v. v AND 8 \<noteq> 0) (op_base s + 0x18) s)"

definition restart_cmd_ring :: "xhci \<Rightarrow> xhci" where
  "restart_cmd_ring s =
     (let s = set_mem (\<lambda>m. write_bytes m (cmd_ring s) 0 4096) s;
          s = set_mem (write_trb (trb_at (cmd_ring s) 31) \<lparr>param = cmd_ring s, status = 0, control = link_control 1\<rparr>) s;
          s = s\<lparr>cmd_enq := 0, cmd_pcs := 1\<rparr> in
      w64 (op_base s + 0x18) (cmd_ring s OR 1) s)"

definition recover_cmd_ring :: "xhci \<Rightarrow> xhci res" where
  "recover_cmd_ring s = rbind (drain_events (abort_command s)) (\<lambda>s. Inr (restart_cmd_ring s))"

section \<open>Control transfers\<close>

text \<open>A device: its slot and the position in the transfer ring of its default endpoint (\<^verbatim>\<open>Dev\<close>).\<close>

record dev =
  slot_id :: u32
  tr_ring :: u64
  tr_enq :: nat
  tr_pcs :: u32

text \<open>The loop of \<^verbatim>\<open>tr_reserve\<close>: No-Op TRBs up to the Link TRB.\<close>

definition noop_fill :: "dev \<Rightarrow> xhci \<Rightarrow> xhci" where
  "noop_fill d s = fold (\<lambda>i. set_mem (write_trb (trb_at (tr_ring d) i)
     \<lparr>param = 0, status = 0, control = TRB_NOOP OR tr_pcs d\<rparr>)) [tr_enq d..<31] s"

definition tr_reserve :: "dev \<Rightarrow> nat \<Rightarrow> xhci \<Rightarrow> dev \<times> xhci" where
  "tr_reserve d n s =
     (if tr_enq d + n \<le> 31 then (d, s)
      else let s = noop_fill d s;
               s = poke32 (trb_at (tr_ring d) 31 + 12) (link_control (tr_pcs d)) s in
        (d\<lparr>tr_enq := 0, tr_pcs := tr_pcs d XOR 1\<rparr>, s))"

text \<open>Consecutive TRBs from an index on.\<close>

fun put_trbs :: "u64 \<Rightarrow> nat \<Rightarrow> trb list \<Rightarrow> xhci \<Rightarrow> xhci" where
  "put_trbs ring i [] s = s"
| "put_trbs ring i (t # ts) s = put_trbs ring (i + 1) ts (set_mem (write_trb (trb_at ring i) t) s)"

definition ctrl_in :: "dev \<Rightarrow> u64 \<Rightarrow> u64 \<Rightarrow> u16 \<Rightarrow> xhci \<Rightarrow> ((u32 \<times> dev) \<times> xhci) res" where
  "ctrl_in d setup_param buf len s =
     (let (d, s) = tr_reserve d 3 s;
          s = put_trbs (tr_ring d) (tr_enq d)
            [\<lparr>param = setup_param, status = 8, control = TRB_SETUP OR push_bit 6 1 OR push_bit 16 3 OR tr_pcs d\<rparr>,
             \<lparr>param = buf, status = ucast len, control = TRB_DATA OR push_bit 16 1 OR tr_pcs d\<rparr>,
             \<lparr>param = 0, status = 0, control = TRB_STATUS OR push_bit 5 1 OR tr_pcs d\<rparr>] s;
          d = d\<lparr>tr_enq := tr_enq d + 3\<rparr>;
          s = w32 (db_base s + ucast (slot_id d) * 4) 1 s in
      rbind (wait_event EVT_TRANSFER s) (\<lambda>((code, _), s). Inr ((code, d), s)))"

definition ctrl_out_nodata :: "dev \<Rightarrow> u64 \<Rightarrow> xhci \<Rightarrow> ((u32 \<times> dev) \<times> xhci) res" where
  "ctrl_out_nodata d setup_param s =
     (let (d, s) = tr_reserve d 2 s;
          s = put_trbs (tr_ring d) (tr_enq d)
            [\<lparr>param = setup_param, status = 8, control = TRB_SETUP OR push_bit 6 1 OR tr_pcs d\<rparr>,
             \<lparr>param = 0, status = 0, control = TRB_STATUS OR push_bit 16 1 OR push_bit 5 1 OR tr_pcs d\<rparr>] s;
          d = d\<lparr>tr_enq := tr_enq d + 2\<rparr>;
          s = w32 (db_base s + ucast (slot_id d) * 4) 1 s in
      rbind (wait_event EVT_TRANSFER s) (\<lambda>((code, _), s). Inr ((code, d), s)))"

section \<open>Descriptors\<close>

definition transfer_ok :: "u32 \<Rightarrow> bool" where
  "transfer_ok code \<longleftrightarrow> code = 1 \<or> code = 13"

definition get_device_descriptor :: "dev \<Rightarrow> xhci \<Rightarrow> ((u8 \<times> dev) \<times> xhci) res" where
  "get_device_descriptor d s =
     rbind (alloc_page s) (\<lambda>(buf, s).
     rbind (ctrl_in d 0x0012000001000680 buf 18 s) (\<lambda>((code, d), s).
     if \<not> transfer_ok code then
       rbind (say [S ''xhci: dev_desc failed code='', H (ucast code), S ''\<newline>''] s) (\<lambda>s. Inr ((0xFF, d), s))
     else let cls = kmem s (buf + 4); vendor = read16 (kmem s) (buf + 8); product = read16 (kmem s) (buf + 10) in
       rbind (say [S ''xhci: class='', H (ucast cls), S '' vendor='', H (ucast vendor), S '' product='', H (ucast product),
         S ''\<newline>''] s) (\<lambda>s. Inr ((cls, d), s))))"

text \<open>What the walk over a configuration has found: interface class, and the endpoint.\<close>

record found =
  iface_class :: u8
  ep_addr :: u8
  ep_interval :: u8
  max_packet :: u16

definition NOT_FOUND :: found where
  "NOT_FOUND = \<lparr>iface_class = 0, ep_addr = 0, ep_interval = 0, max_packet = 0\<rparr>"

text \<open>The \<^verbatim>\<open>while\<close> loop over the descriptors: it stops at the first interrupt IN endpoint.\<close>

function config_loop :: "mem \<Rightarrow> u64 \<Rightarrow> nat \<Rightarrow> nat \<Rightarrow> found \<Rightarrow> found" where
  "config_loop m buf parse_len offset f =
     (if offset < parse_len then
        let a = buf + of_nat offset; len = m a in
        if len = 0 then f
        else let kind = m (a + 1);
            f = (if kind = 4 then f\<lparr>iface_class := m (a + 5)\<rparr> else f) in
          if kind = 5 \<and> m (a + 3) AND 3 = 3 \<and> m (a + 2) AND 0x80 \<noteq> 0
          then f\<lparr>ep_addr := m (a + 2), max_packet := read16 m (a + 4), ep_interval := m (a + 6)\<rparr>
          else config_loop m buf parse_len (offset + unat len) f
      else f)"
  by pat_completeness auto
termination
proof (relation "measure (\<lambda>(m, buf, parse_len, offset, f). parse_len - offset)")
  fix m :: mem and buf parse_len offset f a len kind and f' :: found
  assume "offset < parse_len" "a = buf + word_of_nat offset" "len = m a" "len \<noteq> 0"
  moreover have "0 < unat len" using \<open>len \<noteq> 0\<close> by (simp add: unat_gt_0)
  ultimately show "((m, buf, parse_len, offset + unat len, f'), m, buf, parse_len, offset, f)
      \<in> measure (\<lambda>(m, buf, parse_len, offset, f). parse_len - offset)" by simp
qed simp

declare config_loop.simps [simp del]

definition parse_config :: "mem \<Rightarrow> u64 \<Rightarrow> u8 \<times> found" where
  "parse_config m buf =
     (let total_len = read16 m (buf + 2); config_value = m (buf + 5);
          parse_len = (if total_len > 512 then 512 else unat total_len) in
      (config_value, config_loop m buf parse_len 0 NOT_FOUND))"

definition get_config_descriptor :: "dev \<Rightarrow> xhci \<Rightarrow> (((u8 \<times> found) \<times> dev) \<times> xhci) res" where
  "get_config_descriptor d s =
     rbind (alloc_page s) (\<lambda>(buf, s).
     rbind (ctrl_in d 0x0200000002000680 buf 512 s) (\<lambda>((code, d), s).
     if \<not> transfer_ok code then
       rbind (say [S ''xhci: cfg_desc failed code='', H (ucast code), S ''\<newline>''] s) (\<lambda>s. Inr (((0, NOT_FOUND), d), s))
     else Inr ((parse_config (kmem s) buf, d), s)))"

section \<open>Keyboard\<close>

definition set_configuration :: "dev \<Rightarrow> u8 \<Rightarrow> xhci \<Rightarrow> ((u32 \<times> dev) \<times> xhci) res" where
  "set_configuration d config_value s = ctrl_out_nodata d (push_bit 16 (ucast config_value) OR push_bit 8 9) s"

definition set_protocol :: "dev \<Rightarrow> xhci \<Rightarrow> ((u32 \<times> dev) \<times> xhci) res" where
  "set_protocol d s = ctrl_out_nodata d (push_bit 8 0x0B OR 0x21) s"

text \<open>The device context index of an endpoint address; the multiplication is on \<^verbatim>\<open>u8\<close> and stays below 32.\<close>

definition ep_index :: "u8 \<Rightarrow> u64" where
  "ep_index addr = ucast ((addr AND 0xF) * 2 + (if addr AND 0x80 \<noteq> 0 then 1 else 0))"

text \<open>\<^verbatim>\<open>while iv > 1 { iv >>= 1; log += 1 }\<close>\<close>

function ilog :: "u32 \<Rightarrow> u32 \<Rightarrow> u32" where
  "ilog iv lg = (if iv > 1 then ilog (drop_bit 1 iv) (lg + 1) else lg)"
  by pat_completeness auto
termination
proof (relation "measure (\<lambda>(iv, lg). unat iv)")
  fix iv lg :: u32 assume "1 < iv"
  then have "1 < unat iv" by (simp add: word_less_nat_alt)
  moreover have "unat (drop_bit 1 iv) = unat iv div 2"
    by (simp only: unat_drop_bit_eq drop_bit_eq_div [of 1 "unat iv"] power_one_right)
  ultimately show "((drop_bit 1 iv, lg + 1), iv, lg) \<in> measure (\<lambda>(iv, lg). unat iv)" by simp
qed simp

declare ilog.simps [simp del]

definition xhci_interval :: "u8 \<Rightarrow> u32 \<Rightarrow> u32" where
  "xhci_interval interval speed =
     (if speed = 3 \<or> speed = 4 then ucast (min (max interval 1 - 1) 15)
      else min (ilog (ucast (max interval 1)) 0 + 3) 15)"

text \<open>Eight words of a slot context are copied.\<close>

definition copy32 :: "nat \<Rightarrow> u64 \<Rightarrow> u64 \<Rightarrow> mem \<Rightarrow> mem" where
  "copy32 n src dst m = fold (\<lambda>i m. write32 m (dst + of_nat (4 * i)) (read32 m (src + of_nat (4 * i)))) [0..<n] m"

text \<open>A fresh transfer ring: one page with a Link TRB back to its start.\<close>

definition new_tr_ring :: "xhci \<Rightarrow> (u64 \<times> xhci) res" where
  "new_tr_ring s = rbind (alloc_page s) (\<lambda>(ring, s).
     Inr (ring, poke32 (trb_at ring 31 + 12) (link_control 1) (poke64 (trb_at ring 31) ring s)))"

definition configure_hid_endpoint :: "u32 \<Rightarrow> found \<Rightarrow> u32 \<Rightarrow> xhci \<Rightarrow> (u64 \<times> xhci) res" where
  "configure_hid_endpoint slot f speed s =
     (let ep_idx = ep_index (ep_addr f); iv = xhci_interval (ep_interval f) speed in
      rbind (alloc_page s) (\<lambda>(input_ctx, s).
      let s = poke32 (input_ctx + 4) (push_bit (unat ep_idx) 1 OR 1) s;
          out_ctx = read64 (kmem s) (dcbaa s + ucast slot * 8);
          slot_dst = input_ctx + ctx_size s;
          s = set_mem (copy32 8 out_ctx slot_dst) s;
          slot0 = read32 (kmem s) slot_dst AND NOT (push_bit 27 0x1F);
          s = poke32 slot_dst (slot0 OR push_bit 27 (ucast ep_idx)) s in
      rbind (new_tr_ring s) (\<lambda>(ring, s).
      let ep_ctx = input_ctx + ctx_size s * (ep_idx + 1);
          s = poke32 ep_ctx (push_bit 16 iv) s;
          s = poke32 (ep_ctx + 4) (push_bit 16 (ucast (max_packet f)) OR push_bit 3 7 OR push_bit 1 3) s;
          s = poke64 (ep_ctx + 8) (ring OR 1) s;
          s = poke32 (ep_ctx + 16) (ucast (max_packet f)) s;
          s = post_command input_ctx 0 (TRB_CONFIGURE_EP OR push_bit 24 slot) s in
      rbind (wait_event EVT_CMD_COMPL s) (\<lambda>((code, _), s).
      if code \<noteq> 1 then
        rbind (say [S ''xhci: configure ep failed code='', H (ucast code), S ''\<newline>''] s) (\<lambda>s.
        rbind (if code = 0xFF then recover_cmd_ring s else Inr s) (\<lambda>s. Inr (0, s)))
      else
        rbind (say [S ''xhci: endpoint configured\<newline>''] s) (\<lambda>s.
        rbind (alloc_page (s\<lparr>hid_slot := slot, hid_tr_ring := ring, hid_tr_enq := 0, hid_tr_pcs := 1, hid_ep_addr := ep_addr f\<rparr>)) (\<lambda>(buf, s).
        Inr (ep_idx, s\<lparr>hid_buf := buf, hid_ready := True\<rparr>)))))))"

definition queue_hid_transfer :: "u64 \<Rightarrow> xhci \<Rightarrow> xhci" where
  "queue_hid_transfer ep_idx s =
     (let s = set_mem (write_trb (trb_at (hid_tr_ring s) (hid_tr_enq s))
            \<lparr>param = hid_buf s, status = 8, control = TRB_NORMAL OR push_bit 5 1 OR hid_tr_pcs s\<rparr>) s;
          s = s\<lparr>hid_tr_enq := hid_tr_enq s + 1\<rparr>;
          s = (if hid_tr_enq s \<ge> 31
               then (poke32 (trb_at (hid_tr_ring s) 31 + 12) (link_control (hid_tr_pcs s)) s)
                 \<lparr>hid_tr_enq := 0, hid_tr_pcs := hid_tr_pcs s XOR 1\<rparr>
               else s) in
      w32 (db_base s + ucast (hid_slot s) * 4) (ucast ep_idx) s)"

definition hid_table :: "(u8 \<times> char \<times> char) list" where
  "hid_table = [
     (0x04, CHR ''a'', CHR ''A''), (0x05, CHR ''b'', CHR ''B''), (0x06, CHR ''c'', CHR ''C''), (0x07, CHR ''d'', CHR ''D''),
     (0x08, CHR ''e'', CHR ''E''), (0x09, CHR ''f'', CHR ''F''), (0x0A, CHR ''g'', CHR ''G''), (0x0B, CHR ''h'', CHR ''H''),
     (0x0C, CHR ''i'', CHR ''I''), (0x0D, CHR ''j'', CHR ''J''), (0x0E, CHR ''k'', CHR ''K''), (0x0F, CHR ''l'', CHR ''L''),
     (0x10, CHR ''m'', CHR ''M''), (0x11, CHR ''n'', CHR ''N''), (0x12, CHR ''o'', CHR ''O''), (0x13, CHR ''p'', CHR ''P''),
     (0x14, CHR ''q'', CHR ''Q''), (0x15, CHR ''r'', CHR ''R''), (0x16, CHR ''s'', CHR ''S''), (0x17, CHR ''t'', CHR ''T''),
     (0x18, CHR ''u'', CHR ''U''), (0x19, CHR ''v'', CHR ''V''), (0x1A, CHR ''w'', CHR ''W''), (0x1B, CHR ''x'', CHR ''X''),
     (0x1C, CHR ''y'', CHR ''Y''), (0x1D, CHR ''z'', CHR ''Z''), (0x1E, CHR ''1'', CHR ''!''), (0x1F, CHR ''2'', CHR ''@''),
     (0x20, CHR ''3'', CHR ''#''), (0x21, CHR ''4'', CHR ''$''), (0x22, CHR ''5'', CHR ''%''), (0x23, CHR ''6'', CHR ''^''),
     (0x24, CHR ''7'', CHR ''&''), (0x25, CHR ''8'', CHR ''*''), (0x26, CHR ''9'', CHR ''(''), (0x27, CHR ''0'', CHR '')''),
     (0x28, CHR ''\<newline>'', CHR ''\<newline>''), (0x2A, CHR 0x08, CHR 0x08), (0x2C, CHR '' '', CHR '' ''),
     (0x2D, CHR ''-'', CHR ''_''), (0x2E, CHR ''='', CHR ''+''), (0x2F, CHR ''['', CHR ''{''), (0x30, CHR '']'', CHR ''}''),
     (0x33, CHR '';'', CHR '':''), (0x34, CHR 0x27, CHR 0x22), (0x35, CHR 0x60, CHR ''~''), (0x36, CHR '','', CHR ''<''),
     (0x37, CHR ''.'', CHR ''>''), (0x38, CHR ''/'', CHR ''?'')]"

definition hid_keycode_to_char :: "u8 \<Rightarrow> bool \<Rightarrow> u8 option" where
  "hid_keycode_to_char code shift = (case find (\<lambda>(usage, lo, hi). usage = code) hid_table of
     Some (usage, lo, hi) \<Rightarrow> Some (of_char (if shift then hi else lo))
   | None \<Rightarrow> None)"

text \<open>
  Polling runs in the timer interrupt and hands characters to the shell; a command may stop the
  machine (\<open>PollStopped\<close>).
\<close>

datatype polled = Polled xhci | PollStopped xhci

definition shell_char :: "(string \<Rightarrow> u64) \<Rightarrow> u8 \<Rightarrow> xhci \<Rightarrow> polled res" where
  "shell_char prog ch s = rbind (on_char prog ch (kernel.truncate s)) (\<lambda>r. case r of
     Done k \<Rightarrow> Inr (Polled (kernel.extend k (kernel.more s)))
   | Stopped k \<Rightarrow> Inr (PollStopped (kernel.extend k (kernel.more s))))"

text \<open>The loop over the keycodes of a report.\<close>

fun report_keys :: "(string \<Rightarrow> u64) \<Rightarrow> bool \<Rightarrow> u8 list \<Rightarrow> xhci \<Rightarrow> polled res" where
  "report_keys prog shift [] s = Inr (Polled s)"
| "report_keys prog shift (keycode # rest) s =
     (if keycode = 0 \<or> keycode \<in> set (hid_prev s) then report_keys prog shift rest s
      else case hid_keycode_to_char keycode shift of
        None \<Rightarrow> report_keys prog shift rest s
      | Some ch \<Rightarrow> rbind (shell_char prog ch s) (\<lambda>r. case r of
            Polled s \<Rightarrow> report_keys prog shift rest s
          | PollStopped s \<Rightarrow> Inr (PollStopped s)))"

definition hid_report :: "(string \<Rightarrow> u64) \<Rightarrow> xhci \<Rightarrow> polled res" where
  "hid_report prog s =
     (let modifier = kmem s (hid_buf s); shift = (modifier AND 0x22 \<noteq> 0);
          cur = map (\<lambda>i. kmem s (hid_buf s + 2 + of_nat i)) [0..<6] in
      rbind (report_keys prog shift cur s) (\<lambda>r. case r of
        Polled s \<Rightarrow> Inr (Polled (s\<lparr>hid_prev := cur\<rparr>))
      | PollStopped s \<Rightarrow> Inr (PollStopped s)))"

text \<open>\<^verbatim>\<open>while let Some((typ, ..)) = consume_event()\<close>, with \<^verbatim>\<open>got_transfer\<close>.\<close>

fun poll_loop :: "nat \<Rightarrow> (string \<Rightarrow> u64) \<Rightarrow> bool \<Rightarrow> xhci \<Rightarrow> (bool \<times> polled) res" where
  "poll_loop 0 prog got s = Inl Diverges"
| "poll_loop (Suc n) prog got s = (case consume_event s of (ev, s) \<Rightarrow>
     (case ev of
        None \<Rightarrow> Inr (got, Polled s)
      | Some (typ, _, _) \<Rightarrow>
          if typ \<noteq> EVT_TRANSFER then poll_loop n prog got s
          else rbind (hid_report prog s) (\<lambda>r. case r of
              Polled s \<Rightarrow> poll_loop n prog True s
            | PollStopped s \<Rightarrow> Inr (True, PollStopped s))))"

definition poll_hid :: "(string \<Rightarrow> u64) \<Rightarrow> xhci \<Rightarrow> polled res" where
  "poll_hid prog s =
     (if \<not> hid_ready s then Inr (Polled s)
      else rbind (poll_loop (patience (xdev s)) prog False s) (\<lambda>(got, r). case r of
        PollStopped s \<Rightarrow> Inr (PollStopped s)
      | Polled s \<Rightarrow> Inr (Polled (if got then queue_hid_transfer (ep_index (hid_ep_addr s)) s else s))))"

section \<open>Devices and hubs\<close>

definition MAX_HUB_DEPTH :: nat where "MAX_HUB_DEPTH = 4"

definition ep0_max_packet :: "u32 \<Rightarrow> u32" where
  "ep0_max_packet speed = (if speed = 3 then 64 else if speed = 4 then 512 else 8)"

text \<open>The end of a failed command: a timeout restarts the command ring.\<close>

definition recover_if_timeout :: "u32 \<Rightarrow> xhci \<Rightarrow> xhci res" where
  "recover_if_timeout code s = (if code = 0xFF then recover_cmd_ring s else Inr s)"

definition address_device :: "u32 \<Rightarrow> u32 \<Rightarrow> u32 \<Rightarrow> u32 \<Rightarrow> u32 \<Rightarrow> u32 \<Rightarrow> xhci \<Rightarrow> (dev option \<times> xhci) res" where
  "address_device slot route_string root_port speed tt_hub_slot tt_port s =
     rbind (alloc_page s) (\<lambda>(input_ctx, s).
     let s = poke32 (input_ctx + 4) 3 s;
         slot_ctx = input_ctx + ctx_size s;
         s = poke32 slot_ctx ((route_string AND 0xFFFFF) OR push_bit 20 speed OR push_bit 27 1) s;
         s = poke32 (slot_ctx + 4) (push_bit 16 root_port) s;
         s = poke32 (slot_ctx + 8) ((tt_hub_slot AND 0xFF) OR push_bit 8 (tt_port AND 0xFF)) s in
     rbind (new_tr_ring s) (\<lambda>(ring, s).
     let ep0_ctx = input_ctx + ctx_size s * 2;
         s = poke32 (ep0_ctx + 4) (push_bit 16 (ep0_max_packet speed) OR push_bit 3 4 OR push_bit 1 3) s;
         s = poke64 (ep0_ctx + 8) (ring OR 1) s in
     rbind (alloc_page s) (\<lambda>(out_ctx, s).
     let s = poke64 (dcbaa s + ucast slot * 8) out_ctx s;
         s = post_command input_ctx 0 (TRB_ADDRESS_DEVICE OR push_bit 24 slot) s in
     rbind (wait_event EVT_CMD_COMPL s) (\<lambda>((code, _), s).
     if code \<noteq> 1 then
       rbind (say [S ''xhci: address device failed code='', H (ucast code), S ''\<newline>''] s) (\<lambda>s.
       rbind (recover_if_timeout code s) (\<lambda>s. Inr (None, s)))
     else rbind (say [S ''xhci: device addressed\<newline>''] s) (\<lambda>s.
       Inr (Some \<lparr>slot_id = slot, tr_ring = ring, tr_enq = 0, tr_pcs = 1\<rparr>, s))))))"

definition setup_device :: "u32 \<Rightarrow> u32 \<Rightarrow> u32 \<Rightarrow> u32 \<Rightarrow> u32 \<Rightarrow> xhci \<Rightarrow> (dev option \<times> xhci) res" where
  "setup_device route_string root_port speed tt_hub_slot tt_port s =
     rbind (drain_events s) (\<lambda>s.
     rbind (wait_event EVT_CMD_COMPL (post_command 0 0 TRB_ENABLE_SLOT s)) (\<lambda>((code, slot), s).
     if code \<noteq> 1 then
       rbind (say [S ''xhci: enable slot failed\<newline>''] s) (\<lambda>s.
       rbind (recover_if_timeout code s) (\<lambda>s. Inr (None, s)))
     else rbind (say [S ''xhci: slot_id='', H (ucast slot), S ''\<newline>''] s)
       (address_device slot route_string root_port speed tt_hub_slot tt_port)))"

definition evaluate_ep0_max_packet :: "u32 \<Rightarrow> u32 \<Rightarrow> xhci \<Rightarrow> (u32 \<times> xhci) res" where
  "evaluate_ep0_max_packet slot max_pkt s =
     rbind (alloc_page s) (\<lambda>(input_ctx, s).
     let s = poke32 (input_ctx + 4) (push_bit 1 1) s;
         ep0_ctx = input_ctx + ctx_size s * 2;
         s = poke32 (ep0_ctx + 4) (push_bit 16 max_pkt) s;
         s = post_command input_ctx 0 (TRB_EVALUATE_CONTEXT OR push_bit 24 slot) s in
     rbind (wait_event EVT_CMD_COMPL s) (\<lambda>((code, _), s). Inr (code, s)))"

text \<open>For a full-speed device, the real packet size is read first.\<close>

definition fix_max_packet :: "u32 \<Rightarrow> dev \<Rightarrow> xhci \<Rightarrow> (dev \<times> xhci) res" where
  "fix_max_packet speed d s =
     (if speed = 1 then
        rbind (alloc_page s) (\<lambda>(buf, s).
        rbind (ctrl_in d 0x0008000001000680 buf 8 s) (\<lambda>((code, d), s).
        let mps0 = ucast (kmem s (buf + 7)) in
        if transfer_ok code \<and> mps0 \<noteq> 0 \<and> mps0 \<noteq> ep0_max_packet speed
        then rbind (evaluate_ep0_max_packet (slot_id d) mps0 s) (\<lambda>(_, s). Inr (d, s))
        else Inr (d, s)))
      else Inr (d, s))"

definition configure_hub_slot :: "u32 \<Rightarrow> u32 \<Rightarrow> u32 \<Rightarrow> xhci \<Rightarrow> (bool \<times> xhci) res" where
  "configure_hub_slot slot nbr_ports ttt s =
     rbind (alloc_page s) (\<lambda>(input_ctx, s).
     let s = poke32 (input_ctx + 4) 1 s;
         out_ctx = read64 (kmem s) (dcbaa s + ucast slot * 8);
         slot_dst = input_ctx + ctx_size s;
         s = set_mem (copy32 8 out_ctx slot_dst) s;
         s = poke32 slot_dst (read32 (kmem s) slot_dst OR push_bit 26 1) s;
         s = poke32 (slot_dst + 4) ((read32 (kmem s) (slot_dst + 4) AND 0x00FFFFFF) OR push_bit 24 nbr_ports) s;
         s = poke32 (slot_dst + 8) ((read32 (kmem s) (slot_dst + 8) AND NOT (push_bit 16 3)) OR push_bit 16 (ttt AND 3)) s;
         s = post_command input_ctx 0 (TRB_CONFIGURE_EP OR push_bit 24 slot) s in
     rbind (wait_event EVT_CMD_COMPL s) (\<lambda>((code, _), s).
     if code \<noteq> 1 then rbind (recover_if_timeout code s) (\<lambda>s. Inr (False, s)) else Inr (True, s)))"

definition hub_set_port_feature :: "dev \<Rightarrow> u16 \<Rightarrow> u32 \<Rightarrow> xhci \<Rightarrow> (dev \<times> xhci) res" where
  "hub_set_port_feature d feature port s =
     rbind (ctrl_out_nodata d (push_bit 32 (ucast port) OR push_bit 16 (ucast feature) OR push_bit 8 0x03 OR 0x23) s)
       (\<lambda>((_, d), s). Inr (d, s))"

definition hub_clear_port_feature :: "dev \<Rightarrow> u16 \<Rightarrow> u32 \<Rightarrow> xhci \<Rightarrow> (dev \<times> xhci) res" where
  "hub_clear_port_feature d feature port s =
     rbind (ctrl_out_nodata d (push_bit 32 (ucast port) OR push_bit 16 (ucast feature) OR push_bit 8 0x01 OR 0x23) s)
       (\<lambda>((_, d), s). Inr (d, s))"

definition hub_get_port_status :: "dev \<Rightarrow> u64 \<Rightarrow> u32 \<Rightarrow> xhci \<Rightarrow> ((u32 \<times> dev) \<times> xhci) res" where
  "hub_get_port_status d buf port s =
     rbind (ctrl_in d (push_bit 48 4 OR push_bit 32 (ucast port) OR 0xA3) buf 4 s) (\<lambda>((code, d), s).
     Inr ((if transfer_ok code then read32 (kmem s) buf else 0, d), s))"

text \<open>The wait for the end of a port reset, at most \<open>t\<close> rounds. Delays only burn time and are left out.\<close>

fun reset_wait :: "nat \<Rightarrow> dev \<Rightarrow> u64 \<Rightarrow> u32 \<Rightarrow> xhci \<Rightarrow> (dev \<times> xhci) res" where
  "reset_wait t d buf port s =
     rbind (hub_get_port_status d buf port s) (\<lambda>((v, d), s).
     if v AND push_bit 4 1 = 0 \<and> v AND push_bit 1 1 \<noteq> 0 then Inr (d, s)
     else if t \<le> 1 then Inr (d, s) else reset_wait (t - 1) d buf port s)"

declare reset_wait.simps [simp del]

definition child_speed :: "u32 \<Rightarrow> u32" where
  "child_speed st = (if st AND push_bit 9 1 \<noteq> 0 then 2 else if st AND push_bit 10 1 \<noteq> 0 then 3 else 1)"

text \<open>Route string: four bits per tier, the port of a hub at tier \<open>depth\<close> in nibble \<open>depth\<close>.\<close>

definition child_route :: "u32 \<Rightarrow> u32 \<Rightarrow> nat \<Rightarrow> u32" where
  "child_route route p depth = route OR push_bit (4 * depth) (if p > 15 then 15 else p)"

definition child_tt :: "u32 \<Rightarrow> u32 \<Rightarrow> u32 \<Rightarrow> u32 \<Rightarrow> u32 \<times> u32 \<Rightarrow> u32 \<times> u32" where
  "child_tt speed hub_speed slot p parent_tt =
     (if speed = 3 then (0, 0) else if hub_speed = 3 then (slot, p) else parent_tt)"

text \<open>Reset of the port \<open>p\<close> of a hub: the speed of the device behind it, or \<open>None\<close> when nothing is connected.\<close>

definition hub_port :: "u64 \<Rightarrow> u32 \<Rightarrow> dev \<Rightarrow> xhci \<Rightarrow> ((u32 option \<times> dev) \<times> xhci) res" where
  "hub_port stat_buf p d s =
     rbind (hub_clear_port_feature d 16 p s) (\<lambda>(d, s).
     rbind (hub_get_port_status d stat_buf p s) (\<lambda>((st, d), s).
     if st AND 1 = 0 then Inr ((None, d), s)
     else
       rbind (say [S ''xhci: hub port '', H (ucast p), S '' connected\<newline>''] s) (\<lambda>s.
       rbind (hub_set_port_feature d 4 p s) (\<lambda>(d, s).
       rbind (reset_wait 20 d stat_buf p s) (\<lambda>(d, s).
       rbind (hub_clear_port_feature d 20 p s) (\<lambda>(d, s).
       rbind (hub_get_port_status d stat_buf p s) (\<lambda>((st, d), s).
       Inr ((Some (child_speed st), d), s))))))))"

text \<open>The first part of \<^verbatim>\<open>enumerate_hub\<close>: configuration and hub descriptor; the number of ports, or \<open>None\<close>.\<close>

definition hub_setup :: "dev \<Rightarrow> u8 \<Rightarrow> xhci \<Rightarrow> ((u32 option \<times> dev) \<times> xhci) res" where
  "hub_setup d cfg s =
     rbind (say [S ''xhci: hub found\<newline>'', S ''xhci: hubdiag A slot='', H (ucast (slot_id d)), S '' enq='', H (of_nat (tr_enq d)),
       S '' cfg='', H (ucast cfg), S ''\<newline>''] s) (\<lambda>s.
     rbind (set_configuration d cfg s) (\<lambda>((code, d), s).
     rbind (say [S ''xhci: hubdiag B code='', H (ucast code), S ''\<newline>''] s) (\<lambda>s.
     if \<not> transfer_ok code then rbind (say [S ''xhci: hub set_config failed\<newline>''] s) (\<lambda>s. Inr ((None, d), s))
     else
       rbind (alloc_page s) (\<lambda>(buf, s).
       rbind (say [S ''xhci: hubdiag C\<newline>''] s) (\<lambda>s.
       rbind (ctrl_in d 0x00080000290006A0 buf 8 s) (\<lambda>((code, d), s).
       rbind (say [S ''xhci: hubdiag D code='', H (ucast code), S ''\<newline>''] s) (\<lambda>s.
       if \<not> transfer_ok code then rbind (say [S ''xhci: hub desc failed\<newline>''] s) (\<lambda>s. Inr ((None, d), s))
       else
         let nbr_ports = ucast (kmem s (buf + 2)); ch = ucast (read16 (kmem s) (buf + 3));
             ttt = drop_bit 5 ch AND 3 in
         rbind (say [S ''xhci: hubdiag E raw='', H (read64 (kmem s) buf), S ''\<newline>'',
           S ''xhci: hub ports='', H (ucast nbr_ports), S ''\<newline>''] s) (\<lambda>s.
         rbind (configure_hub_slot (slot_id d) nbr_ports ttt s) (\<lambda>(ok, s).
         if \<not> ok then rbind (say [S ''xhci: hub slot cfg failed\<newline>''] s) (\<lambda>s. Inr ((None, d), s))
         else Inr ((Some nbr_ports, d), s))))))))))"

definition power_ports :: "nat \<Rightarrow> dev \<Rightarrow> xhci \<Rightarrow> (dev \<times> xhci) res" where
  "power_ports n d s = rfold (\<lambda>p (d, s). hub_set_port_feature d 8 (of_nat p) s) [1..<n + 1] (d, s)"

text \<open>The part of \<^verbatim>\<open>enumerate_device\<close> for a keyboard.\<close>

definition hid_device :: "dev \<Rightarrow> u8 \<Rightarrow> found \<Rightarrow> u32 \<Rightarrow> xhci \<Rightarrow> (bool \<times> xhci) res" where
  "hid_device d cfg f speed s =
     rbind (say [S ''xhci: HID device found\<newline>''] s) (\<lambda>s.
     rbind (set_configuration d cfg s) (\<lambda>((code, d), s).
     if \<not> transfer_ok code then
       rbind (say [S ''xhci: set_config failed code='', H (ucast code), S ''\<newline>''] s) (\<lambda>s. Inr (False, s))
     else
       rbind (set_protocol d s) (\<lambda>((code, d), s).
       rbind (if \<not> transfer_ok code then say [S ''xhci: set_protocol failed\<newline>''] s else Inr s) (\<lambda>s.
       rbind (configure_hid_endpoint (slot_id d) f speed s) (\<lambda>(ep_idx, s).
       if ep_idx = 0 then Inr (False, s)
       else rbind (say [S ''xhci: keyboard ready\<newline>''] (queue_hid_transfer ep_idx s)) (\<lambda>s. Inr (True, s)))))))"

text \<open>
  Enumeration. \<open>tiers\<close> is the number of hub tiers that may still be entered, \<^verbatim>\<open>MAX_HUB_DEPTH - depth\<close>; the
  second function is the loop over the ports of a hub, from port \<open>p\<close> on with \<open>n\<close> ports left.
\<close>

function enumerate_device :: "nat \<Rightarrow> u32 \<Rightarrow> u32 \<Rightarrow> u32 \<Rightarrow> u32 \<times> u32 \<Rightarrow> xhci \<Rightarrow> (bool \<times> xhci) res"
  and hub_ports :: "nat \<Rightarrow> nat \<Rightarrow> u32 \<Rightarrow> u64 \<Rightarrow> dev \<Rightarrow> u32 \<Rightarrow> u32 \<Rightarrow> u32 \<Rightarrow> u32 \<times> u32 \<Rightarrow> xhci \<Rightarrow> (bool \<times> xhci) res"
where
  "enumerate_device tiers route root_port speed tt s =
     rbind (setup_device route root_port speed (fst tt) (snd tt) s) (\<lambda>(d, s).
     case d of None \<Rightarrow> Inr (False, s)
     | Some d \<Rightarrow>
       rbind (fix_max_packet speed d s) (\<lambda>(d, s).
       rbind (get_device_descriptor d s) (\<lambda>((dev_class, d), s).
       rbind (get_config_descriptor d s) (\<lambda>(((cfg, f), d), s).
       rbind (say [S ''xhci: cfg='', H (ucast cfg), S '' ep='', H (ucast (ep_addr f)), S '' iface_class='',
         H (ucast (iface_class f)), S ''\<newline>''] s) (\<lambda>s.
       if iface_class f = 3 then hid_device d cfg f speed s
       else if (dev_class = 9 \<or> iface_class f = 9) \<and> 0 < tiers then
         rbind (hub_setup d cfg s) (\<lambda>((ports, d), s).
         case ports of None \<Rightarrow> Inr (False, s)
         | Some nbr_ports \<Rightarrow>
             rbind (alloc_page s) (\<lambda>(stat_buf, s).
             rbind (power_ports (unat nbr_ports) d s) (\<lambda>(d, s).
             hub_ports tiers (unat nbr_ports) 1 stat_buf d route root_port speed tt s)))
       else Inr (False, s))))))"
| "hub_ports tiers n p stat_buf d route root_port hub_speed tt s =
     (if n = 0 \<or> tiers = 0 then Inr (False, s)
      else rbind (hub_port stat_buf p d s) (\<lambda>((sp, d), s).
        case sp of
          None \<Rightarrow> hub_ports tiers (n - 1) (p + 1) stat_buf d route root_port hub_speed tt s
        | Some speed \<Rightarrow>
            rbind (enumerate_device (tiers - 1) (child_route route p (MAX_HUB_DEPTH - tiers)) root_port speed
              (child_tt speed hub_speed (slot_id d) p tt) s) (\<lambda>(ready, s).
            if ready then Inr (True, s)
            else hub_ports tiers (n - 1) (p + 1) stat_buf d route root_port hub_speed tt s)))"
  by pat_completeness auto
termination
  by (relation "inv_image (less_than <*lex*> less_than <*lex*> less_than)
      (\<lambda>x. case x of Inl (tiers, _) \<Rightarrow> (tiers, 1, 0 :: nat) | Inr (tiers, n, _) \<Rightarrow> (tiers, 0 :: nat, n))") auto

declare enumerate_device.simps [simp del] hub_ports.simps [simp del]

section \<open>Initialisation\<close>

definition modify32 :: "u64 \<Rightarrow> (u32 \<Rightarrow> u32) \<Rightarrow> xhci \<Rightarrow> xhci" where
  "modify32 a f s = (case r32 a s of (v, s) \<Rightarrow> w32 a (f v) s)"

text \<open>The capability registers: bases and sizes, and the parameters (slots, ports, scratchpad buffers).\<close>

definition max_scratchpads :: "u32 \<Rightarrow> nat" where
  "max_scratchpads hcs2 = unat (push_bit 5 (drop_bit 21 hcs2 AND 0x1F) OR (drop_bit 27 hcs2 AND 0x1F))"

definition init_caps :: "u64 \<Rightarrow> xhci \<Rightarrow> ((u32 \<times> u32 \<times> nat) \<times> xhci) res" where
  "init_caps bar0 s =
     rbind (say [S ''xhci: init bar='', H bar0, S ''\<newline>''] s) (\<lambda>s.
     let (cap, s) = r32 bar0 s; (hcs1, s) = r32 (bar0 + 4) s; (hcs2, s) = r32 (bar0 + 8) s;
         (hcc1, s) = r32 (bar0 + 0x10) s;
         s = s\<lparr>ctx_size := if drop_bit 2 hcc1 AND 1 = 1 then 64 else 32\<rparr>;
         (rt, s) = r32 (bar0 + 0x18) s; (db, s) = r32 (bar0 + 0x14) s;
         s = s\<lparr>rt_base := bar0 + ucast rt, db_base := bar0 + ucast db, op_base := bar0 + ucast (cap AND 0xFF)\<rparr>;
         max_ports = drop_bit 24 hcs1 AND 0xFF in
     rbind (say [S ''xhci: max_ports='', H (ucast max_ports), S '' ctx_size='', H (ctx_size s),
       S '' scratch='', H (of_nat (max_scratchpads hcs2)), S ''\<newline>''] s) (\<lambda>s.
     Inr ((hcs1 AND 0xFF, max_ports, max_scratchpads hcs2), s)))"

definition init_reset :: "xhci \<Rightarrow> xhci res" where
  "init_reset s =
     (let usbcmd = op_base s; usbsts = op_base s + 4;
          (v, s) = r32 usbsts s;
          s = (if v AND 1 = 0
               then spin_while 1000000 (\<lambda>v. v AND 1 = 0) usbsts (modify32 usbcmd (\<lambda>v. v AND NOT 1) s) else s);
          s = spin_while 5000000 (\<lambda>v. v AND 2 \<noteq> 0) usbcmd (modify32 usbcmd (\<lambda>v. v OR 2) s);
          s = spin_while 5000000 (\<lambda>v. v AND push_bit 11 1 \<noteq> 0) usbsts s in
      say [S ''xhci: reset done\<newline>''] s)"

definition init_scratchpads :: "nat \<Rightarrow> xhci \<Rightarrow> xhci res" where
  "init_scratchpads n s =
     (if n > 0 then
        rbind (alloc_page s) (\<lambda>(arr, s).
        rbind (rfold (\<lambda>i s. rbind (alloc_page s) (\<lambda>(buf, s). Inr (w64 (arr + of_nat i * 8) buf s))) [0..<n] s) (\<lambda>s.
        Inr (w64 (dcbaa s) arr s)))
      else Inr s)"

definition init_cmd_ring :: "xhci \<Rightarrow> xhci res" where
  "init_cmd_ring s =
     rbind (alloc_page s) (\<lambda>(ring, s).
     let s = set_mem (write_trb (trb_at ring 31) \<lparr>param = ring, status = 0, control = link_control 1\<rparr>) s;
         s = s\<lparr>cmd_ring := ring, cmd_enq := 0, cmd_pcs := 1\<rparr> in
     Inr (w64 (op_base s + 0x18) (ring OR 1) s))"

definition init_evt_ring :: "xhci \<Rightarrow> xhci res" where
  "init_evt_ring s =
     rbind (alloc_page s) (\<lambda>(ring, s).
     rbind (alloc_page (s\<lparr>evt_ring := ring, evt_deq := 0, evt_ccs := 1\<rparr>)) (\<lambda>(erst, s).
     let s = poke64 erst ring s;
         s = poke64 (erst + 8) (of_nat EVT_RING_SIZE) s;
         ir0 = rt_base s + 0x20 in
     Inr (w64 (ir0 + 0x18) (ring OR 8) (w64 (ir0 + 0x10) erst (w32 (ir0 + 0x08) 1 s)))))"

definition init_rings :: "u32 \<Rightarrow> nat \<Rightarrow> xhci \<Rightarrow> xhci res" where
  "init_rings max_slots n s =
     (let s = modify32 (op_base s + 0x38) (\<lambda>v. (v AND NOT 0xFF) OR (max_slots AND 0xFF)) s in
      rbind (alloc_page s) (\<lambda>(page, s).
      rbind (init_scratchpads n (s\<lparr>dcbaa := page\<rparr>)) (\<lambda>s.
      rbind (init_cmd_ring (w64 (op_base s + 0x30) (dcbaa s) s)) init_evt_ring)))"

text \<open>At most 64 port change events are skipped.\<close>

fun skip_port_changes :: "nat \<Rightarrow> xhci \<Rightarrow> xhci" where
  "skip_port_changes 0 s = s"
| "skip_port_changes (Suc n) s = (case consume_event s of (ev, s) \<Rightarrow>
     (case ev of
        Some (typ, _, _) \<Rightarrow> if typ \<noteq> EVT_PORT_CHANGE then s else skip_port_changes n s
      | None \<Rightarrow> s))"

definition portsc_at :: "u32 \<Rightarrow> xhci \<Rightarrow> u64" where
  "portsc_at port s = op_base s + 0x400 + ucast port * 0x10"

definition init_start :: "u32 \<Rightarrow> xhci \<Rightarrow> xhci res" where
  "init_start max_ports s =
     (let s = modify32 (op_base s) (\<lambda>v. v OR 1) s;
          s = spin_while 1000000 (\<lambda>v. v AND 1 \<noteq> 0) (op_base s + 4) s in
      rbind (say [S ''xhci: running\<newline>''] s) (\<lambda>s.
      let s = fold (\<lambda>port s. modify32 (portsc_at (of_nat port) s) (\<lambda>v. v OR push_bit 9 1) s) [0..<unat max_ports] s in
      Inr (skip_port_changes 64 s)))"

text \<open>One round of the loop over the root ports: reset, then enumeration of the device.\<close>

definition root_port_step :: "u32 \<Rightarrow> xhci \<Rightarrow> (bool \<times> xhci) res" where
  "root_port_step port s =
     (let portsc = portsc_at port s; (v, s) = r32 portsc s in
      if v AND 1 = 0 then Inr (False, s)
      else
        rbind (say [S ''xhci: port '', H (ucast port), S '' connected\<newline>''] s) (\<lambda>s.
        let s = modify32 portsc (\<lambda>v. (v AND NOT 0x00FFF1FE) OR push_bit 4 1) s;
            s = spin_while 2000000 (\<lambda>v. v AND push_bit 4 1 \<noteq> 0) portsc s;
            (v, s) = r32 portsc s in
        if v AND 2 = 0 then rbind (say [S ''xhci: port reset failed\<newline>''] s) (\<lambda>s. Inr (False, s))
        else
          let s = modify32 portsc (\<lambda>v. (v AND NOT 0x00FFF1FE) OR 0x00FE0000) s;
              (v, s) = r32 portsc s in
          enumerate_device MAX_HUB_DEPTH 0 (port + 1) (drop_bit 10 v AND 0xF) (0, 0) s))"

fun root_ports :: "nat list \<Rightarrow> xhci \<Rightarrow> xhci res" where
  "root_ports [] s = Inr s"
| "root_ports (port # rest) s =
     rbind (root_port_step (of_nat port) s) (\<lambda>(ready, s). if ready then Inr s else root_ports rest s)"

definition xhci_init :: "u64 \<Rightarrow> xhci \<Rightarrow> xhci res" where
  "xhci_init bar0 s =
     rbind (init_caps bar0 s) (\<lambda>((max_slots, max_ports, n), s).
     rbind (init_reset s) (\<lambda>s.
     rbind (init_rings max_slots n s) (\<lambda>s.
     rbind (init_start max_ports s) (\<lambda>s.
     rbind (root_ports [0..<unat max_ports] s)
       (say [S ''xhci: init done\<newline>''])))))"

end
