(* ===== verification/Interrupts.thy ===== *)
theory Interrupts
  imports Xhci
begin

text \<open>
  Interrupt descriptors, segment descriptors and interrupt controllers (\<^verbatim>\<open>idt.rs\<close>, \<^verbatim>\<open>tss.rs\<close>,
  \<^verbatim>\<open>pic.rs\<close>, \<^verbatim>\<open>lapic.rs\<close>, \<^verbatim>\<open>ioapic.rs\<close>, \<^verbatim>\<open>hpet.rs\<close>), with the reading the processor and the controllers
  give to what the code stores: how a gate and a TSS descriptor are decoded, and what the 8259 and the I/O APIC do
  with the writes they receive. The addresses of the tables and of the assembly handlers are chosen by
  the linker and are parameters.
\<close>

section \<open>Interrupt descriptor table\<close>

record idt_entry =
  offset_low :: u16
  selector :: u16
  ist :: u8
  gate_flags :: u8
  offset_mid :: u16
  offset_high :: u32
  reserved :: u32

definition EMPTY_ENTRY :: idt_entry where
  "EMPTY_ENTRY = \<lparr>offset_low = 0, selector = 0, ist = 0, gate_flags = 0, offset_mid = 0, offset_high = 0, reserved = 0\<rparr>"

type_synonym idt = "idt_entry list"

definition IDT_NEW :: idt where
  "IDT_NEW = replicate 256 EMPTY_ENTRY"

definition set_handler :: "u8 \<Rightarrow> u64 \<Rightarrow> idt \<Rightarrow> idt" where
  "set_handler vector handler idt = idt[unat vector :=
     \<lparr>offset_low = ucast (handler AND 0xFFFF), selector = 0x0008, ist = 0, gate_flags = 0x8E,
      offset_mid = ucast (drop_bit 16 handler AND 0xFFFF), offset_high = ucast (drop_bit 32 handler), reserved = 0\<rparr>]"

text \<open>\<^verbatim>\<open>idt::init\<close> fills the table; the second result is the operand of \<^verbatim>\<open>lidt\<close> (limit and base).\<close>

definition idt_init :: "u64 \<Rightarrow> u64 \<Rightarrow> idt \<Rightarrow> idt \<times> u16 \<times> u64" where
  "idt_init spurious idt_addr idt =
     (fold (\<lambda>v. set_handler (of_nat v) spurious) [0..<256] idt, 256 * 16 - 1, idt_addr)"

text \<open>The processor's view of a gate: target, presence, type (14 is an interrupt gate) and privilege level.\<close>

definition gate_target :: "idt_entry \<Rightarrow> u64" where
  "gate_target e = ucast (offset_low e) OR push_bit 16 (ucast (offset_mid e)) OR push_bit 32 (ucast (offset_high e))"

definition kernel_gate :: "idt_entry \<Rightarrow> bool" where
  "kernel_gate e \<longleftrightarrow> bit (gate_flags e) 7 \<and> gate_flags e AND 0xF = 14 \<and> drop_bit 5 (gate_flags e) AND 3 = 0
     \<and> selector e = 8 \<and> ist e = 0 \<and> reserved e = 0"

text \<open>The addresses of the handlers, and the table as \<^verbatim>\<open>kernel_main\<close> sets it up.\<close>

record handlers =
  spurious_handler :: u64
  timer_handler_asm :: u64
  keyboard_handler_asm :: u64
  gp_handler_asm :: u64
  pf_handler_asm :: u64

definition boot_idt :: "handlers \<Rightarrow> u64 \<Rightarrow> idt \<Rightarrow> idt" where
  "boot_idt h idt_addr idt =
     (let idt = fst (idt_init (spurious_handler h) idt_addr idt);
          idt = set_handler 0xFF (spurious_handler h) idt;
          idt = set_handler 0x20 (timer_handler_asm h) idt;
          idt = set_handler 0x21 (keyboard_handler_asm h) idt;
          idt = set_handler 0x0D (gp_handler_asm h) idt in
      set_handler 0x0E (pf_handler_asm h) idt)"

text \<open>What the fault handlers print before they halt.\<close>

definition on_gp :: "u64 \<Rightarrow> u64 \<Rightarrow> u64 \<Rightarrow> kernel \<Rightarrow> kernel res" where
  "on_gp e ip seg = rfold print_piece [S ''#GP! err='', H e, S '' rip='', H ip, S '' cs='', H seg, S ''\<newline>'']"

definition on_pf :: "u64 \<Rightarrow> u64 \<Rightarrow> u64 \<Rightarrow> kernel \<Rightarrow> kernel res" where
  "on_pf e ip cr2 = rfold print_piece [S ''#PF! err='', H e, S '' rip='', H ip, S '' cr2='', H cr2, S ''\<newline>'']"

section \<open>Segment descriptors and the task state segment\<close>

record tss =
  tss_rsp0 :: u64
  tss_rsp1 :: u64
  tss_rsp2 :: u64
  tss_ist :: "u64 list"
  iomap_base :: u16

text \<open>\<^verbatim>\<open>size_of::<Tss>()\<close> of the packed structure.\<close>

definition TSS_SIZE :: u64 where
  "TSS_SIZE = 4 + 3 * 8 + 8 + 7 * 8 + 8 + 2 + 2"

definition TSS_NEW :: tss where
  "TSS_NEW = \<lparr>tss_rsp0 = 0, tss_rsp1 = 0, tss_rsp2 = 0, tss_ist = replicate 7 0, iomap_base = 0\<rparr>"

definition build_gdt :: "u64 list" where
  "build_gdt = (replicate 512 0)[1 := 0x00AF9A000000FFFF, 2 := 0x00CF92000000FFFF, 3 := 0x00CFF2000000FFFF,
     4 := 0x00AFFA000000FFFF]"

definition gdt_user_data :: "u64 list \<Rightarrow> u64" where
  "gdt_user_data gdt = gdt ! 3"

definition tss_low :: "u64 \<Rightarrow> u64 \<Rightarrow> u64" where
  "tss_low base limit = (limit AND 0xFFFF) OR push_bit 16 (base AND 0xFFFFFF) OR push_bit 40 0x89
     OR push_bit 48 (drop_bit 16 limit AND 0xF) OR push_bit 56 (drop_bit 24 base AND 0xFF)"

text \<open>\<^verbatim>\<open>tss::init\<close>: the tables, and the operands of \<^verbatim>\<open>lgdt\<close> and \<^verbatim>\<open>ltr\<close>.\<close>

definition tss_init :: "u64 \<Rightarrow> u64 \<Rightarrow> u64 \<Rightarrow> tss \<times> u64 list \<Rightarrow> (tss \<times> u64 list) \<times> (u16 \<times> u64) \<times> u16" where
  "tss_init tss_addr gdt_addr stack = (\<lambda>(t, gdt).
     let limit = TSS_SIZE - 1 in
     ((t\<lparr>tss_rsp0 := stack, iomap_base := ucast TSS_SIZE\<rparr>,
       gdt[5 := tss_low tss_addr limit, 6 := drop_bit 32 tss_addr AND 0xFFFFFFFF]),
      (7 * 8 - 1, gdt_addr), 0x28))"

text \<open>The processor's view of descriptors: base, limit, access byte and flags.\<close>

definition desc_base :: "u64 \<Rightarrow> u64" where
  "desc_base d = (drop_bit 16 d AND 0xFFFFFF) OR push_bit 24 (drop_bit 56 d AND 0xFF)"

definition desc_limit :: "u64 \<Rightarrow> u64" where
  "desc_limit d = (d AND 0xFFFF) OR push_bit 16 (drop_bit 48 d AND 0xF)"

definition desc_access :: "u64 \<Rightarrow> u64" where
  "desc_access d = drop_bit 40 d AND 0xFF"

definition system_base :: "u64 \<Rightarrow> u64 \<Rightarrow> u64" where
  "system_base lo hi = desc_base lo OR push_bit 32 (hi AND 0xFFFFFFFF)"

section \<open>Interrupt controllers\<close>

text \<open>\<^verbatim>\<open>pic::disable\<close>, as the list of port writes.\<close>

definition pic_disable :: "(u16 \<times> u8) list" where
  "pic_disable = [(0x20, 0x11), (0xA0, 0x11), (0x21, 32), (0xA1, 40), (0x21, 4), (0xA1, 2), (0x21, 0x01), (0xA1, 0x01),
     (0x21, 0xFF), (0xA1, 0xFF)]"

definition lapic_write :: "u64 \<Rightarrow> u32 \<Rightarrow> u32 \<Rightarrow> xhci \<Rightarrow> xhci" where
  "lapic_write base reg val = w32 (base + ucast reg) val"

definition lapic_enable :: "u64 \<Rightarrow> xhci \<Rightarrow> xhci" where
  "lapic_enable base = lapic_write base 0xF0 0x1FF"

definition lapic_eoi :: "u64 \<Rightarrow> xhci \<Rightarrow> xhci" where
  "lapic_eoi base = lapic_write base 0xB0 0"

definition ioapic_write :: "u64 \<Rightarrow> u32 \<Rightarrow> u32 \<Rightarrow> xhci \<Rightarrow> xhci" where
  "ioapic_write base reg val s = w32 (base + 0x10) val (w32 base reg s)"

definition ioapic_redirect :: "u64 \<Rightarrow> u8 \<Rightarrow> u8 \<Rightarrow> u8 \<Rightarrow> xhci \<Rightarrow> xhci" where
  "ioapic_redirect base irq vector apic_id s =
     (let reg = 0x10 + ucast irq * 2; low = ucast vector; high = push_bit 24 (ucast apic_id) in
      ioapic_write base (reg + 1) high (ioapic_write base reg low s))"

text \<open>\<^verbatim>\<open>hpet::init_hpet\<close> and \<^verbatim>\<open>hpet::read_counter\<close>; a 64-bit register read is two 32-bit reads of the device.\<close>

definition r64 :: "u64 \<Rightarrow> xhci \<Rightarrow> u64 \<times> xhci" where
  "r64 a s = (let (lo, s) = r32 a s; (hi, s) = r32 (a + 4) s in (ucast lo OR push_bit 32 (ucast hi), s))"

definition init_hpet :: "u64 \<Rightarrow> xhci \<Rightarrow> u64 \<times> xhci" where
  "init_hpet base s = (let (gcap, s) = r64 base s; (conf, s) = r64 (base + 0x10) s in
     (drop_bit 32 gcap, w64 (base + 0x10) (conf OR 1) s))"

definition read_counter :: "u64 \<Rightarrow> xhci \<Rightarrow> u64 \<times> xhci" where
  "read_counter base s = r64 (base + 0xF0) s"

section \<open>Descriptors are read back as written\<close>

lemma gate_target_set:
  "gate_target \<lparr>offset_low = ucast (h AND 0xFFFF), selector = sel, ist = i, gate_flags = f,
    offset_mid = ucast (drop_bit 16 h AND 0xFFFF), offset_high = ucast (drop_bit 32 h), reserved = r\<rparr> = h"
proof (rule bit_word_eqI)
  fix n assume "n < LENGTH(64)"
  then have n: "n < 64" by simp
  have m: "(0xFFFF :: u64) = mask 16" by (simp add: mask_eq_exp_minus_1)
  consider "n < 16" | "16 \<le> n" "n < 32" | "32 \<le> n" by linarith
  then show "bit (gate_target \<lparr>offset_low = ucast (h AND 0xFFFF), selector = sel, ist = i, gate_flags = f,
    offset_mid = ucast (drop_bit 16 h AND 0xFFFF), offset_high = ucast (drop_bit 32 h), reserved = r\<rparr>) n = bit h n"
    using n by cases (auto simp: gate_target_def m bit_or_iff bit_push_bit_iff bit_ucast_iff bit_and_iff bit_mask_iff
        bit_drop_bit_eq)
qed

lemma set_handler_nth:
  assumes "length idt = 256"
  shows "gate_target (set_handler v h idt ! unat v) = h" "kernel_gate (set_handler v h idt ! unat v)"
    "i \<noteq> unat v \<Longrightarrow> set_handler v h idt ! i = idt ! i" "length (set_handler v h idt) = 256"
proof -
  have "unat v < 256" using unsigned_less [of v, where ?'a = nat] by simp
  then show "gate_target (set_handler v h idt ! unat v) = h" "kernel_gate (set_handler v h idt ! unat v)"
    using assms gate_target_set by (simp_all add: set_handler_def kernel_gate_def bit_numeral_rec)
qed (simp_all add: set_handler_def assms)

lemma set_handler_gate:
  assumes "length idt = 256" "i < 256"
  shows "gate_target (set_handler v h idt ! i) = (if i = unat v then h else gate_target (idt ! i))"
    "kernel_gate (set_handler v h idt ! i) \<longleftrightarrow> i = unat v \<or> kernel_gate (idt ! i)"
  using set_handler_nth [OF assms(1), where v = v and h = h] by (cases "i = unat v"; simp)+

lemma idt_fill:
  fixes h :: u64
  assumes "length idt = 256" "n \<le> 256"
  shows "let filled = fold (\<lambda>v. set_handler (of_nat v) h) [0..<n] idt in
    length filled = 256 \<and> (\<forall>i<n. gate_target (filled ! i) = h \<and> kernel_gate (filled ! i))"
  using assms(2) unfolding Let_def
proof (induction n)
  case (Suc n)
  let ?t = "fold (\<lambda>v. set_handler (of_nat v) h) [0..<n] idt"
  have n: "unat (of_nat n :: u8) = n" using Suc.prems by (intro unat_of_nat_small) simp
  have IH: "length ?t = 256" "\<forall>i<n. gate_target (?t ! i) = h \<and> kernel_gate (?t ! i)" using Suc by simp_all
  then show ?case using set_handler_gate [OF IH(1)] Suc.prems set_handler_nth(4) [OF IH(1)] n
    by (auto simp: less_Suc_eq)
qed (use assms(1) in simp)

lemma bit_fields:
  "(0xFFFF :: u64) = mask 16" "(0xFFFFFF :: u64) = mask 24" "(0xFF :: u64) = mask 8" "(0xF :: u64) = mask 4"
  "(0xFFFFFFFF :: u64) = mask 32"
  by (simp_all add: mask_eq_exp_minus_1)

lemma byte_0x89: "bit (0x89 :: u64) n \<longleftrightarrow> n = 0 \<or> n = 3 \<or> n = 7"
  by (auto simp: bit_numeral_rec bit_1_iff numeral_eq_Suc split: nat.splits)

lemma bit_descriptor:
  fixes limit base acc :: u64
  assumes "n < 64" "\<forall>n. bit acc n \<longrightarrow> n < 8"
  shows "bit ((limit AND 0xFFFF) OR push_bit 16 (base AND 0xFFFFFF) OR push_bit 40 acc
     OR push_bit 48 (drop_bit 16 limit AND 0xF) OR push_bit 56 (drop_bit 24 base AND 0xFF)) n \<longleftrightarrow>
    (if n < 16 then bit limit n else if n < 40 then bit base (n - 16) else if n < 48 then bit acc (n - 40)
     else if n < 52 then bit limit (n - 32) else if n < 56 then False else bit base (n - 32))"
proof -
  have "\<not> bit acc (n - 40)" if "48 \<le> n"
  proof -
    have "\<not> n - 40 < 8" using that by simp
    then show ?thesis using assms(2) by blast
  qed
  then show ?thesis using assms(1)
    by (auto simp: bit_fields bit_or_iff bit_push_bit_iff bit_and_iff bit_mask_iff bit_drop_bit_eq)
qed

lemma bit_tss_low: "n < 64 \<Longrightarrow> bit (tss_low base limit) n \<longleftrightarrow>
    (if n < 16 then bit limit n else if n < 40 then bit base (n - 16) else if n < 48 then bit (0x89 :: u64) (n - 40)
     else if n < 52 then bit limit (n - 32) else if n < 56 then False else bit base (n - 32))"
  unfolding tss_low_def by (rule bit_descriptor) (simp_all only: byte_0x89, auto)

lemma tss_low_fields:
  assumes "\<forall>n. bit limit n \<longrightarrow> n < 20"
  shows "desc_base (tss_low base limit) = base AND 0xFFFFFFFF" "desc_limit (tss_low base limit) = limit"
    "desc_access (tss_low base limit) = 0x89"
proof -
  show "desc_base (tss_low base limit) = base AND 0xFFFFFFFF"
  proof (rule bit_word_eqI)
    fix n assume "n < LENGTH(64)"
    then have n: "n < 64" by simp
    consider "n < 24" | "24 \<le> n" "n < 32" | "32 \<le> n" by linarith
    then show "bit (desc_base (tss_low base limit)) n = bit (base AND 0xFFFFFFFF) n"
      using n by cases (auto simp: desc_base_def bit_fields bit_or_iff bit_push_bit_iff bit_and_iff bit_mask_iff bit_drop_bit_eq bit_tss_low)
  qed
  show "desc_limit (tss_low base limit) = limit"
  proof (rule bit_word_eqI)
    fix n assume "n < LENGTH(64)"
    then have n: "n < 64" by simp
    consider "n < 16" | "16 \<le> n" "n < 20" | "20 \<le> n" by linarith
    then show "bit (desc_limit (tss_low base limit)) n = bit limit n"
      using assms n by cases (auto simp: desc_limit_def bit_fields bit_or_iff bit_push_bit_iff bit_and_iff bit_mask_iff
          bit_drop_bit_eq bit_tss_low)
  qed
  show "desc_access (tss_low base limit) = 0x89"
  proof (rule bit_word_eqI)
    fix n
    have "bit (0x89 :: u64) n \<Longrightarrow> n < 8" by (simp only: byte_0x89) auto
    then show "bit (desc_access (tss_low base limit)) n = bit (0x89 :: u64) n"
      by (cases "n < 8") (auto simp: desc_access_def bit_fields bit_and_iff bit_mask_iff bit_drop_bit_eq bit_tss_low)
  qed
qed

section \<open>The controllers' view\<close>

text \<open>
  One 8259: after an initialisation command the next three bytes on the data port are the vector base, the cascade
  setting and the mode; every other byte on the data port is the mask of the interrupt lines.
\<close>

record pic8259 =
  pic_step :: nat
  pic_vectors :: u8
  pic_mode :: u8
  pic_mask :: u8

definition pic_receive :: "bool \<Rightarrow> u8 \<Rightarrow> pic8259 \<Rightarrow> pic8259" where
  "pic_receive data v p =
     (if \<not> data then (if bit v 4 then p\<lparr>pic_step := 1, pic_mask := 0\<rparr> else p)
      else if pic_step p = 1 then p\<lparr>pic_step := 2, pic_vectors := v\<rparr>
      else if pic_step p = 2 then p\<lparr>pic_step := 3\<rparr>
      else if pic_step p = 3 then p\<lparr>pic_step := 0, pic_mode := v\<rparr>
      else p\<lparr>pic_mask := v\<rparr>)"

text \<open>Master at ports 0x20 and 0x21, slave at 0xA0 and 0xA1.\<close>

definition pics_receive :: "u16 \<times> u8 \<Rightarrow> pic8259 \<times> pic8259 \<Rightarrow> pic8259 \<times> pic8259" where
  "pics_receive w = (\<lambda>(m, s). case w of (port, v) \<Rightarrow>
     if port = 0x20 \<or> port = 0x21 then (pic_receive (port = 0x21) v m, s)
     else if port = 0xA0 \<or> port = 0xA1 then (m, pic_receive (port = 0xA1) v s) else (m, s))"

text \<open>
  The I/O APIC at \<open>base\<close>: the register at \<open>base\<close> selects, the one at \<open>base + 0x10\<close> writes the selected register.
\<close>

definition ioapic_receive :: "u64 \<Rightarrow> u64 \<times> u64 \<Rightarrow> u32 \<times> (u32 \<Rightarrow> u32) \<Rightarrow> u32 \<times> (u32 \<Rightarrow> u32)" where
  "ioapic_receive base w = (\<lambda>(sel, regs). case w of (a, v) \<Rightarrow>
     if a = base then (ucast v, regs) else if a = base + 0x10 then (sel, regs(sel := ucast v)) else (sel, regs))"

text \<open>The volatile writes that a step has added, oldest first.\<close>

definition writes_since :: "xhci \<Rightarrow> xhci \<Rightarrow> (u64 \<times> u64) list" where
  "writes_since s s' = rev (take (length (xout s') - length (xout s)) (xout s'))"

lemma xout_w32: "xout (w32 a v s) = (a, ucast v) # xout s"
  by (simp add: w32_def poke32_def set_mem_def)

lemma redirect_writes:
  "writes_since s (ioapic_redirect base irq vector apic_id s) =
    [(base, ucast (0x10 + ucast irq * 2 :: u32)), (base + 0x10, ucast (ucast vector :: u32)),
     (base, ucast (0x10 + ucast irq * 2 + 1 :: u32)), (base + 0x10, ucast (push_bit 24 (ucast apic_id) :: u32))]"
  by (simp add: writes_since_def ioapic_redirect_def ioapic_write_def Let_def xout_w32)

section \<open>Properties\<close>

text \<open>C32. After \<^verbatim>\<open>kernel_main\<close> has set up the interrupt descriptor table, every one of the 256 vectors has a present
  ring 0 interrupt gate in the kernel code segment, and it leads to the handler meant for the vector: timer, keyboard,
  the two fault handlers, and the handler that only returns for all the others.\<close>

theorem boot_idt_gates:
  assumes "i < 256"
  shows "kernel_gate (boot_idt h idt_addr IDT_NEW ! i) \<and> gate_target (boot_idt h idt_addr IDT_NEW ! i) =
    (if i = 0x20 then timer_handler_asm h else if i = 0x21 then keyboard_handler_asm h
     else if i = 0x0D then gp_handler_asm h else if i = 0x0E then pf_handler_asm h else spurious_handler h)"
proof -
  let ?t = "fst (idt_init (spurious_handler h) idt_addr IDT_NEW)"
  have t: "length ?t = 256" "\<forall>i<256. gate_target (?t ! i) = spurious_handler h \<and> kernel_gate (?t ! i)"
    using idt_fill [of IDT_NEW 256 "spurious_handler h"] by (simp_all add: IDT_NEW_def idt_init_def Let_def)
  show ?thesis using assms t by (simp add: boot_idt_def Let_def set_handler_gate set_handler_nth(4))
qed

theorem boot_idt_gates_witness:
  "kernel_gate (boot_idt \<lparr>spurious_handler = 1, timer_handler_asm = 0xFFFF800000100000, keyboard_handler_asm = 3,
     gp_handler_asm = 4, pf_handler_asm = 5\<rparr> 0x5000 IDT_NEW ! 0x20)"
  using boot_idt_gates [of "0x20"] by simp

text \<open>C33. The task state segment descriptor that \<^verbatim>\<open>tss::init\<close> builds is read back by the processor as an available
  64-bit TSS at the address of the structure with its size, wherever the structure lies; the loaded table covers it, the
  task register selects it, and the code and data descriptors stay as they were.\<close>

theorem tss_descriptor_roundtrip:
  "\<exists>t' gdt'. tss_init tss_addr gdt_addr stack (t, build_gdt) = ((t', gdt'), (55, gdt_addr), 0x28) \<and>
    tss_rsp0 t' = stack \<and> iomap_base t' = 104 \<and>
    system_base (gdt' ! 5) (gdt' ! 6) = tss_addr \<and> desc_limit (gdt' ! 5) = 103 \<and> desc_access (gdt' ! 5) = 0x89 \<and>
    take 5 gdt' = take 5 build_gdt \<and> map desc_access (take 5 gdt') = [0, 0x9A, 0x92, 0xF2, 0xFA]"
proof -
  let ?g = "build_gdt[5 := tss_low tss_addr 103, 6 := drop_bit 32 tss_addr AND 0xFFFFFFFF]"
  have len: "length build_gdt = 512" by (simp add: build_gdt_def)
  have "\<forall>n. bit (103 :: u64) n \<longrightarrow> n < 20"
  proof (intro allI impI)
    fix n assume b: "bit (103 :: u64) n"
    have "take_bit 7 (103 :: u64) = 103" by simp
    with b have "bit (take_bit 7 (103 :: u64)) n" by (simp only:)
    then have "n < 7" by (simp only: bit_take_bit_iff)
    then show "n < 20" by simp
  qed
  note f = tss_low_fields [OF this, of tss_addr]
  have base: "system_base (?g ! 5) (?g ! 6) = tss_addr"
  proof (rule bit_word_eqI)
    fix n assume "n < LENGTH(64)"
    then have "n < 64" by simp
    moreover have "?g ! 5 = tss_low tss_addr 103" "?g ! 6 = drop_bit 32 tss_addr AND 0xFFFFFFFF" using len by simp_all
    ultimately show "bit (system_base (?g ! 5) (?g ! 6)) n = bit tss_addr n"
      by (simp only: system_base_def f(1))
        (auto simp: bit_fields bit_or_iff bit_push_bit_iff bit_and_iff bit_mask_iff bit_drop_bit_eq)
  qed
  have "take 5 ?g = take 5 build_gdt" by simp
  also have "\<dots> = [0, 0x00AF9A000000FFFF, 0x00CF92000000FFFF, 0x00CFF2000000FFFF, 0x00AFFA000000FFFF]"
    by (simp add: build_gdt_def numeral_eq_Suc)
  finally have "map desc_access (take 5 ?g) = [0, 0x9A, 0x92, 0xF2, 0xFA]" by (simp add: desc_access_def)
  then show ?thesis using base f len by (simp add: tss_init_def TSS_SIZE_def Let_def)
qed

text \<open>C34. Interrupts are routed to the table: the writes of \<^verbatim>\<open>pic::disable\<close> leave both 8259 controllers initialised,
  moved to the vectors from 32 and from 40, and with every line masked, from whatever state; and \<^verbatim>\<open>ioapic::redirect\<close> leaves
  the redirection entry of the line unmasked with the given vector and destination, and every other entry as it was.\<close>

theorem interrupts_routed:
  "(\<forall>m s. \<exists>m' s'. fold pics_receive pic_disable (m, s) = (m', s') \<and> pic_step m' = 0 \<and> pic_step s' = 0 \<and>
      pic_vectors m' = 32 \<and> pic_vectors s' = 40 \<and> pic_mode m' = 1 \<and> pic_mode s' = 1 \<and> pic_mask m' = 0xFF \<and> pic_mask s' = 0xFF)
   \<and> snd (fold (ioapic_receive base) (writes_since s (ioapic_redirect base irq vector apic_id s)) (sel, regs)) =
      regs(0x10 + ucast irq * 2 := ucast vector, 0x10 + ucast irq * 2 + 1 := push_bit 24 (ucast apic_id))"
proof
  show "\<forall>m s. \<exists>m' s'. fold pics_receive pic_disable (m, s) = (m', s') \<and> pic_step m' = 0 \<and> pic_step s' = 0 \<and>
      pic_vectors m' = 32 \<and> pic_vectors s' = 40 \<and> pic_mode m' = 1 \<and> pic_mode s' = 1 \<and> pic_mask m' = 0xFF \<and> pic_mask s' = 0xFF"
    by (simp add: pic_disable_def pics_receive_def pic_receive_def bit_numeral_rec)
  have "ucast (ucast v :: u64) = v" for v :: u32
    by (rule bit_word_eqI) (auto simp: bit_ucast_iff dest: bit_imp_le_length)
  then show "snd (fold (ioapic_receive base) (writes_since s (ioapic_redirect base irq vector apic_id s)) (sel, regs)) =
      regs(0x10 + ucast irq * 2 := ucast vector, 0x10 + ucast irq * 2 + 1 := push_bit 24 (ucast apic_id))"
    by (simp add: redirect_writes ioapic_receive_def)
qed

end
