(* ===== verification/Xhci_Rings.thy ===== *)
theory Xhci_Rings
  imports Xhci Sample_Kernel
begin

text \<open>
  The rings of the xHCI driver seen from the controller. The controller reads a ring from a
  position and a cycle state: a TRB belongs to it when the cycle bit agrees, and a Link TRB sends it
  back to the start and toggles the cycle state. A ring represents the list of all TRBs put into it
  (\<open>ring_log\<close>); the contract \<open>trb_producer\<close> of an operation that puts one TRB is met by
  \<^verbatim>\<open>post_command\<close> and \<^verbatim>\<open>queue_hid_transfer\<close>, and then the controller gets the TRBs in order, over any number of
  laps. The event ring is the converse: the controller puts, \<^verbatim>\<open>consume_event\<close> takes.
\<close>

section \<open>TRBs in memory\<close>

lemma read32_join:
  assumes "\<And>k. k < 4 \<Longrightarrow> m (a + of_nat k) = ucast (drop_bit (8 * k) v)"
  shows "read32 m a = v"
proof (rule bit_word_eqI)
  fix i assume "i < LENGTH(32)"
  then have i: "i < 32" by simp
  have bytes: "m a = ucast v" "m (a + 1) = ucast (drop_bit 8 v)" "m (a + 2) = ucast (drop_bit 16 v)"
    "m (a + 3) = ucast (drop_bit 24 v)"
    using assms [of 0] assms [of 1] assms [of 2] assms [of 3] by simp_all
  consider "i < 8" | "8 \<le> i" "i < 16" | "16 \<le> i" "i < 24" | "24 \<le> i" "i < 32" using i by linarith
  then show "bit (read32 m a) i = bit v i"
    by cases (simp_all add: read32_def bytes bit_or_iff bit_shifted_byte bit_ucast8 bit_ucast_iff
        bit_drop_bit_eq less_diff_conv2)
qed

lemma read32_cong:
  assumes "\<And>k. k < 4 \<Longrightarrow> m (a + of_nat k) = m' (a + of_nat k)"
  shows "read32 m a = read32 m' a"
  using assms [of 0] assms [of 1] assms [of 2] assms [of 3] by (simp add: read32_def)

lemma write32_inside: "k < 4 \<Longrightarrow> write32 m a v (a + of_nat k) = ucast (drop_bit (8 * k) v)"
  by (simp add: write32_def unat_of_nat_small)

lemma write32_outside: "4 \<le> unat (x - a) \<Longrightarrow> write32 m a v x = m x"
  by (simp add: write32_def)

lemma write64_outside: "8 \<le> unat (x - a) \<Longrightarrow> write64 m a v x = m x"
  by (simp add: write64_def)

lemma read32_write32_same [simp]: "read32 (write32 m a v) a = v"
  by (rule read32_join) (rule write32_inside)

text \<open>Offsets from one address.\<close>

definition gap :: "nat \<Rightarrow> nat \<Rightarrow> nat" where
  "gap x y = (if y \<le> x then x - y else x + 2 ^ 64 - y)"

lemma unat_gap:
  assumes "x < 2 ^ 32" "y < 2 ^ 32"
  shows "unat (of_nat x - of_nat y :: u64) = gap x y"
proof -
  have "unat (of_nat x :: u64) = x" "unat (of_nat y :: u64) = y"
    using assms by (simp_all add: unat_of_nat_small)
  then show ?thesis using assms by (simp add: unat_sub_if' gap_def)
qed

lemma unat_gap_base:
  "x < 2 ^ 32 \<Longrightarrow> y < 2 ^ 32 \<Longrightarrow> unat ((r + of_nat x) - (r + of_nat y) :: u64) = gap x y"
  using unat_gap [of x y] by simp

lemma write_trb_outside:
  assumes "16 \<le> unat (x - a)"
  shows "write_trb a t m x = m x"
proof -
  have "4 \<le> unat (x - (a + 8))" "4 \<le> unat (x - (a + 12))" "8 \<le> unat (x - a)"
  proof -
    have e: "unat (x - (a + of_nat k)) = unat (x - a) - k" if "k \<le> 12" for k
    proof -
      have "unat ((x - a) - of_nat k) = unat (x - a) - unat (of_nat k :: u64)"
        using assms that by (intro unat_sub) (simp add: word_le_nat_alt unat_of_nat_small)
      then show ?thesis using that by (simp add: unat_of_nat_small diff_diff_add)
    qed
    show "4 \<le> unat (x - (a + 8))" "4 \<le> unat (x - (a + 12))" "8 \<le> unat (x - a)"
      using e [of 8] e [of 12] assms by simp_all
  qed
  then show ?thesis by (simp add: write_trb_def write32_outside write64_outside)
qed

lemma read_trb_cong:
  assumes "\<And>k. k < 16 \<Longrightarrow> m (a + of_nat k) = m' (a + of_nat k)"
  shows "read_trb m a = read_trb m' a"
proof -
  have "m (a + 8 + of_nat k) = m' (a + 8 + of_nat k)" "m (a + 12 + of_nat k) = m' (a + 12 + of_nat k)"
    if "k < 4" for k using assms [of "8 + k"] assms [of "12 + k"] that by (simp_all add: add.assoc)
  then show ?thesis unfolding read_trb_def using assms by (simp cong: read64_cong read32_cong) 
qed

lemma trb_eqI: "param t = param u \<Longrightarrow> status t = status u \<Longrightarrow> control t = control u \<Longrightarrow> t = (u :: trb)"
  by simp

lemma write32_in_trb:
  "k < 16 \<Longrightarrow> j \<le> 12 \<Longrightarrow> k < j \<or> j + 4 \<le> k \<Longrightarrow> write32 m (a + of_nat j) v (a + of_nat k) = m (a + of_nat k)"
  by (rule write32_outside) (subst unat_gap_base; auto simp: gap_def)

lemma read_trb_write_trb [simp]: "read_trb (write_trb a t m) a = t"
proof (rule trb_eqI)
  let ?m1 = "write64 m a (param t)" and ?m2 = "write32 (write64 m a (param t)) (a + 8) (status t)"
  have "read64 (write32 ?m2 (a + 12) (control t)) a = read64 ?m2 a"
    using write32_in_trb [of _ 12 ?m2 a "control t"] by (intro read64_cong) simp
  also have "\<dots> = read64 ?m1 a" using write32_in_trb [of _ 8 ?m1 a "status t"] by (intro read64_cong) simp
  finally show "param (read_trb (write_trb a t m) a) = param t" by (simp add: read_trb_def write_trb_def)
  have "read32 (write32 ?m2 (a + 12) (control t)) (a + 8) = read32 ?m2 (a + 8)"
  proof (rule read32_cong)
    fix k :: nat assume "k < 4"
    then show "write32 ?m2 (a + 12) (control t) (a + 8 + of_nat k) = ?m2 (a + 8 + of_nat k)"
      using write32_in_trb [of "8 + k" 12 ?m2 a "control t"] by (simp add: add.assoc)
  qed
  then show "status (read_trb (write_trb a t m) a) = status t" by (simp add: read_trb_def write_trb_def)
qed (simp add: read_trb_def write_trb_def)

lemma read_trb_write_control: "read_trb (write32 m (a + 12) v) a = (read_trb m a)\<lparr>control := v\<rparr>"
proof (rule trb_eqI)
  show "param (read_trb (write32 m (a + 12) v) a) = param ((read_trb m a)\<lparr>control := v\<rparr>)"
    using write32_in_trb [of _ 12 m a v] by (simp add: read_trb_def cong: read64_cong)
  have "read32 (write32 m (a + 12) v) (a + 8) = read32 m (a + 8)"
  proof (rule read32_cong)
    fix k :: nat assume "k < 4"
    then show "write32 m (a + 12) v (a + 8 + of_nat k) = m (a + 8 + of_nat k)"
      using write32_in_trb [of "8 + k" 12 m a v] by (simp add: add.assoc)
  qed
  then show "status (read_trb (write32 m (a + 12) v) a) = status ((read_trb m a)\<lparr>control := v\<rparr>)"
    by (simp add: read_trb_def)
qed (simp add: read_trb_def)

section \<open>Slots of a ring\<close>

definition slot :: "mem \<Rightarrow> u64 \<Rightarrow> nat \<Rightarrow> trb" where
  "slot m ring i = read_trb m (trb_at ring i)"

text \<open>An access of \<open>n\<close> bytes from \<open>a\<close> stays off the page of a ring (device registers are not in RAM).\<close>

definition off_page :: "u64 \<Rightarrow> u64 \<Rightarrow> nat \<Rightarrow> bool" where
  "off_page ring a n \<longleftrightarrow> (\<forall>i<4096. n \<le> unat (ring + of_nat i - a))"

lemma trb_at_plus: "trb_at ring i + of_nat k = ring + of_nat (i * 16 + k)"
  by (simp add: trb_at_def)

lemma slot_cong:
  assumes "i < 256" "\<And>k. k < 4096 \<Longrightarrow> m (ring + of_nat k) = m' (ring + of_nat k)"
  shows "slot m ring i = slot m' ring i"
  unfolding slot_def
proof (rule read_trb_cong)
  fix k :: nat assume "k < 16"
  then show "m (trb_at ring i + of_nat k) = m' (trb_at ring i + of_nat k)"
    using assms(1) unfolding trb_at_plus by (intro assms(2)) simp
qed

lemma slot_write_off_page:
  assumes "i < 256"
  shows "off_page ring a 4 \<Longrightarrow> slot (write32 m a v) ring i = slot m ring i"
    and "off_page ring a 8 \<Longrightarrow> slot (write64 m a w) ring i = slot m ring i"
  using assms by (auto intro!: slot_cong write32_outside write64_outside simp: off_page_def)

lemma slot_write_trb:
  assumes "i < 256" "j < 256"
  shows "slot (write_trb (trb_at ring j) t m) ring i = (if i = j then t else slot m ring i)"
proof (cases "i = j")
  case False
  have "read_trb (write_trb (trb_at ring j) t m) (trb_at ring i) = read_trb m (trb_at ring i)"
  proof (rule read_trb_cong)
    fix k :: nat assume k: "k < 16"
    have "unat (trb_at ring i + of_nat k - (trb_at ring j + of_nat 0)) = gap (i * 16 + k) (j * 16 + 0)"
      unfolding trb_at_plus using assms k by (intro unat_gap_base) simp_all
    moreover have "16 \<le> gap (i * 16 + k) (j * 16 + 0)" using False k assms by (simp add: gap_def) linarith
    ultimately have e: "16 \<le> unat (trb_at ring i + of_nat k - trb_at ring j)" by simp
    show "write_trb (trb_at ring j) t m (trb_at ring i + of_nat k) = m (trb_at ring i + of_nat k)"
      using e by (rule write_trb_outside)
  qed
  then show ?thesis using False by (simp add: slot_def)
qed (simp add: slot_def)

lemma slot_write_control:
  assumes "i < 256" "j < 256"
  shows "slot (write32 m (trb_at ring j + 12) v) ring i =
    (if i = j then (slot m ring j)\<lparr>control := v\<rparr> else slot m ring i)"
proof (cases "i = j")
  case False
  have "read_trb (write32 m (trb_at ring j + 12) v) (trb_at ring i) = read_trb m (trb_at ring i)"
  proof (rule read_trb_cong)
    fix k :: nat assume k: "k < 16"
    have "unat (trb_at ring i + of_nat k - (trb_at ring j + of_nat 12)) = gap (i * 16 + k) (j * 16 + 12)"
      unfolding trb_at_plus using assms k by (intro unat_gap_base) simp_all
    moreover have "4 \<le> gap (i * 16 + k) (j * 16 + 12)" using False k assms by (simp add: gap_def) linarith
    ultimately have e: "4 \<le> unat (trb_at ring i + of_nat k - (trb_at ring j + 12))" by simp
    show "write32 m (trb_at ring j + 12) v (trb_at ring i + of_nat k) = m (trb_at ring i + of_nat k)"
      using e by (rule write32_outside)
  qed
  then show ?thesis using False by (simp add: slot_def)
qed (simp add: slot_def read_trb_write_control)

section \<open>The controller\<close>

text \<open>The cycle bit of lap \<open>n\<close> (laps are counted from 0), and a TRB stamped with it.\<close>

definition lap_bit :: "nat \<Rightarrow> u32" where
  "lap_bit n = (if even n then 1 else 0)"

definition stamp :: "nat \<Rightarrow> trb \<Rightarrow> trb" where
  "stamp n t = t\<lparr>control := control t OR lap_bit n\<rparr>"

definition trb_type :: "trb \<Rightarrow> u32" where
  "trb_type t = drop_bit 10 (control t) AND 0x3F"

text \<open>
  One fetch of the controller at an address with its cycle state: a Link TRB it owns is followed
  first; a TRB it owns is taken.
\<close>

definition follow_link :: "mem \<Rightarrow> u64 \<times> u32 \<Rightarrow> u64 \<times> u32" where
  "follow_link m pos = (case pos of (a, ccs) \<Rightarrow> let t = read_trb m a in
     if control t AND 1 = ccs \<and> trb_type t = 6
     then (param t AND NOT 0xF, if control t AND 2 \<noteq> 0 then ccs XOR 1 else ccs) else (a, ccs))"

definition fetch :: "mem \<Rightarrow> u64 \<times> u32 \<Rightarrow> (trb \<times> u64 \<times> u32) option" where
  "fetch m pos = (case follow_link m pos of (a, ccs) \<Rightarrow> let t = read_trb m a in
     if control t AND 1 = ccs then Some (t, a + 16, ccs) else None)"

text \<open>Where the controller stands after \<open>n\<close> TRBs: it follows the Link TRB only with the next fetch.\<close>

definition fetch_pos :: "u64 \<Rightarrow> nat \<Rightarrow> u64 \<times> u32" where
  "fetch_pos ring n = (if n mod 31 = 0 \<and> n > 0 then (trb_at ring 31, lap_bit (n div 31 - 1))
     else (trb_at ring (n mod 31), lap_bit (n div 31)))"

text \<open>A TRB to be put into a ring: the cycle bit is clear and it is not a Link TRB.\<close>

definition plain :: "trb \<Rightarrow> bool" where
  "plain t \<longleftrightarrow> control t AND 1 = 0 \<and> trb_type t \<noteq> 6"

lemma lap_bit_Suc: "lap_bit (Suc n) = lap_bit n XOR 1" "lap_bit n XOR 1 \<noteq> lap_bit n"
  by (simp_all add: lap_bit_def)

lemma lap_bit_and: "lap_bit n AND 1 = lap_bit n"
  by (simp add: lap_bit_def)

lemma control_stamp: "plain t \<Longrightarrow> control (stamp n t) AND 1 = lap_bit n"
  by (simp add: plain_def stamp_def bit.conj_disj_distrib2 lap_bit_and)

lemma trb_type_stamp: "trb_type (stamp n t) = trb_type t"
proof -
  have "drop_bit 10 (control t OR lap_bit n) = drop_bit 10 (control t)"
    by (simp add: drop_bit_or lap_bit_def)
  then show ?thesis by (simp add: trb_type_def stamp_def)
qed

lemma link_control_bits:
  "link_control (lap_bit n) AND 1 = lap_bit n" "link_control (lap_bit n) AND 2 \<noteq> 0"
  "drop_bit 10 (link_control (lap_bit n)) AND 0x3F = 6"
  by (simp_all add: link_control_def lap_bit_def TRB_LINK_def)

section \<open>The list of TRBs put into a ring\<close>

definition ring_log :: "mem \<Rightarrow> u64 \<Rightarrow> nat \<Rightarrow> u32 \<Rightarrow> trb list \<Rightarrow> bool" where
  "ring_log m ring enq pcs l \<longleftrightarrow>
     enq = length l mod 31 \<and> pcs = lap_bit (length l div 31) \<and>
     param (slot m ring 31) = ring \<and> ring AND 0xF = 0 \<and>
     (31 \<le> length l \<longrightarrow> control (slot m ring 31) = link_control (lap_bit (length l div 31 - 1))) \<and>
     (\<forall>k<length l. length l \<le> k + 31 \<longrightarrow> slot m ring (k mod 31) = stamp (k div 31) (l ! k)) \<and>
     (\<forall>i<31. length l \<le> i \<longrightarrow> control (slot m ring i) AND 1 = 0)"

text \<open>A slot the controller has consumed, or never got, has the wrong cycle bit for it.\<close>

lemma ring_log_next_free:
  assumes log: "ring_log m ring enq pcs l" and plain: "\<forall>t \<in> set l. plain t"
  shows "control (slot m ring (length l mod 31)) AND 1 \<noteq> lap_bit (length l div 31)"
proof (cases "length l < 31")
  case True
  then show ?thesis using log by (simp add: ring_log_def lap_bit_def)
next
  case False
  let ?k = "length l - 31"
  have k: "?k < length l" "?k mod 31 = length l mod 31" "Suc (?k div 31) = length l div 31"
    using False by (simp_all add: le_mod_geq le_div_geq not_less)
  have "slot m ring (?k mod 31) = stamp (?k div 31) (l ! ?k)" using log k(1) by (simp add: ring_log_def)
  then have "control (slot m ring (length l mod 31)) AND 1 = lap_bit (?k div 31)"
    using plain k(1,2) by (simp add: control_stamp)
  then show ?thesis using lap_bit_Suc [of "?k div 31"] k(3) by simp
qed

lemma and_not_disjoint: "x AND y = 0 \<Longrightarrow> x AND NOT y = x" for x y :: "'a::len word"
proof (rule bit_word_eqI)
  fix n assume "x AND y = 0" "n < LENGTH('a)"
  then have "\<not> (bit x n \<and> bit y n)" by (metis bit_and_iff bit_0_eq bot_apply bot_bool_def)
  then show "bit (x AND NOT y) n = bit x n" using \<open>n < _\<close> by (auto simp: bit_and_iff bit_not_iff)
qed

text \<open>What the controller finds once the Link TRB, if it stands there, is behind it.\<close>

lemma follow_link_pos:
  assumes log: "ring_log m ring enq pcs l" and plain: "\<forall>t \<in> set l. plain t"
    and n: "n \<le> length l" "length l \<le> n + 30"
  shows "follow_link m (fetch_pos ring n) = (trb_at ring (n mod 31), lap_bit (n div 31))"
proof (cases "n mod 31 = 0 \<and> n > 0")
  case True
  then have "31 \<le> n" by (metis mod_less not_less less_not_refl)
  moreover have "length l div 31 = n div 31"
  proof -
    obtain q where q: "n = 31 * q" using True by (metis mod_eq_0_iff_dvd dvdE)
    then show ?thesis using n by simp
  qed
  moreover have "Suc (n div 31 - 1) = n div 31" using \<open>31 \<le> n\<close> by (simp add: Suc_diff_le)
  ultimately have link: "control (slot m ring 31) = link_control (lap_bit (n div 31 - 1))"
    and bit: "lap_bit (n div 31 - 1) XOR 1 = lap_bit (n div 31)"
    using log n(1) lap_bit_Suc(1) [of "n div 31 - 1"] by (simp_all add: ring_log_def)
  have "param (slot m ring 31) AND NOT 0xF = ring"
  proof -
    have "ring AND NOT 0xF = ring"
      using log by (intro and_not_disjoint) (simp add: ring_log_def)
    then show ?thesis using log by (simp only: ring_log_def)
  qed
  moreover have "trb_at ring 0 = ring" by (simp add: trb_at_def)
  ultimately show ?thesis using True link bit
    unfolding follow_link_def fetch_pos_def slot_def [symmetric] trb_type_def
    by (simp add: slot_def [symmetric] link_control_bits)
next
  case False
  have "\<not> (control (slot m ring (n mod 31)) AND 1 = lap_bit (n div 31) \<and> trb_type (slot m ring (n mod 31)) = 6)"
  proof (cases "n = length l")
    case True
    then show ?thesis using ring_log_next_free [OF log plain] by simp
  next
    case False
    then have "n < length l" using n by simp
    then have "slot m ring (n mod 31) = stamp (n div 31) (l ! n)" using log n by (simp add: ring_log_def)
    then show ?thesis using plain \<open>n < length l\<close> by (simp add: trb_type_stamp plain_def)
  qed
  then show ?thesis using False by (auto simp: follow_link_def fetch_pos_def Let_def slot_def)
qed

lemma fetch_pos_Suc:
  "fetch_pos ring (Suc n) = (trb_at ring (n mod 31) + 16, lap_bit (n div 31))"
proof (cases "n mod 31 = 30")
  case True
  then have "Suc n mod 31 = 0" "Suc n div 31 - 1 = n div 31" by (simp_all add: mod_Suc div_Suc)
  then show ?thesis using True by (simp add: fetch_pos_def trb_at_def)
next
  case False
  then have "Suc n mod 31 = Suc (n mod 31)" "Suc n div 31 = n div 31"
    using mod_less_divisor [of 31 n] by (simp_all add: mod_Suc div_Suc)
  then show ?thesis by (simp add: fetch_pos_def trb_at_def algebra_simps)
qed

lemma ring_log_fetch:
  assumes log: "ring_log m ring enq pcs l" and plain: "\<forall>t \<in> set l. plain t"
    and n: "n \<le> length l" "length l \<le> n + 30"
  shows "fetch m (fetch_pos ring n) =
    (if n < length l then Some (stamp (n div 31) (l ! n), fetch_pos ring (Suc n)) else None)"
proof (cases "n < length l")
  case True
  then have "slot m ring (n mod 31) = stamp (n div 31) (l ! n)" using log n by (simp add: ring_log_def)
  moreover have "control (stamp (n div 31) (l ! n)) AND 1 = lap_bit (n div 31)"
    using plain True by (simp add: control_stamp)
  ultimately show ?thesis
    using True by (simp add: fetch_def follow_link_pos [OF assms] fetch_pos_Suc slot_def [symmetric])
next
  case False
  then have "n = length l" using n by simp
  then show ?thesis
    using ring_log_next_free [OF log plain]
    unfolding fetch_def follow_link_pos [OF assms] by (simp add: slot_def [symmetric])
qed

lemma mod_31_apart: "k < n \<Longrightarrow> n < k + 31 \<Longrightarrow> k mod 31 \<noteq> n mod 31" for k n :: nat
  by (metis add.commute add_diff_inverse_nat diff_less dvd_imp_le less_diff_conv2 less_imp_le_nat mod_eq_dvd_iff_nat
      not_less zero_less_diff)

section \<open>Operations that put one TRB\<close>

text \<open>
  The contract: the TRB goes to the enqueue position with the current cycle bit; behind the last slot
  the Link TRB gets that cycle bit, the position returns to 0 and the cycle bit toggles. \<open>ready\<close> says
  when the operation may be used.
\<close>

locale trb_producer =
  fixes put :: "'c \<Rightarrow> 's \<Rightarrow> 's" and make :: "'c \<Rightarrow> 's \<Rightarrow> trb" and ready :: "'s \<Rightarrow> bool"
    and memory :: "'s \<Rightarrow> mem" and ring :: "'s \<Rightarrow> u64" and enq :: "'s \<Rightarrow> nat" and pcs :: "'s \<Rightarrow> u32"
  assumes put_ring: "ring (put c s) = ring s"
    and put_enq: "enq s < 31 \<Longrightarrow> enq (put c s) = (if enq s = 30 then 0 else enq s + 1)"
    and put_pcs: "enq s < 31 \<Longrightarrow> pcs (put c s) = (if enq s = 30 then pcs s XOR 1 else pcs s)"
    and put_slot: "ready s \<Longrightarrow> enq s < 31 \<Longrightarrow> i < 32 \<Longrightarrow> slot (memory (put c s)) (ring s) i =
      (if i = enq s then (make c s)\<lparr>control := control (make c s) OR pcs s\<rparr>
       else if i = 31 \<and> enq s = 30 then (slot (memory s) (ring s) 31)\<lparr>control := link_control (pcs s)\<rparr>
       else slot (memory s) (ring s) i)"
begin

definition holds :: "trb list \<Rightarrow> 's \<Rightarrow> bool" where
  "holds l s \<longleftrightarrow> ring_log (memory s) (ring s) (enq s) (pcs s) l"

lemma put_holds:
  assumes log: "holds l s" and ready: "ready s"
  shows "holds (l @ [make c s]) (put c s)"
proof -
  let ?n = "length l" and ?m = "memory (put c s)"
  have e: "enq s = ?n mod 31" and p: "pcs s = lap_bit (?n div 31)" and lt: "enq s < 31"
    using log by (simp_all add: holds_def ring_log_def)
  note put_slot' = put_slot [OF ready lt, where c = c]
  have new: "slot ?m (ring s) (?n mod 31) = stamp (?n div 31) (make c s)"
    using put_slot' [of "?n mod 31"] e p lt by (simp add: stamp_def)
  have old: "slot ?m (ring s) i = slot (memory s) (ring s) i" if "i < 31" "i \<noteq> ?n mod 31" for i
    using put_slot' [of i] e that by simp
  have "enq (put c s) = Suc ?n mod 31" using put_enq [OF lt, of c] e by (auto simp: mod_Suc)
  moreover have "pcs (put c s) = lap_bit (Suc ?n div 31)"
    using put_pcs [OF lt, of c] e p lap_bit_Suc(1) by (auto simp: div_Suc mod_Suc)
  moreover have "param (slot ?m (ring s) 31) = ring s" "ring s AND 0xF = 0"
    using put_slot' [of 31] lt log by (auto simp: holds_def ring_log_def)
  moreover have "control (slot ?m (ring s) 31) = link_control (lap_bit (Suc ?n div 31 - 1))" if "31 \<le> Suc ?n"
  proof (cases "?n mod 31 = 30")
    case True
    then show ?thesis using put_slot' [of 31] e p by (simp add: div_Suc mod_Suc)
  next
    case False
    then have "31 \<le> ?n" "Suc ?n div 31 = ?n div 31" using that by (auto simp: le_Suc_eq div_Suc mod_Suc)
    then show ?thesis using put_slot' [of 31] e False log lt by (simp add: holds_def ring_log_def)
  qed
  moreover have "slot ?m (ring s) (k mod 31) = stamp (k div 31) ((l @ [make c s]) ! k)"
    if k: "k < Suc ?n" "Suc ?n \<le> k + 31" for k
  proof (cases "k = ?n")
    case False
    then have "k mod 31 \<noteq> ?n mod 31" using k by (intro mod_31_apart) simp_all
    then show ?thesis using old [of "k mod 31"] log k False by (simp add: holds_def ring_log_def nth_append)
  qed (simp add: new)
  moreover have "control (slot ?m (ring s) i) AND 1 = 0" if "i < 31" "Suc ?n \<le> i" for i
    using old [of i] that log by (simp add: holds_def ring_log_def)
  ultimately show ?thesis by (simp add: holds_def ring_log_def put_ring)
qed

end

section \<open>Command ring and keyboard ring\<close>

lemma kmem_simps [simp]:
  "kmem (set_mem f s) = f (kmem s)" "kmem (poke32 a v s) = write32 (kmem s) a v"
  "kmem (poke64 a w s) = write64 (kmem s) a w" "kmem (w32 a v s) = write32 (kmem s) a v"
  "kmem (w64 a w s) = write64 (kmem s) a w"
  by (simp_all add: set_mem_def poke32_def poke64_def w32_def w64_def)

lemma ring_fields [simp]:
  "cmd_ring (set_mem f s) = cmd_ring s" "cmd_enq (set_mem f s) = cmd_enq s" "cmd_pcs (set_mem f s) = cmd_pcs s"
  "hid_tr_ring (set_mem f s) = hid_tr_ring s" "hid_tr_enq (set_mem f s) = hid_tr_enq s"
  "hid_tr_pcs (set_mem f s) = hid_tr_pcs s" "db_base (set_mem f s) = db_base s" "op_base (set_mem f s) = op_base s"
  "hid_slot (set_mem f s) = hid_slot s" "hid_buf (set_mem f s) = hid_buf s"
  by (simp_all add: set_mem_def)

lemma ring_fields_poke [simp]:
  "cmd_ring (poke32 a v s) = cmd_ring s" "cmd_enq (poke32 a v s) = cmd_enq s" "cmd_pcs (poke32 a v s) = cmd_pcs s"
  "hid_tr_ring (poke32 a v s) = hid_tr_ring s" "hid_tr_enq (poke32 a v s) = hid_tr_enq s"
  "hid_tr_pcs (poke32 a v s) = hid_tr_pcs s" "db_base (poke32 a v s) = db_base s" "op_base (poke32 a v s) = op_base s"
  "hid_slot (poke32 a v s) = hid_slot s" "hid_buf (poke32 a v s) = hid_buf s"
  by (simp_all add: poke32_def)

lemma ring_fields_w32 [simp]:
  "cmd_ring (w32 a v s) = cmd_ring s" "cmd_enq (w32 a v s) = cmd_enq s" "cmd_pcs (w32 a v s) = cmd_pcs s"
  "hid_tr_ring (w32 a v s) = hid_tr_ring s" "hid_tr_enq (w32 a v s) = hid_tr_enq s"
  "hid_tr_pcs (w32 a v s) = hid_tr_pcs s" "db_base (w32 a v s) = db_base s" "op_base (w32 a v s) = op_base s"
  by (simp_all add: w32_def)

lemma ring_fields_w64 [simp]:
  "cmd_ring (w64 a v s) = cmd_ring s" "cmd_enq (w64 a v s) = cmd_enq s" "cmd_pcs (w64 a v s) = cmd_pcs s"
  "db_base (w64 a v s) = db_base s" "op_base (w64 a v s) = op_base s"
  by (simp_all add: w64_def poke64_def)

definition command :: "u64 \<times> u32 \<times> u32 \<Rightarrow> trb" where
  "command c = \<lparr>param = fst c, status = fst (snd c), control = snd (snd c)\<rparr>"

interpretation cmd: trb_producer "\<lambda>(p, st, ctl). post_command p st ctl" "\<lambda>c s. command c"
  "\<lambda>s. off_page (cmd_ring s) (db_base s) 4" kmem cmd_ring cmd_enq cmd_pcs
  by unfold_locales
    (auto simp: post_command_def Let_def command_def slot_write_trb slot_write_control slot_write_off_page)

definition hid_request :: "xhci \<Rightarrow> trb" where
  "hid_request s = \<lparr>param = hid_buf s, status = 8, control = TRB_NORMAL OR push_bit 5 1\<rparr>"

interpretation hid: trb_producer queue_hid_transfer "\<lambda>_. hid_request"
  "\<lambda>s. off_page (hid_tr_ring s) (db_base s + ucast (hid_slot s) * 4) 4" kmem hid_tr_ring hid_tr_enq hid_tr_pcs
  by unfold_locales
    (auto simp: queue_hid_transfer_def Let_def hid_request_def slot_write_trb slot_write_control slot_write_off_page
      or.assoc)

lemma hid_request_plain: "plain (hid_request s)"
  by (simp add: plain_def hid_request_def trb_type_def TRB_NORMAL_def)

text \<open>A page of zeros with a Link TRB is the empty ring.\<close>

lemma slot_zero_page: "i < 32 \<Longrightarrow> slot (write_bytes m ring 0 4096) ring i = \<lparr>param = 0, status = 0, control = 0\<rparr>"
proof -
  assume i: "i < 32"
  have z: "write_bytes m ring 0 4096 (ring + of_nat k) = 0" if "k < 4096" for k
    using that by (simp add: write_bytes_def unat_of_nat_small)
  have "slot (write_bytes m ring 0 4096) ring i = slot (\<lambda>_. 0) ring i"
    using i z by (intro slot_cong) simp_all
  also have "\<dots> = \<lparr>param = 0, status = 0, control = 0\<rparr>"
    by (simp add: slot_def read_trb_def read64_def read32_def)
  finally show ?thesis .
qed

lemma page_low_bits: "unat a = p * 4096 \<Longrightarrow> a AND 0xF = 0" for a :: u64
proof -
  assume "unat a = p * 4096"
  then have "unat (a AND mask 4) = 0" by (simp add: unat_and_mask)
  then show ?thesis by (simp add: unsigned_eq_0_iff mask_eq_exp_minus_1)
qed

lemma ring_log_start:
  assumes "unat ring = p * 4096" "slot m ring 31 = \<lparr>param = ring, status = 0, control = link_control 1\<rparr>"
    "\<forall>i<31. slot m ring i = \<lparr>param = 0, status = 0, control = 0\<rparr>"
  shows "ring_log m ring 0 1 []"
  using assms page_low_bits [OF assms(1)] by (simp add: ring_log_def lap_bit_def)

lemma new_ring_log:
  assumes "unat ring = p * 4096"
  shows "ring_log (write_trb (trb_at ring 31) \<lparr>param = ring, status = 0, control = link_control 1\<rparr>
    (write_bytes m ring 0 4096)) ring 0 1 []"
  using assms by (intro ring_log_start) (simp_all add: slot_write_trb slot_zero_page)

lemma ring_log_frame:
  "ring_log m ring enq pcs l \<Longrightarrow> (\<And>k. k < 4096 \<Longrightarrow> m' (ring + of_nat k) = m (ring + of_nat k)) \<Longrightarrow>
    ring_log m' ring enq pcs l"
proof -
  assume log: "ring_log m ring enq pcs l" and same: "\<And>k. k < 4096 \<Longrightarrow> m' (ring + of_nat k) = m (ring + of_nat k)"
  have "slot m' ring i = slot m ring i" if "i < 32" for i using that same by (intro slot_cong) simp_all
  then show ?thesis using log by (simp add: ring_log_def)
qed

lemma ring_log_write64:
  "ring_log m ring enq pcs l \<Longrightarrow> off_page ring a 8 \<Longrightarrow> ring_log (write64 m a v) ring enq pcs l"
  by (erule ring_log_frame) (simp add: write64_outside off_page_def)

lemma consume_event_keeps:
  assumes "consume_event s = (ev, s')"
  shows "cmd_ring s' = cmd_ring s \<and> op_base s' = op_base s \<and> db_base s' = db_base s"
  using assms by (auto simp: consume_event_def Let_def dma_tick_def split: if_splits)

lemma drain_loop_keeps:
  "drain_loop n s = Inr s' \<Longrightarrow> cmd_ring s' = cmd_ring s \<and> op_base s' = op_base s"
  by (induction n arbitrary: s) (auto split: prod.splits if_splits dest!: consume_event_keeps)

lemma spin_while_keeps: "cmd_ring (spin_while n c a s) = cmd_ring s \<and> op_base (spin_while n c a s) = op_base s"
proof (induction n arbitrary: s)
  case 0
  then show ?case by (simp add: spin_while.simps [of 0] r32_def)
next
  case (Suc n)
  then show ?case by (simp add: spin_while.simps [of "Suc n"] r32_def)
qed

text \<open>
  Runs of the command ring, with the list of commands posted since it was set up: set up by \<^verbatim>\<open>init\<close>, set up
  again by \<^verbatim>\<open>recover_cmd_ring\<close>, commands posted, and anything else that leaves the ring alone. The
  registers are not in the page of the ring.
\<close>

inductive cmd_run :: "trb list \<Rightarrow> xhci \<Rightarrow> bool" where
  init: "init_cmd_ring s = Inr s' \<Longrightarrow> bitmap_ok (kbitmap s) \<Longrightarrow> off_page (cmd_ring s') (op_base s' + 0x18) 8 \<Longrightarrow>
    cmd_run [] s'"
| recover: "cmd_run l s \<Longrightarrow> recover_cmd_ring s = Inr s' \<Longrightarrow> off_page (cmd_ring s) (op_base s + 0x18) 8 \<Longrightarrow> cmd_run [] s'"
| post: "cmd_run l s \<Longrightarrow> plain (command (p, st, ctl)) \<Longrightarrow> off_page (cmd_ring s) (db_base s) 4 \<Longrightarrow>
    cmd_run (l @ [command (p, st, ctl)]) (post_command p st ctl s)"
| other: "cmd_run l s \<Longrightarrow> cmd_ring s' = cmd_ring s \<Longrightarrow> cmd_enq s' = cmd_enq s \<Longrightarrow> cmd_pcs s' = cmd_pcs s \<Longrightarrow>
    (\<forall>k<4096. kmem s' (cmd_ring s + of_nat k) = kmem s (cmd_ring s + of_nat k)) \<Longrightarrow> cmd_run l s'"

lemma init_cmd_ring_log:
  assumes "init_cmd_ring s = Inr s'" "bitmap_ok (kbitmap s)" "off_page (cmd_ring s') (op_base s' + 0x18) 8"
  shows "cmd.holds [] s' \<and> (\<exists>p. unat (cmd_ring s') = p * 4096)"
proof -
  from assms(1) obtain ring bm where al: "pmm_alloc (kbitmap s) = Inr (ring, bm)"
    and r: "cmd_ring s' = ring" "cmd_enq s' = 0" "cmd_pcs s' = 1"
    and m: "kmem s' = write64 (write_trb (trb_at ring 31) \<lparr>param = ring, status = 0, control = link_control 1\<rparr>
      (write_bytes (kmem s) ring 0 4096)) (op_base s' + 0x18) (ring OR 1)"
    by (auto simp: init_cmd_ring_def alloc_page_def Let_def res_simps)
  have a: "unat ring = page_no ring * 4096" using pmm_alloc_InrD(2) [OF assms(2) al] .
  show ?thesis unfolding cmd.holds_def r m
    using ring_log_write64 [OF new_ring_log [OF a]] assms(3) a r(1) by auto
qed

lemma recover_cmd_ring_log:
  assumes "recover_cmd_ring s = Inr s'" "unat (cmd_ring s) = p * 4096" "off_page (cmd_ring s) (op_base s + 0x18) 8"
  shows "cmd.holds [] s' \<and> cmd_ring s' = cmd_ring s"
proof -
  obtain s2 where d: "drain_events (abort_command s) = Inr s2" and s': "s' = restart_cmd_ring s2"
    using assms(1) by (auto simp: recover_cmd_ring_def res_simps)
  have "cmd_ring (abort_command s) = cmd_ring s \<and> op_base (abort_command s) = op_base s"
    by (simp add: abort_command_def Let_def r32_def spin_while_keeps)
  then have s2: "cmd_ring s2 = cmd_ring s" "op_base s2 = op_base s"
    using drain_loop_keeps d by (auto simp: drain_events_def)
  show ?thesis using ring_log_write64 [OF new_ring_log [OF assms(2)] assms(3)]
    by (simp add: cmd.holds_def s' s2 restart_cmd_ring_def Let_def)
qed

lemma cmd_run_holds: "cmd_run l s \<Longrightarrow> cmd.holds l s \<and> (\<forall>t \<in> set l. plain t) \<and> (\<exists>p. unat (cmd_ring s) = p * 4096)"
proof (induction rule: cmd_run.induct)
  case (init s s')
  then show ?case using init_cmd_ring_log by auto
next
  case (recover l s s')
  then show ?case using recover_cmd_ring_log by auto
next
  case (post l s p st ctl)
  then show ?case using cmd.put_holds [of l s "(p, st, ctl)"] cmd.put_ring [of "(p, st, ctl)" s] by auto
next
  case (other l s s')
  then show ?case using ring_log_frame by (auto simp: cmd.holds_def)
qed

text \<open>
  Runs of the transfer ring of the keyboard, from the page that \<^verbatim>\<open>configure_hid_endpoint\<close> sets up.
\<close>

inductive hid_run :: "trb list \<Rightarrow> xhci \<Rightarrow> bool" where
  fresh: "new_tr_ring s0 = Inr (ring, s1) \<Longrightarrow> bitmap_ok (kbitmap s0) \<Longrightarrow>
    hid_tr_ring s = ring \<Longrightarrow> hid_tr_enq s = 0 \<Longrightarrow> hid_tr_pcs s = 1 \<Longrightarrow>
    (\<forall>k<4096. kmem s (ring + of_nat k) = kmem s1 (ring + of_nat k)) \<Longrightarrow> hid_run [] s"
| queue: "hid_run l s \<Longrightarrow> off_page (hid_tr_ring s) (db_base s + ucast (hid_slot s) * 4) 4 \<Longrightarrow>
    hid_run (l @ [hid_request s]) (queue_hid_transfer ep_idx s)"
| other: "hid_run l s \<Longrightarrow> hid_tr_ring s' = hid_tr_ring s \<Longrightarrow> hid_tr_enq s' = hid_tr_enq s \<Longrightarrow>
    hid_tr_pcs s' = hid_tr_pcs s \<Longrightarrow>
    (\<forall>k<4096. kmem s' (hid_tr_ring s + of_nat k) = kmem s (hid_tr_ring s + of_nat k)) \<Longrightarrow> hid_run l s'"

lemma read_trb_write64_param: "read_trb (write64 m a v) a = (read_trb m a)\<lparr>param := v\<rparr>"
proof (rule trb_eqI)
  have e: "write64 m a v (a + of_nat j + of_nat k) = m (a + of_nat j + of_nat k)" if "8 \<le> j" "j \<le> 12" "k < 4" for j k
    using that unat_gap_base [of "j + k" 0 a] by (intro write64_outside) (simp add: gap_def add.assoc)
  show "status (read_trb (write64 m a v) a) = status ((read_trb m a)\<lparr>param := v\<rparr>)"
    using e [of 8] by (simp add: read_trb_def cong: read32_cong)
  show "control (read_trb (write64 m a v) a) = control ((read_trb m a)\<lparr>param := v\<rparr>)"
    using e [of 12] by (simp add: read_trb_def cong: read32_cong)
qed (simp add: read_trb_def)

lemma slot_write_param:
  assumes "i < 256" "j < 256"
  shows "slot (write64 m (trb_at ring j) v) ring i = (if i = j then (slot m ring j)\<lparr>param := v\<rparr> else slot m ring i)"
proof (cases "i = j")
  case False
  have "read_trb (write64 m (trb_at ring j) v) (trb_at ring i) = read_trb m (trb_at ring i)"
  proof (rule read_trb_cong)
    fix k :: nat assume k: "k < 16"
    have "unat (trb_at ring i + of_nat k - (trb_at ring j + of_nat 0)) = gap (i * 16 + k) (j * 16 + 0)"
      unfolding trb_at_plus using assms k by (intro unat_gap_base) simp_all
    moreover have "8 \<le> gap (i * 16 + k) (j * 16 + 0)" using False k assms by (simp add: gap_def) linarith
    ultimately have e: "8 \<le> unat (trb_at ring i + of_nat k - trb_at ring j)" by simp
    show "write64 m (trb_at ring j) v (trb_at ring i + of_nat k) = m (trb_at ring i + of_nat k)"
      using e by (rule write64_outside)
  qed
  then show ?thesis using False by (simp add: slot_def)
qed (simp add: slot_def read_trb_write64_param)

lemma new_tr_ring_log:
  assumes "new_tr_ring s = Inr (ring, s')" "bitmap_ok (kbitmap s)"
  shows "ring_log (kmem s') ring 0 1 []"
proof -
  from assms(1) obtain bm where al: "pmm_alloc (kbitmap s) = Inr (ring, bm)"
    and m: "kmem s' = write32 (write64 (write_bytes (kmem s) ring 0 4096) (trb_at ring 31) ring)
      (trb_at ring 31 + 12) (link_control 1)"
    by (auto simp: new_tr_ring_def alloc_page_def res_simps)
  show ?thesis unfolding m using pmm_alloc_InrD(2) [OF assms(2) al]
    by (rule ring_log_start) (simp_all add: slot_write_control slot_write_param slot_zero_page)
qed

lemma hid_run_holds: "hid_run l s \<Longrightarrow> hid.holds l s \<and> (\<forall>t \<in> set l. plain t)"
proof (induction rule: hid_run.induct)
  case (fresh s0 ring s1 s)
  then show ?case using ring_log_frame [OF new_tr_ring_log [OF fresh.hyps(1,2)]] by (simp add: hid.holds_def)
next
  case (queue l s ep_idx)
  then show ?case using hid.put_holds [of l s ep_idx] hid_request_plain by auto
next
  case (other l s s')
  then show ?case using ring_log_frame by (auto simp: hid.holds_def)
qed

section \<open>Event ring\<close>

text \<open>
  The list of all events the controller has written since the ring was set up, 256 slots per lap. Older
  events may be overwritten by later laps.
\<close>

definition evt_log :: "mem \<Rightarrow> u64 \<Rightarrow> trb list \<Rightarrow> bool" where
  "evt_log m ring l \<longleftrightarrow>
     (\<forall>k<length l. length l \<le> k + 256 \<longrightarrow> slot m ring (k mod 256) = stamp (k div 256) (l ! k)) \<and>
     (\<forall>i<256. length l \<le> i \<longrightarrow> control (slot m ring i) AND 1 = 0)"

text \<open>The driver has taken \<open>n\<close> events.\<close>

definition evt_taken :: "nat \<Rightarrow> xhci \<Rightarrow> bool" where
  "evt_taken n s \<longleftrightarrow> evt_deq s = n mod 256 \<and> evt_ccs s = lap_bit (n div 256)"

text \<open>What the driver reads from an event: type, completion code, slot.\<close>

definition event :: "trb \<Rightarrow> u32 \<times> u32 \<times> u32" where
  "event t = (trb_type t, drop_bit 24 (status t) AND 0xFF, drop_bit 24 (control t))"

lemma event_stamp: "event (stamp n t) = event t"
proof -
  have "drop_bit 24 (control t OR lap_bit n) = drop_bit 24 (control t)" by (simp add: drop_bit_or lap_bit_def)
  then show ?thesis by (simp add: event_def trb_type_stamp) (simp add: stamp_def)
qed

lemma evt_log_next:
  assumes log: "evt_log m ring l" and clear: "\<forall>t \<in> set l. control t AND 1 = 0"
    and n: "n \<le> length l" "length l \<le> n + 256"
  shows "if n < length l then slot m ring (n mod 256) = stamp (n div 256) (l ! n)
    else control (slot m ring (n mod 256)) AND 1 \<noteq> lap_bit (n div 256)"
proof (cases "n < length l")
  case False
  then have n': "n = length l" using n by simp
  show ?thesis
  proof (cases "n < 256")
    case True
    then show ?thesis using log n' by (simp add: evt_log_def lap_bit_def)
  next
    case False
    let ?k = "n - 256"
    have k: "?k < length l" "?k mod 256 = n mod 256" "Suc (?k div 256) = n div 256" "length l \<le> ?k + 256"
      using False n' by (simp_all add: le_mod_geq le_div_geq not_less)
    have "slot m ring (n mod 256) = stamp (?k div 256) (l ! ?k)"
      using log k(1,4) unfolding evt_log_def k(2) [symmetric] by blast
    then show ?thesis using n' clear k(1) lap_bit_Suc [of "?k div 256"] k(3)
      by (simp add: stamp_def bit.conj_disj_distrib2 lap_bit_and)
  qed
qed (use log n in \<open>simp add: evt_log_def\<close>)

lemma evt_fields [simp]:
  "evt_ring (w64 a v s) = evt_ring s" "evt_deq (w64 a v s) = evt_deq s" "evt_ccs (w64 a v s) = evt_ccs s"
  "xdev (w64 a v s) = xdev s" "xclock (w64 a v s) = xclock s" "rt_base (w64 a v s) = rt_base s"
  by (simp_all add: w64_def poke64_def set_mem_def)

lemma evt_log_write64: "evt_log m ring l \<Longrightarrow> off_page ring a 8 \<Longrightarrow> evt_log (write64 m a v) ring l"
  by (simp add: evt_log_def slot_write_off_page)

lemma xout_w64: "xout (w64 a v s) = (a, v) # xout s"
  by (simp add: w64_def poke64_def set_mem_def)

text \<open>One look at the event ring.\<close>

lemma consume_event_spec:
  assumes log: "evt_log (dma (xdev s) (xclock s) (kmem s)) (evt_ring s) l" and clear: "\<forall>t \<in> set l. control t AND 1 = 0"
    and n: "n \<le> length l" "length l \<le> n + 256" and taken: "evt_taken n s"
    and off: "off_page (evt_ring s) (rt_base s + 0x38) 8"
  shows "\<exists>s'. consume_event s = (if n < length l then Some (event (l ! n)) else None, s') \<and>
    evt_taken (if n < length l then Suc n else n) s' \<and> evt_log (kmem s') (evt_ring s) l \<and>
    evt_ring s' = evt_ring s \<and> rt_base s' = rt_base s \<and> xdev s' = xdev s \<and>
    (n < length l \<longrightarrow> xout s' = (rt_base s + 0x38, trb_at (evt_ring s) (Suc n mod 256) OR 8) # xout s)"
proof -
  let ?m = "dma (xdev s) (xclock s) (kmem s)" and ?t = "l ! n"
  have e: "consume_event s = (let trb = slot ?m (evt_ring s) (n mod 256); s1 = dma_tick s in
      if control trb AND 1 \<noteq> lap_bit (n div 256) then (None, s1)
      else (Some (event trb), let
          s2 = s1\<lparr>evt_deq := Suc n mod 256, evt_ccs := lap_bit (Suc n div 256)\<rparr> in
        w64 (rt_base s + 0x38) (trb_at (evt_ring s) (Suc n mod 256) OR 8) s2))"
    using taken by (cases s) (auto simp: consume_event_def dma_tick_def Let_def slot_def event_def trb_type_def evt_taken_def
        EVT_RING_SIZE_def mod_Suc div_Suc lap_bit_Suc(1) add.commute)
  note slot_next = evt_log_next [OF log clear n]
  show ?thesis
  proof (cases "n < length l")
    case True
    then have "slot ?m (evt_ring s) (n mod 256) = stamp (n div 256) ?t" using slot_next by simp
    moreover have "control (stamp (n div 256) ?t) AND 1 = lap_bit (n div 256)"
      using clear True by (simp add: stamp_def bit.conj_disj_distrib2 lap_bit_and)
    ultimately show ?thesis using True log off
      by (simp add: e Let_def event_stamp evt_taken_def dma_tick_def evt_log_write64 xout_w64)
  next
    case False
    then show ?thesis using slot_next log taken by (simp add: e Let_def evt_taken_def dma_tick_def)
  qed
qed

text \<open>Draining takes every event that is there, when the controller adds none meanwhile.\<close>

lemma drain_loop_takes:
  assumes "\<forall>t m. dma (xdev s) t m = m" "evt_log (kmem s) (evt_ring s) l" "\<forall>t \<in> set l. control t AND 1 = 0"
    "n \<le> length l" "length l \<le> n + 256" "evt_taken n s" "off_page (evt_ring s) (rt_base s + 0x38) 8"
    "length l - n < fuel"
  shows "\<exists>s'. drain_loop fuel s = Inr s' \<and> evt_taken (length l) s' \<and> evt_log (kmem s') (evt_ring s) l"
  using assms
proof (induction fuel arbitrary: s n)
  case (Suc fuel)
  have "evt_log (dma (xdev s) (xclock s) (kmem s)) (evt_ring s) l" using Suc.prems(1,2) by simp
  from consume_event_spec [OF this Suc.prems(3-7)] obtain s1 where
    c: "consume_event s = (if n < length l then Some (event (l ! n)) else None, s1)"
    and s1: "evt_taken (if n < length l then Suc n else n) s1" "evt_log (kmem s1) (evt_ring s) l"
      "evt_ring s1 = evt_ring s" "rt_base s1 = rt_base s" "xdev s1 = xdev s" by blast
  show ?case
  proof (cases "n < length l")
    case True
    have "\<exists>s'. drain_loop fuel s1 = Inr s' \<and> evt_taken (length l) s' \<and> evt_log (kmem s') (evt_ring s1) l"
      using True s1 Suc.prems by (intro Suc.IH [of s1 "Suc n"]) simp_all
    then show ?thesis using c True s1(3) by simp
  next
    case False
    then show ?thesis using c s1 Suc.prems(4) by simp
  qed
qed simp

section \<open>Properties\<close>

text \<open>A state for the witnesses: registers at \<^verbatim>\<open>0xFEB00000\<close>, the page at \<^verbatim>\<open>0x201000\<close> is the event ring.\<close>

definition sample_device :: device where
  "sample_device = \<lparr>mmio_in = (\<lambda>_ _. 0), dma = (\<lambda>_ m. m), patience = 100\<rparr>"

definition sample_xhci :: xhci where
  "sample_xhci = kernel.extend sample_kernel (xhci.fields sample_device 0 [] 0x200000 0 1 0x201000 0 1 0xFEB01000 0xFEB02000
     0x202000 0xFEB00020 32 1 0x203000 0 1 0x300000 0x81 True [4, 0, 0, 0, 0, 0])"

lemma sample_xhci_fields:
  "kmem sample_xhci = kmem sample_kernel" "kbitmap sample_xhci = kbitmap sample_kernel" "op_base sample_xhci = 0xFEB00020"
  "db_base sample_xhci = 0xFEB02000" "rt_base sample_xhci = 0xFEB01000" "evt_ring sample_xhci = 0x201000"
  "evt_deq sample_xhci = 0" "evt_ccs sample_xhci = 1" "xdev sample_xhci = sample_device" "hid_slot sample_xhci = 1"
  "xout sample_xhci = []"
  by (simp_all add: sample_xhci_def kernel.defs xhci.defs)

lemma sample_bitmap_page: "bitmap_ok (kbitmap sample_xhci)" "257 \<in> free_set (kbitmap sample_xhci)"
  using sample_bitmap_ok
  by (simp_all add: sample_xhci_fields sample_kernel_def free_set_def BITMAP_LEN_def sample_bitmap_def nth_append)

lemma off_page_above:
  assumes "unat ring + 4096 \<le> unat a" "unat a + n \<le> 2 ^ 64"
  shows "off_page ring a n"
  unfolding off_page_def
proof (intro allI impI)
  fix i :: nat assume i: "i < 4096"
  have "unat (ring + of_nat i) = unat ring + i"
    using i assms unat_lt_64 [of a] by (intro unat_plus_nat) (rule less_le_trans [of _ "unat a"], simp_all)
  then show "n \<le> unat (ring + of_nat i - a)" using i assms by (simp add: unat_sub_if')
qed

text \<open>Allocation in the sample yields a page below all registers.\<close>

lemma sample_page:
  obtains ring bm where "pmm_alloc (kbitmap sample_xhci) = Inr (ring, bm)" "unat ring \<le> 257 * 4096"
proof -
  from sample_bitmap_page obtain ring bm where al: "pmm_alloc (kbitmap sample_xhci) = Inr (ring, bm)"
    using pmm.alloc_succeeds by blast
  have "finite (free_set (kbitmap sample_xhci))" by (rule finite_free_set)
  then have "Min (free_set (kbitmap sample_xhci)) \<le> 257" using sample_bitmap_page(2) by (rule Min_le)
  then show ?thesis using that al pmm_alloc_InrD(2,3) [OF sample_bitmap_page(1) al] by simp
qed

text \<open>C28. Commands reach the controller completely, once and in order. However many commands have been posted
  since the ring was set up, over any number of laps through the Link TRB: when the controller has taken \<open>n\<close> of them
  and at most 30 are outstanding, its next fetch yields exactly the next command with the right cycle bit,
  or nothing when there is none.\<close>

theorem commands_reach_controller:
  assumes "cmd_run l s" "n \<le> length l" "length l \<le> n + 30"
  shows "fetch (kmem s) (fetch_pos (cmd_ring s) n) =
    (if n < length l then Some (stamp (n div 31) (l ! n), fetch_pos (cmd_ring s) (Suc n)) else None)"
  using cmd_run_holds [OF assms(1)] assms(2,3) unfolding cmd.holds_def by (intro ring_log_fetch) auto

lemma sample_init_cmd_ring:
  obtains s' where "init_cmd_ring sample_xhci = Inr s'" "unat (cmd_ring s') \<le> 257 * 4096" "op_base s' = 0xFEB00020" "db_base s' = 0xFEB02000"
proof -
  obtain ring bm where "pmm_alloc (kbitmap sample_xhci) = Inr (ring, bm)" "unat ring \<le> 257 * 4096" by (rule sample_page)
  then show ?thesis using that by (simp add: init_cmd_ring_def alloc_page_def Let_def sample_xhci_fields)
qed

theorem commands_reach_controller_witness:
  "\<exists>l s. cmd_run l s \<and> l = [command (0, 0, TRB_ENABLE_SLOT)] \<and>
    fetch (kmem s) (fetch_pos (cmd_ring s) 0) = Some (stamp 0 (command (0, 0, TRB_ENABLE_SLOT)), fetch_pos (cmd_ring s) 1)"
proof -
  let ?c = "command (0, 0, TRB_ENABLE_SLOT)"
  obtain s' where s': "init_cmd_ring sample_xhci = Inr s'" "unat (cmd_ring s') \<le> 257 * 4096" "op_base s' = 0xFEB00020"
    "db_base s' = 0xFEB02000" by (rule sample_init_cmd_ring)
  have "cmd_run [] s'" using s' by (intro cmd_run.init [of sample_xhci] sample_bitmap_page off_page_above) simp_all
  moreover have "plain ?c" by (simp add: plain_def command_def trb_type_def TRB_ENABLE_SLOT_def)
  ultimately have r: "cmd_run [?c] (post_command 0 0 TRB_ENABLE_SLOT s')"
    using s' cmd_run.post [of "[]" s' 0 0 TRB_ENABLE_SLOT] by (simp add: off_page_above)
  show ?thesis using r commands_reach_controller [OF r, of 0] by (intro exI [of _ "[?c]"]) auto
qed

text \<open>Requests for keyboard reports keep reaching the controller. However many transfers have been queued on the
  ring of the keyboard, the controller finds each of them in order, also behind the Link TRB of every lap, so
  polling never stalls at the end of the ring.\<close>

theorem transfers_reach_controller:
  assumes "hid_run l s" "n \<le> length l" "length l \<le> n + 30"
  shows "fetch (kmem s) (fetch_pos (hid_tr_ring s) n) =
    (if n < length l then Some (stamp (n div 31) (l ! n), fetch_pos (hid_tr_ring s) (Suc n)) else None)"
  using hid_run_holds [OF assms(1)] assms(2,3) unfolding hid.holds_def by (intro ring_log_fetch) auto

theorem transfers_reach_controller_witness:
  "\<exists>l s. hid_run l s \<and> l = [hid_request s] \<and>
    fetch (kmem s) (fetch_pos (hid_tr_ring s) 0) = Some (stamp 0 (hid_request s), fetch_pos (hid_tr_ring s) 1)"
proof -
  obtain ring bm where al: "pmm_alloc (kbitmap sample_xhci) = Inr (ring, bm)" "unat ring \<le> 257 * 4096" by (rule sample_page)
  obtain s1 where s1: "new_tr_ring sample_xhci = Inr (ring, s1)" "db_base s1 = 0xFEB02000" "hid_slot s1 = 1"
    using al(1) by (simp add: new_tr_ring_def alloc_page_def poke64_def sample_xhci_fields)
  let ?s = "s1\<lparr>hid_tr_ring := ring, hid_tr_enq := 0, hid_tr_pcs := 1\<rparr>"
  have "hid_run [] ?s" by (rule hid_run.fresh [OF s1(1) sample_bitmap_page(1)]) simp_all
  then have r: "hid_run [hid_request ?s] (queue_hid_transfer 3 ?s)"
    using hid_run.queue [of "[]" ?s 3] s1 al(2) by (simp add: off_page_above)
  moreover have "hid_request (queue_hid_transfer 3 ?s) = hid_request ?s"
    by (simp add: hid_request_def queue_hid_transfer_def Let_def w32_def)
  ultimately show ?thesis using transfers_reach_controller [OF r, of 0]
    by (intro exI [of _ "[hid_request ?s]"] exI [of _ "queue_hid_transfer 3 ?s"]) auto
qed

text \<open>C29. The driver takes the controller's events completely, once and in order, over any number of laps: when it has
  taken \<open>n\<close> of the events in the ring, one look yields the type, code and slot of the next event, or nothing when there
  is none, and the controller is told the new dequeue position.\<close>

theorem events_taken_in_order:
  assumes "evt_log (dma (xdev s) (xclock s) (kmem s)) (evt_ring s) l" "\<forall>t \<in> set l. control t AND 1 = 0"
    "n \<le> length l" "length l \<le> n + 256" "evt_taken n s" "off_page (evt_ring s) (rt_base s + 0x38) 8"
  shows "\<exists>s'. consume_event s = (if n < length l then Some (event (l ! n)) else None, s') \<and>
    evt_taken (if n < length l then Suc n else n) s' \<and> evt_log (kmem s') (evt_ring s) l \<and> evt_ring s' = evt_ring s \<and>
    (n < length l \<longrightarrow> xout s' = (rt_base s + 0x38, trb_at (evt_ring s) (Suc n mod 256) OR 8) # xout s)"
  using consume_event_spec [OF assms] by blast

lemma sample_mem_zero: "unat x \<notin> {0x1000, 0x1001, 0x2000, 0x400000, 0x400001} \<Longrightarrow> sample_mem x = 0"
  by (auto simp: sample_mem_def)

theorem events_taken_in_order_witness:
  "\<exists>s'. consume_event (set_mem (write_trb 0x201000 \<lparr>param = 0, status = 0x1000000, control = 0x8001\<rparr>) sample_xhci)
      = (Some (32, 1, 0), s') \<and> evt_taken 1 s'"
proof -
  let ?t = "\<lparr>param = 0, status = 0x1000000, control = 0x8000\<rparr>"
  let ?s = "set_mem (write_trb 0x201000 (stamp 0 ?t)) sample_xhci"
  have f: "xdev ?s = sample_device" "xclock ?s = 0" "evt_ring ?s = 0x201000" "rt_base ?s = 0xFEB01000" "evt_deq ?s = 0" "evt_ccs ?s = 1"
    by (simp_all add: sample_xhci_def kernel.defs xhci.defs set_mem_def)
  have z: "slot sample_mem 0x201000 i = \<lparr>param = 0, status = 0, control = 0\<rparr>" if "i < 256" for i
  proof -
    have "sample_mem (0x201000 + of_nat k) = 0" if "k < 4096" for k
    proof -
      have "unat ((0x201000 :: u64) + of_nat k) = 0x201000 + k" using that by (subst unat_plus_nat) simp_all
      then have "unat ((0x201000 :: u64) + of_nat k) \<notin> {0x1000, 0x1001, 0x2000, 0x400000, 0x400001}" using that by auto
      then show ?thesis by (rule sample_mem_zero)
    qed
    then have "slot sample_mem 0x201000 i = slot (\<lambda>_. 0) 0x201000 i" using that by (intro slot_cong) simp_all
    then show ?thesis by (simp add: slot_def read_trb_def read64_def read32_def)
  qed
  have "slot (write_trb (trb_at 0x201000 0) (stamp 0 ?t) sample_mem) 0x201000 i =
      (if i = 0 then stamp 0 ?t else slot sample_mem 0x201000 i)" if "i < 256" for i
    using that by (intro slot_write_trb) simp_all
  then have "evt_log (kmem ?s) 0x201000 [?t]"
    by (simp add: evt_log_def z sample_xhci_fields sample_kernel_def trb_at_def)
  then have log: "evt_log (dma (xdev ?s) (xclock ?s) (kmem ?s)) (evt_ring ?s) [?t]"
    by (simp only: f) (simp add: sample_device_def)
  have "\<forall>t \<in> set [?t]. control t AND 1 = 0" "0 \<le> length [?t]" "length [?t] \<le> 0 + 256" "evt_taken 0 ?s"
    "off_page (evt_ring ?s) (rt_base ?s + 0x38) 8"
    using f by (simp_all add: evt_taken_def lap_bit_def off_page_above)
  from events_taken_in_order [OF log this]
  show ?thesis by (auto simp: stamp_def lap_bit_def event_def trb_type_def)
qed

end
