(* ===== verification/Pci.thy ===== *)
theory Pci
  imports Interrupts Xhci_Rings
begin

text \<open>
  PCI configuration space (\<^verbatim>\<open>pci.rs\<close>): the enumeration at boot, the search for the xHCI controller, and the hand-over
  of the controller from the firmware. Configuration space is memory mapped; its reads, like those of the
  controller's registers, are answered by the device parameter, a narrow read by the dword that contains it.
\<close>

section \<open>Reads\<close>

definition r16 :: "u64 \<Rightarrow> xhci \<Rightarrow> u16 \<times> xhci" where
  "r16 a s = (case r32 (a AND NOT 3) s of (v, s) \<Rightarrow> (ucast (drop_bit (8 * unat (a AND 3)) v), s))"

definition r8 :: "u64 \<Rightarrow> xhci \<Rightarrow> u8 \<times> xhci" where
  "r8 a s = (case r32 (a AND NOT 3) s of (v, s) \<Rightarrow> (ucast (drop_bit (8 * unat (a AND 3)) v), s))"

type_synonym pci_function = "nat \<times> nat \<times> nat"  \<comment> \<open>bus, device, function\<close>

text \<open>The three nested loops visit the functions in this order.\<close>

definition pci_functions :: "pci_function list" where
  "pci_functions = List.product [0..<256] (List.product [0..<32] [0..<8])"

definition pci_addr :: "u64 \<Rightarrow> pci_function \<Rightarrow> u64" where
  "pci_addr base f = (case f of (bus, dev, fn) \<Rightarrow>
     base + (push_bit 20 (of_nat bus) OR push_bit 15 (of_nat dev) OR push_bit 12 (of_nat fn)))"

section \<open>Enumeration\<close>

definition show_function :: "u64 \<Rightarrow> pci_function \<Rightarrow> xhci \<Rightarrow> xhci res" where
  "show_function base f s = (case f of (bus, dev, fn) \<Rightarrow>
     let addr = pci_addr base f; (vendor, s) = r16 addr s in
     if vendor = 0xFFFF then Inr s
     else let (cls, s) = r8 (addr + 0x0B) s; (subclass, s) = r8 (addr + 0x0A) s; (ident, s) = r32 addr s;
         device = ucast (drop_bit 16 ident) :: u16 in
       say [S ''PCI '', H (of_nat bus), S '':'', H (of_nat dev), S '' '', H (ucast vendor), S '':'', H (ucast device),
         S '' cl='', H (ucast cls), H (ucast subclass), S ''\<newline>''] s)"

definition enumerate :: "u64 \<Rightarrow> xhci \<Rightarrow> xhci res" where
  "enumerate base s = rfold (show_function base) pci_functions s"

section \<open>Hand-over from the firmware\<close>

text \<open>The wait for the firmware's semaphore, at most \<open>n\<close> rounds.\<close>

fun handoff_wait :: "nat \<Rightarrow> u64 \<Rightarrow> xhci \<Rightarrow> xhci res" where
  "handoff_wait n legsup s = (case r32 legsup s of (v, s) \<Rightarrow>
     if v AND push_bit 16 1 = 0 then Inr s
     else if n \<le> 1 then say [S ''xhci: BIOS handoff timeout\<newline>''] s
     else handoff_wait (n - 1) legsup s)"

declare handoff_wait.simps [simp del]

definition take_over :: "u64 \<Rightarrow> xhci \<Rightarrow> xhci res" where
  "take_over legsup s =
     rbind (handoff_wait 1000000 legsup (modify32 legsup (\<lambda>v. v OR push_bit 24 1) s)) (\<lambda>s.
     rbind (say [S ''xhci: OS handoff done\<newline>''] s) (\<lambda>s.
     Inr (modify32 (legsup + 4) (\<lambda>v. v AND NOT 0x1FFF00) s)))"

text \<open>The walk over the extended capabilities.\<close>

fun handoff_loop :: "nat \<Rightarrow> u64 \<Rightarrow> u64 \<Rightarrow> xhci \<Rightarrow> xhci res" where
  "handoff_loop 0 addr off s = Inr s"
| "handoff_loop (Suc n) addr off s =
     (if off = 0 then Inr s
      else case r32 (addr + off) s of (cap, s) \<Rightarrow>
        let cap_next = drop_bit 8 cap AND 0xFF in
        if cap AND 0xFF = 1 then take_over (addr + off) s
        else if cap_next = 0 then Inr s
        else handoff_loop n addr (off + ucast cap_next * 4) s)"

definition xhci_os_handoff :: "u64 \<Rightarrow> xhci \<Rightarrow> xhci res" where
  "xhci_os_handoff addr s = (case r32 (addr + 0x10) s of (hccparams1, s) \<Rightarrow>
     handoff_loop 256 addr (ucast (drop_bit 16 hccparams1 AND 0xFFFF) * 4) s)"

section \<open>Search for the controller\<close>

fun find_loop :: "u64 \<Rightarrow> pci_function list \<Rightarrow> xhci \<Rightarrow> (u64 option \<times> xhci) res" where
  "find_loop base [] s = Inr (None, s)"
| "find_loop base (f # fs) s =
     (let addr = pci_addr base f; (vendor, s) = r16 addr s in
      if vendor = 0xFFFF then find_loop base fs s
      else let (cls, s) = r8 (addr + 0x0B) s; (subclass, s) = r8 (addr + 0x0A) s; (progif, s) = r8 (addr + 0x09) s in
        if cls = 0x0C \<and> subclass = 0x03 \<and> progif = 0x30 then
          let (lo, s) = r32 (addr + 0x10) s; (hi, s) = r32 (addr + 0x14) s;
              bar0 = (push_bit 32 (ucast hi) OR ucast lo) AND NOT 0xF in
          rbind (say [S ''xhci: found at bus='', H (of_nat (fst f)), S '' bar0='', H bar0, S ''\<newline>''] s) (\<lambda>s.
          rbind (xhci_os_handoff bar0 s) (\<lambda>s. Inr (Some bar0, s)))
        else find_loop base fs s)"

definition find_xhci :: "u64 \<Rightarrow> xhci \<Rightarrow> (u64 option \<times> xhci) res" where
  "find_xhci base s = find_loop base pci_functions s"

section \<open>Output of the driver\<close>

text \<open>On a sound screen, output changes the console only.\<close>

definition screen :: "xhci \<Rightarrow> bool" where
  "screen s \<longleftrightarrow> screen_ok (kernel.truncate s)"

lemma outputs_piece: "outputs (print_piece p)"
proof (cases p)
  case (S t)
  then have "print_piece p = print t" by (intro ext) (simp add: print_piece_def)
  then show ?thesis by (simp add: outputs_print)
next
  case (H v)
  then have "print_piece p = (\<lambda>k. with_console (write_hex (kfont k) v) k)" by (intro ext) (simp add: print_piece_def)
  moreover have "outputs (\<lambda>k. with_console (write_hex (kfont k) v) k)"
    unfolding write_hex_def using write_all_spec by (intro outputs_with_console) blast
  ultimately show ?thesis by simp
qed

lemma say_ok:
  assumes "screen s"
  shows "\<exists>c. say ps s = Inr (s\<lparr>kconsole := c\<rparr>) \<and> screen (s\<lparr>kconsole := c\<rparr>)"
proof -
  have "outputs (rfold print_piece ps)" using outputs_piece by (rule outputs_rfold)
  then obtain k c where k: "rfold print_piece ps (kernel.truncate s) = Inr k" "screen_ok k"
    "k = (kernel.truncate s)\<lparr>kconsole := c\<rparr>"
    using assms outputsD by (fastforce simp: screen_def same_but_console_def)
  moreover have "kernel.extend k (kernel.more s) = s\<lparr>kconsole := c\<rparr>"
    unfolding k(3) by (cases s) (simp add: kernel.defs)
  moreover have "kernel.truncate (s\<lparr>kconsole := c\<rparr>) = k" unfolding k(3) by (cases s) (simp add: kernel.defs)
  ultimately show ?thesis by (auto simp: say_def on_kernel_def screen_def)
qed

lemma screen_frame [simp]:
  "screen (s\<lparr>xclock := n\<rparr>) = screen s" "screen (w32 a v s) = screen s" "screen (w64 a w s) = screen s"
  "screen (set_mem f s) = screen s"
  by (cases s; simp add: screen_def screen_ok_def kernel.defs w32_def w64_def poke32_def poke64_def set_mem_def)+

lemma xdev_w32 [simp]: "xdev (w32 a v s) = xdev s"
  by (simp add: w32_def poke32_def set_mem_def)

text \<open>A computation that returns on a sound screen and keeps it so and the device as it is.\<close>

definition runs :: "xhci \<Rightarrow> xhci res \<Rightarrow> bool" where
  "runs s x \<longleftrightarrow> (\<exists>s'. x = Inr s' \<and> screen s' \<and> xdev s' = xdev s)"

lemma runs_Inr: "screen s' \<Longrightarrow> xdev s' = xdev s \<Longrightarrow> runs s (Inr s')"
  by (simp add: runs_def)

lemma runs_rbind: "runs s x \<Longrightarrow> (\<And>s'. screen s' \<Longrightarrow> xdev s' = xdev s \<Longrightarrow> runs s' (f s')) \<Longrightarrow> runs s (rbind x f)"
  by (auto simp: runs_def)

lemma runs_say: "screen s \<Longrightarrow> runs s (say ps s)"
  using say_ok [of s ps] by (auto simp: runs_def)

lemma modify32_frame [simp]: "screen (modify32 a f s) = screen s" "xdev (modify32 a f s) = xdev s"
  by (simp_all add: modify32_def r32_def)

lemma runs_xdev: "runs s x \<Longrightarrow> xdev s' = xdev s \<Longrightarrow> runs s' x"
  by (simp add: runs_def)

lemma handoff_wait_runs: "screen s \<Longrightarrow> runs s (handoff_wait n a s)"
proof (induction n arbitrary: s)
  case 0
  then show ?case using runs_say [of "s\<lparr>xclock := Suc (xclock s)\<rparr>"]
    by (auto simp: handoff_wait.simps [of 0] r32_def runs_def)
next
  case (Suc n)
  then show ?case using runs_say [of "s\<lparr>xclock := Suc (xclock s)\<rparr>"] Suc.IH [of "s\<lparr>xclock := Suc (xclock s)\<rparr>"]
    by (auto simp: handoff_wait.simps [of "Suc n"] r32_def runs_def)
qed

lemma take_over_runs: "screen s \<Longrightarrow> runs s (take_over a s)"
  unfolding take_over_def
  by (rule runs_rbind runs_xdev [OF handoff_wait_runs] runs_say runs_Inr | simp)+

lemma handoff_loop_runs: "screen s \<Longrightarrow> runs s (handoff_loop n a off s)"
proof (induction n arbitrary: off s)
  case (Suc n)
  let ?s = "s\<lparr>xclock := Suc (xclock s)\<rparr>"
  have s: "screen ?s" using Suc.prems by simp
  show ?case using Suc.prems runs_xdev [OF take_over_runs [OF s], of s] runs_xdev [OF Suc.IH [OF s], of s]
    by (simp add: r32_def runs_Inr Let_def)
qed (simp add: runs_Inr)

lemma os_handoff_runs: "screen s \<Longrightarrow> runs s (xhci_os_handoff a s)"
  using runs_xdev [OF handoff_loop_runs, of "s\<lparr>xclock := Suc (xclock s)\<rparr>" s] by (simp add: xhci_os_handoff_def r32_def)

section \<open>Reads of a page of configuration space\<close>

lemma page_offset_reads:
  fixes a :: u64
  assumes "a AND 0xFFF = 0" "k < 4096"
  shows "(a + of_nat k) AND NOT 3 = a + of_nat (k div 4 * 4)" "unat ((a + of_nat k) AND 3) = k mod 4"
proof -
  have a: "unat a mod 4096 = 0" using unat_page_offset [of a] assms(1) by simp
  then have u: "unat (a + of_nat j) = unat a + j" if "j < 4096" for j
    using that aligned_room [of a 4096 j] by (intro unat_plus_nat) simp
  obtain q where q: "unat a = 4096 * q" using a by (metis mod_eq_0_iff_dvd dvdE)
  have m: "(3 :: u64) = mask 2" by (simp add: mask_eq_exp_minus_1)
  have "unat ((a + of_nat k) AND NOT 3) = (unat a + k) div 4 * 4"
    unfolding m unat_and_not_mask u [OF assms(2)] by simp
  also have "\<dots> = unat a + k div 4 * 4" unfolding q using div_mult_self4 [of 4 "1024 * q" k] by simp
  also have "\<dots> = unat (a + of_nat (k div 4 * 4))" using assms(2) by (intro u [symmetric]) simp
  finally show "(a + of_nat k) AND NOT 3 = a + of_nat (k div 4 * 4)" by (simp only: word_unat_eq_iff)
  have "unat ((a + of_nat k) AND 3) = (unat a + k) mod 4" unfolding m unat_and_mask u [OF assms(2)] by simp
  also have "\<dots> = k mod 4" unfolding q using mod_mult_self4 [of 4 "1024 * q" k] by simp
  finally show "unat ((a + of_nat k) AND 3) = k mod 4" .
qed

lemma page_sum: "x AND 0xFFF = 0 \<Longrightarrow> y AND 0xFFF = 0 \<Longrightarrow> (x + y) AND 0xFFF = 0" for x y :: u64
proof -
  assume "x AND 0xFFF = 0" "y AND 0xFFF = 0"
  then have "unat x mod 4096 = 0" "unat y mod 4096 = 0" using unat_page_offset [of x] unat_page_offset [of y] by simp_all
  then have "(unat x + unat y) mod 2 ^ 64 mod 4096 = 0" by (subst mod_mod_cancel) (simp_all add: mod_add_eq [symmetric])
  then have "unat ((x + y) AND 0xFFF) = 0" by (simp add: unat_page_offset unat_word_ariths)
  then show ?thesis by (simp only: unsigned_eq_0_iff)
qed

lemma pci_addr_page: "base AND 0xFFF = 0 \<Longrightarrow> pci_addr base f AND 0xFFF = 0"
proof -
  have m: "(0xFFF :: u64) = mask 12" by (simp add: mask_eq_exp_minus_1)
  have "(push_bit 20 x OR push_bit 15 y OR push_bit 12 z) AND 0xFFF = 0" for x y z :: u64
    unfolding m by (rule bit_word_eqI) (auto simp: bit_and_iff bit_or_iff bit_push_bit_iff bit_mask_iff)
  then show "base AND 0xFFF = 0 \<Longrightarrow> pci_addr base f AND 0xFFF = 0"
    by (cases f) (simp only: pci_addr_def prod.case page_sum)
qed

section \<open>The search\<close>

text \<open>The reference, on a configuration space whose dwords are \<open>reg\<close>.\<close>

definition is_xhci :: "(u64 \<Rightarrow> u32) \<Rightarrow> u64 \<Rightarrow> pci_function \<Rightarrow> bool" where
  "is_xhci reg base f \<longleftrightarrow> reg (pci_addr base f) AND 0xFFFF \<noteq> 0xFFFF \<and> drop_bit 8 (reg (pci_addr base f + 8)) = 0x0C0330"

definition bar_of :: "(u64 \<Rightarrow> u32) \<Rightarrow> u64 \<Rightarrow> pci_function \<Rightarrow> u64" where
  "bar_of reg base f = (push_bit 32 (ucast (reg (pci_addr base f + 0x14))) OR ucast (reg (pci_addr base f + 0x10))) AND NOT 0xF"

definition static_regs :: "xhci \<Rightarrow> (u64 \<Rightarrow> u32) \<Rightarrow> bool" where
  "static_regs s reg \<longleftrightarrow> (\<forall>t a. mmio_in (xdev s) t a = reg a)"

lemma unat_byte: "unat (ucast (drop_bit n v) :: u8) = unat v div 2 ^ n mod 256" for v :: u32
  by (simp only: unsigned_ucast_eq unat_drop_bit_eq drop_bit_eq_div [of n "unat v"] take_bit_eq_mod [of _ "unat v div 2 ^ n"])
    (simp add: take_bit_eq_mod)

lemma class_code:
  fixes v :: u32
  shows "(ucast (drop_bit 24 v) :: u8) = 0x0C \<and> (ucast (drop_bit 16 v) :: u8) = 0x03 \<and> (ucast (drop_bit 8 v) :: u8) = 0x30
    \<longleftrightarrow> drop_bit 8 v = 0x0C0330"
proof -
  define m where "m = unat v div 256"
  have small: "m < 16777216" using unsigned_less [of v, where ?'a = nat] by (simp add: m_def less_mult_imp_div_less)
  have 8: "unat (drop_bit 8 v) = m" by (simp only: unat_drop_bit_eq drop_bit_eq_div [of 8 "unat v"] m_def) simp
  have b: "unat (ucast (drop_bit 24 v) :: u8) = m div 65536 mod 256" "unat (ucast (drop_bit 16 v) :: u8) = m div 256 mod 256"
    "unat (ucast (drop_bit 8 v) :: u8) = m mod 256"
    by (simp_all add: unat_byte m_def div_mult2_eq [symmetric])
  have "m div 65536 mod 256 = 12 \<and> m div 256 mod 256 = 3 \<and> m mod 256 = 48 \<longleftrightarrow> m = 0x0C0330"
  proof
    assume h: "m div 65536 mod 256 = 12 \<and> m div 256 mod 256 = 3 \<and> m mod 256 = 48"
    have "m div 65536 < 256" using small by (simp add: less_mult_imp_div_less)
    then have "m div 65536 = 12" using h by simp
    moreover have "m div 256 div 256 = m div 65536" by (simp add: div_mult2_eq [symmetric])
    ultimately have "m div 256 = 12 * 256 + 3" using h div_mult_mod_eq [of "m div 256" 256] by simp
    then show "m = 0x0C0330" using h div_mult_mod_eq [of m 256] by simp
  qed simp
  then show ?thesis unfolding word_unat_eq_iff b 8 by simp
qed

lemma vendor_code: "(ucast v :: u16) = 0xFFFF \<longleftrightarrow> v AND 0xFFFF = 0xFFFF" for v :: u32
proof -
  have "unat (ucast v :: u16) = unat v mod 65536" by (simp add: unsigned_ucast_eq take_bit_eq_mod)
  moreover have "unat (v AND 0xFFFF) = unat v mod 65536" using unat_and_mask [of v 16] by (simp add: mask_eq_exp_minus_1)
  ultimately show ?thesis by (simp add: word_unat_eq_iff)
qed

definition tick :: "xhci \<Rightarrow> xhci" where
  "tick s = s\<lparr>xclock := Suc (xclock s)\<rparr>"

lemma tick_frame [simp]: "screen (tick s) = screen s" "xdev (tick s) = xdev s" "static_regs (tick s) reg = static_regs s reg"
  by (simp_all add: tick_def static_regs_def)

lemma static_r32: "static_regs s reg \<Longrightarrow> r32 a s = (reg a, tick s)"
  by (simp add: static_regs_def r32_def tick_def)

lemma config_reads:
  assumes "static_regs s reg" "a AND 0xFFF = 0"
  shows "r16 a s = (ucast (reg a), tick s)" "r8 (a + 0x0B) s = (ucast (drop_bit 24 (reg (a + 8))), tick s)"
    "r8 (a + 0x0A) s = (ucast (drop_bit 16 (reg (a + 8))), tick s)" "r8 (a + 0x09) s = (ucast (drop_bit 8 (reg (a + 8))), tick s)"
proof -
  note o = page_offset_reads [OF assms(2)]
  show "r16 a s = (ucast (reg a), tick s)"
    using o [of 0] static_r32 [OF assms(1)] by (simp add: r16_def)
  show "r8 (a + 0x0B) s = (ucast (drop_bit 24 (reg (a + 8))), tick s)"
    using o [of 11] static_r32 [OF assms(1)] by (simp add: r8_def)
  show "r8 (a + 0x0A) s = (ucast (drop_bit 16 (reg (a + 8))), tick s)"
    using o [of 10] static_r32 [OF assms(1)] by (simp add: r8_def)
  show "r8 (a + 0x09) s = (ucast (drop_bit 8 (reg (a + 8))), tick s)"
    using o [of 9] static_r32 [OF assms(1)] by (simp add: r8_def)
qed

lemma find_loop_first:
  assumes "base AND 0xFFF = 0" "static_regs s reg" "screen s"
  shows "\<exists>s'. find_loop base fs s = Inr (map_option (bar_of reg base) (find (is_xhci reg base) fs), s') \<and> screen s'"
  using assms(2,3)
proof (induction fs arbitrary: s)
  case (Cons f fs)
  let ?a = "pci_addr base f"
  have page: "?a AND 0xFFF = 0" using assms(1) by (rule pci_addr_page)
  note reads = config_reads [OF _ page]
  have skip: "\<exists>s'. find_loop base fs s1 = Inr (map_option (bar_of reg base) (find (is_xhci reg base) fs), s') \<and> screen s'"
    if "static_regs s1 reg" "screen s1" for s1 using Cons.IH [OF that] .
  show ?case
  proof (cases "is_xhci reg base f")
    case True
    let ?s = "tick (tick (tick (tick (tick (tick s)))))" and ?bar = "bar_of reg base f"
    have "runs ?s (rbind (say [S ''xhci: found at bus='', H (of_nat (fst f)), S '' bar0='', H ?bar, S ''\<newline>''] ?s)
        (\<lambda>s. xhci_os_handoff ?bar s))"
      using Cons.prems by (intro runs_rbind runs_say os_handoff_runs) simp_all
    then obtain s' where s': "rbind (say [S ''xhci: found at bus='', H (of_nat (fst f)), S '' bar0='', H ?bar, S ''\<newline>''] ?s)
        (\<lambda>s. xhci_os_handoff ?bar s) = Inr s'" "screen s'" by (auto simp: runs_def)
    have "find_loop base (f # fs) s = rbind (rbind (say [S ''xhci: found at bus='', H (of_nat (fst f)), S '' bar0='', H ?bar,
        S ''\<newline>''] ?s) (\<lambda>s. xhci_os_handoff ?bar s)) (\<lambda>s. Inr (Some ?bar, s))"
      using True Cons.prems(1) class_code [of "reg (?a + 8)"] vendor_code [of "reg ?a"]
      by (simp add: reads static_r32 is_xhci_def bar_of_def rbind_assoc Let_def)
    then show ?thesis using s' True by simp
  next
    case False
    then have f: "find (is_xhci reg base) (f # fs) = find (is_xhci reg base) fs" by simp
    show ?thesis unfolding f using False Cons.prems class_code [of "reg (?a + 8)"] vendor_code [of "reg ?a"]
        skip [of "tick s"] skip [of "tick (tick (tick (tick s)))"]
      by (auto simp: reads is_xhci_def Let_def)
  qed
qed simp

section \<open>Properties\<close>


text \<open>One device, at bus 0, device 1: a controller with its registers at \<^verbatim>\<open>0xFEB00000\<close>.\<close>

definition sample_regs :: "u64 \<Rightarrow> u32" where
  "sample_regs a = (if a = 0xB0008000 then 0x00101B36 else if a = 0xB0008008 then 0x0C033001
     else if a = 0xB0008010 then 0xFEB00004 else if a = 0xB0008014 then 0 else 0xFFFFFFFF)"

lemma pci_functions_start:
  "\<exists>rest. pci_functions = [(0, 0, 0), (0, 0, 1), (0, 0, 2), (0, 0, 3), (0, 0, 4), (0, 0, 5), (0, 0, 6), (0, 0, 7), (0, 1, 0)] @ rest"
proof -
  have 1: "[0..<256] = 0 # [1..<256]" "[0..<32] = 0 # 1 # [2..<32]" by (simp_all add: upt_rec)
  have 2: "[0..<8] = [0, 1, 2, 3, 4, 5, 6, 7 :: nat]" by (simp add: upt_rec)
  show ?thesis unfolding pci_functions_def 1 2 by simp
qed


end
