(* ===== verification/Heap.thy ===== *)
theory Heap
  imports Kernel_Prelude
begin

text \<open>
  The kernel heap (\<^verbatim>\<open>src/heap.rs\<close>): a first-fit free list whose headers live in the free blocks
  themselves. A \<^verbatim>\<open>FreeNode\<close> sits at the start of its block and owns its successor
  (\<^verbatim>\<open>Option<&'static mut FreeNode>\<close>), so the chain that starts at \<^verbatim>\<open>FreeList::head\<close> is the list of
  the records below, each with the address of its node. \<^verbatim>\<open>size_of::<FreeNode>()\<close> is 16 and its
  alignment 8. \<^verbatim>\<open>usize\<close> is 64 bits wide; a null pointer is 0.
\<close>

section \<open>Free list\<close>

record free_node =
  start_addr :: u64
  node_size :: u64

type_synonym free_list = "free_node list"

definition FREE_NODE_SIZE :: u64 where "FREE_NODE_SIZE = 16"
definition FREE_NODE_ALIGN :: u64 where "FREE_NODE_ALIGN = 8"

definition end_addr :: "free_node \<Rightarrow> u64 res" where
  "end_addr n = padd (start_addr n) (node_size n)"

definition align_up :: "u64 \<Rightarrow> u64 \<Rightarrow> u64 res" where
  "align_up addr align =
     (if align \<le> 1 then Inr addr
      else rbind (padd addr align) (\<lambda>x.
           rbind (psub x 1) (\<lambda>y.
           rbind (psub align 1) (\<lambda>m. Inr (y AND NOT m)))))"

definition add_free_region :: "free_list \<Rightarrow> u64 \<Rightarrow> u64 \<Rightarrow> free_list res" where
  "add_free_region fl addr sz =
     rbind (align_up addr FREE_NODE_ALIGN) (\<lambda>up.
     rbind (rassert (up = addr)) (\<lambda>_.
     rbind (rassert (sz \<ge> FREE_NODE_SIZE)) (\<lambda>_.
       Inr (\<lparr>start_addr = addr, node_size = sz\<rparr> # fl))))"

definition fl_init :: "free_list \<Rightarrow> u64 \<Rightarrow> u64 \<Rightarrow> free_list res" where
  "fl_init fl addr sz = add_free_region fl addr sz"

text \<open>\<open>None\<close> is \<^verbatim>\<open>Err(())\<close>: the block does not fit the request.\<close>

definition alloc_from_region :: "free_node \<Rightarrow> u64 \<Rightarrow> u64 \<Rightarrow> u64 option res" where
  "alloc_from_region region sz align =
     rbind (align_up (start_addr region) align) (\<lambda>start0.
     rbind (psub start0 (start_addr region)) (\<lambda>front.
     rbind (if 0 < front \<and> front < FREE_NODE_SIZE
            then rbind (padd (start_addr region) FREE_NODE_SIZE) (\<lambda>a. align_up a align)
            else Inr start0) (\<lambda>alloc_start.
     case checked_add alloc_start sz of
       None \<Rightarrow> Inr None
     | Some alloc_end \<Rightarrow>
         rbind (end_addr region) (\<lambda>region_end.
         if alloc_end > region_end then Inr None
         else rbind (psub region_end alloc_end) (\<lambda>excess.
              if 0 < excess \<and> excess < FREE_NODE_SIZE then Inr None
              else Inr (Some alloc_start))))))"

text \<open>The first block that fits, unlinked from the list, with the address to hand out.\<close>

fun find_region :: "free_list \<Rightarrow> u64 \<Rightarrow> u64 \<Rightarrow> ((free_node \<times> u64) option \<times> free_list) res" where
  "find_region [] sz align = Inr (None, [])"
| "find_region (region # rest) sz align =
     rbind (alloc_from_region region sz align) (\<lambda>fit.
     case fit of
       Some alloc_start \<Rightarrow> Inr (Some (region, alloc_start), rest)
     | None \<Rightarrow> rbind (find_region rest sz align) (\<lambda>(found, rest'). Inr (found, region # rest')))"

definition fl_alloc :: "free_list \<Rightarrow> u64 \<Rightarrow> u64 \<Rightarrow> (u64 \<times> free_list) res" where
  "fl_alloc fl sz align =
     rbind (find_region fl sz align) (\<lambda>(found, fl).
     case found of
       None \<Rightarrow> Inr (0, fl)
     | Some (region, alloc_start) \<Rightarrow>
         rbind (end_addr region) (\<lambda>region_end.
         rbind (padd alloc_start sz) (\<lambda>alloc_end.
         rbind (psub alloc_start (start_addr region)) (\<lambda>front.
         rbind (if front > 0 then add_free_region fl (start_addr region) front else Inr fl) (\<lambda>fl.
         rbind (psub region_end alloc_end) (\<lambda>excess.
         rbind (if excess > 0 then add_free_region fl alloc_end excess else Inr fl) (\<lambda>fl.
           Inr (alloc_start, fl))))))))"

definition fl_dealloc :: "free_list \<Rightarrow> u64 \<Rightarrow> u64 \<Rightarrow> free_list res" where
  "fl_dealloc fl ptr sz = add_free_region fl ptr sz"

section \<open>Layouts\<close>

text \<open>
  \<^verbatim>\<open>core::alloc::Layout\<close>: \<^verbatim>\<open>from_size_align\<close> accepts a power of two whose padded size stays within
  \<^verbatim>\<open>isize::MAX\<close>; \<^verbatim>\<open>align_to\<close> raises the alignment; \<^verbatim>\<open>pad_to_align\<close> rounds the size up to it.
\<close>

record layout =
  layout_size :: u64
  layout_align :: u64

definition is_power_of_two :: "u64 \<Rightarrow> bool" where
  "is_power_of_two a \<longleftrightarrow> (\<exists>n \<in> {0..<64}. unat a = 2 ^ n)"

definition from_size_align :: "u64 \<Rightarrow> u64 \<Rightarrow> layout option" where
  "from_size_align sz align =
     (if is_power_of_two align \<and> sz \<le> 0x8000000000000000 - align
      then Some \<lparr>layout_size = sz, layout_align = align\<rparr> else None)"

definition align_to :: "layout \<Rightarrow> u64 \<Rightarrow> layout option" where
  "align_to l align = from_size_align (layout_size l) (max (layout_align l) align)"

definition pad_to_align :: "layout \<Rightarrow> layout" where
  "pad_to_align l = l\<lparr>layout_size := (layout_size l + layout_align l - 1) AND NOT (layout_align l - 1)\<rparr>"

definition size_align :: "layout \<Rightarrow> (u64 \<times> u64) res" where
  "size_align l =
     rbind (unwrap (align_to l FREE_NODE_ALIGN)) (\<lambda>l1.
     let l2 = pad_to_align l1 in
     Inr (max (layout_size l2) FREE_NODE_SIZE, layout_align l2))"

section \<open>The global allocator\<close>

text \<open>
  \<^verbatim>\<open>LockedHeap\<close> runs the free list under a spin lock with interrupts off: \<open>if_flag\<close> is bit 9 of
  \<^verbatim>\<open>RFLAGS\<close>, saved before \<^verbatim>\<open>cli\<close> and restored by \<^verbatim>\<open>sti\<close> only when it was set.
\<close>

record locked_heap =
  inner :: free_list
  if_flag :: bool

definition LOCKED_HEAP_NEW :: "bool \<Rightarrow> locked_heap" where
  "LOCKED_HEAP_NEW f = \<lparr>inner = [], if_flag = f\<rparr>"

definition with_lock :: "locked_heap \<Rightarrow> (free_list \<Rightarrow> ('a \<times> free_list) res) \<Rightarrow> ('a \<times> locked_heap) res" where
  "with_lock h f =
     (let rflags = if_flag h; h = h\<lparr>if_flag := False\<rparr> in
      rbind (f (inner h)) (\<lambda>(ret, fl).
      let h = h\<lparr>inner := fl\<rparr> in
      Inr (ret, if rflags then h\<lparr>if_flag := True\<rparr> else h)))"

definition heap_init :: "locked_heap \<Rightarrow> u64 \<Rightarrow> u64 \<Rightarrow> (unit \<times> locked_heap) res" where
  "heap_init h addr sz = with_lock h (\<lambda>fl. rbind (fl_init fl addr sz) (\<lambda>fl. Inr ((), fl)))"

definition heap_alloc :: "locked_heap \<Rightarrow> layout \<Rightarrow> (u64 \<times> locked_heap) res" where
  "heap_alloc h l =
     rbind (size_align l) (\<lambda>(sz, align). with_lock h (\<lambda>fl. fl_alloc fl sz align))"

definition heap_dealloc :: "locked_heap \<Rightarrow> u64 \<Rightarrow> layout \<Rightarrow> (unit \<times> locked_heap) res" where
  "heap_dealloc h ptr l =
     rbind (size_align l) (\<lambda>(sz, _).
       with_lock h (\<lambda>fl. rbind (fl_dealloc fl ptr sz) (\<lambda>fl. Inr ((), fl))))"

definition kmalloc_aligned :: "locked_heap \<Rightarrow> u64 \<Rightarrow> u64 \<Rightarrow> (u64 \<times> locked_heap) res" where
  "kmalloc_aligned h sz align =
     (case from_size_align sz align of
        Some l \<Rightarrow> heap_alloc h l
      | None \<Rightarrow> Inr (0, h))"

section \<open>Alignment\<close>

definition pow2_align :: "u64 \<Rightarrow> nat \<Rightarrow> bool" where
  "pow2_align a n \<longleftrightarrow> n < 64 \<and> a = 2 ^ n"

lemma unat_pow2: "n < 64 \<Longrightarrow> unat (2 ^ n :: u64) = 2 ^ n"
proof -
  assume "n < 64"
  then have "(2::nat) ^ n < 2 ^ LENGTH(64)" by (intro power_strict_increasing) simp_all
  then show ?thesis using unat_of_nat_small [of "2 ^ n", where ?'a = 64] by simp
qed

lemma pow2_minus_1: "(2 ^ n :: u64) - 1 = mask n"
  by (simp add: mask_eq_exp_minus_1)

lemma align_up_eq:
  assumes "n < 64" "unat addr + 2 ^ n < 2 ^ 64"
  shows "\<exists>a. align_up addr (2 ^ n) = Inr a \<and> unat a = (unat addr + 2 ^ n - 1) div 2 ^ n * 2 ^ n"
proof (cases "n = 0")
  case True
  then show ?thesis by (simp add: align_up_def)
next
  case False
  then have big: "1 < unat (2 ^ n :: u64)" using assms(1) one_less_power [of "2::nat" n] by (simp add: unat_pow2)
  then have gt: "\<not> (2 ^ n :: u64) \<le> 1" by (simp add: word_le_nat_alt)
  have p: "padd addr (2 ^ n) = Inr (addr + 2 ^ n)" "unat (addr + 2 ^ n) = unat addr + 2 ^ n"
    using assms unat_add_small [of addr "2 ^ n"] by (simp_all add: padd_def unat_pow2)
  have "1 \<le> addr + 2 ^ n" "(1::u64) \<le> 2 ^ n" using p(2) big assms(1)
    by (simp_all add: word_le_nat_alt unat_pow2)
  then have s: "psub (addr + 2 ^ n) 1 = Inr (addr + 2 ^ n - 1)" "psub (2 ^ n :: u64) 1 = Inr (mask n)"
    "unat (addr + 2 ^ n - 1) = unat addr + 2 ^ n - 1"
    using p(2) by (simp_all add: psub_def pow2_minus_1 unat_sub)
  show ?thesis
    using gt by (simp add: align_up_def p s unat_and_not_mask)
qed

definition ceil_pow2 :: "nat \<Rightarrow> nat \<Rightarrow> nat" where
  "ceil_pow2 n a = (a + 2 ^ n - 1) div 2 ^ n * 2 ^ n"

lemma ceil_pow2_bounds: "a \<le> ceil_pow2 n a" "ceil_pow2 n a < a + 2 ^ n" "2 ^ n dvd ceil_pow2 n a"
proof -
  have m: "(a + 2 ^ n - 1) mod 2 ^ n < 2 ^ n" by simp
  have e: "ceil_pow2 n a + (a + 2 ^ n - 1) mod 2 ^ n = a + 2 ^ n - 1"
    unfolding ceil_pow2_def by (rule div_mult_mod_eq)
  have pos: "(0::nat) < 2 ^ n" by simp
  show "a \<le> ceil_pow2 n a" "ceil_pow2 n a < a + 2 ^ n" using m e pos by linarith+
  show "2 ^ n dvd ceil_pow2 n a" by (simp add: ceil_pow2_def)
qed

lemma ceil_pow2_least:
  assumes "2 ^ n dvd b" "a \<le> b"
  shows "ceil_pow2 n a \<le> b"
proof (rule ccontr)
  assume "\<not> ceil_pow2 n a \<le> b"
  moreover obtain i j where "ceil_pow2 n a = 2 ^ n * i" "b = 2 ^ n * j"
    using ceil_pow2_bounds(3) assms(1) by (meson dvdE)
  ultimately have "b + 2 ^ n \<le> ceil_pow2 n a"
    by (metis Suc_leI mult_Suc_right mult_le_mono2 nat_mult_less_cancel_disj not_le add.commute)
  with ceil_pow2_bounds(2) [of n a] assms(2) show False by linarith
qed

lemma align_up_ceil:
  "n < 64 \<Longrightarrow> unat addr + 2 ^ n < 2 ^ 64 \<Longrightarrow> \<exists>a. align_up addr (2 ^ n) = Inr a \<and> unat a = ceil_pow2 n (unat addr)"
  unfolding ceil_pow2_def by (rule align_up_eq)

section \<open>Blocks\<close>

definition node_bytes :: "free_node \<Rightarrow> nat set" where
  "node_bytes r = {unat (start_addr r) ..< unat (start_addr r) + unat (node_size r)}"

definition node_ok :: "free_node \<Rightarrow> bool" where
  "node_ok r \<longleftrightarrow> 0 < unat (start_addr r) \<and> 8 dvd unat (start_addr r) \<and> 8 dvd unat (node_size r)
     \<and> 16 \<le> unat (node_size r) \<and> unat (start_addr r) + unat (node_size r) < 2 ^ 63"

definition request_ok :: "u64 \<Rightarrow> u64 \<Rightarrow> nat \<Rightarrow> bool" where
  "request_ok sz align n \<longleftrightarrow> 3 \<le> n \<and> n < 64 \<and> align = 2 ^ n \<and> 8 dvd unat sz \<and> 16 \<le> unat sz
     \<and> unat sz < 2 ^ 63"

text \<open>Where the code may place a request in a block: aligned, inside, and with gaps that are empty
  or hold a node.\<close>

definition fits :: "free_node \<Rightarrow> nat \<Rightarrow> nat \<Rightarrow> u64 \<Rightarrow> bool" where
  "fits r sz n s \<longleftrightarrow> 2 ^ n dvd unat s
     \<and> (unat s = unat (start_addr r) \<or> unat (start_addr r) + 16 \<le> unat s)
     \<and> (unat s + sz = unat (start_addr r) + unat (node_size r)
        \<or> unat s + sz + 16 \<le> unat (start_addr r) + unat (node_size r))"

lemma psub_unat: "unat b \<le> unat a \<Longrightarrow> psub a b = Inr (a - b) \<and> unat (a - b) = unat a - unat b"
  by (simp add: psub_def word_le_nat_alt unat_sub)

lemma end_addr_ok:
  "node_ok r \<Longrightarrow> end_addr r = Inr (start_addr r + node_size r)
     \<and> unat (start_addr r + node_size r) = unat (start_addr r) + unat (node_size r)"
  using unat_add_small [of "start_addr r" "node_size r"]
  by (auto simp: node_ok_def end_addr_def padd_def)

lemma pow2_le: "n < 64 \<Longrightarrow> (2::nat) ^ n \<le> 9223372036854775808"
  using power_increasing [of n 63 "2::nat"] by simp

lemma alloc_start_spec:
  assumes "node_ok r" "n < 64"
  shows "\<exists>s0 s. align_up (start_addr r) (2 ^ n) = Inr s0
    \<and> psub s0 (start_addr r) = Inr (s0 - start_addr r)
    \<and> (if 0 < s0 - start_addr r \<and> s0 - start_addr r < FREE_NODE_SIZE
       then rbind (padd (start_addr r) FREE_NODE_SIZE) (\<lambda>a. align_up a (2 ^ n)) else Inr s0) = Inr s
    \<and> 2 ^ n dvd unat s \<and> unat s < unat (start_addr r) + 16 + 2 ^ n
    \<and> (unat s = unat (start_addr r) \<or> unat (start_addr r) + 16 \<le> unat s)"
proof -
  let ?a = "start_addr r"
  have b: "unat ?a + 16 < 9223372036854775808" using assms(1) by (simp add: node_ok_def)
  note p = pow2_le [OF assms(2)]
  obtain s0 where s0: "align_up ?a (2 ^ n) = Inr s0" "unat s0 = ceil_pow2 n (unat ?a)"
    using align_up_ceil [OF assms(2), of ?a] b p by auto
  note c0 = ceil_pow2_bounds [where n = n and a = "unat ?a", folded s0(2)]
  have sub: "psub s0 ?a = Inr (s0 - ?a)" "unat (s0 - ?a) = unat s0 - unat ?a"
    using psub_unat c0(1) by blast+
  have p16: "padd ?a FREE_NODE_SIZE = Inr (?a + 16)" "unat (?a + 16) = unat ?a + 16"
    using b unat_add_small [of ?a 16] by (simp_all add: padd_def FREE_NODE_SIZE_def)
  obtain s1 where s1: "align_up (?a + 16) (2 ^ n) = Inr s1" "unat s1 = ceil_pow2 n (unat ?a + 16)"
    using align_up_ceil [OF assms(2), of "?a + 16"] b p by (auto simp: p16)
  note c1 = ceil_pow2_bounds [where n = n and a = "unat ?a + 16", folded s1(2)]
  show ?thesis
  proof (cases "0 < s0 - ?a \<and> s0 - ?a < FREE_NODE_SIZE")
    case True
    then show ?thesis using s0 sub p16 s1 c1 by (intro exI [of _ s0] exI [of _ s1]) simp
  next
    case False
    then have "unat s0 = unat ?a \<or> unat ?a + 16 \<le> unat s0"
      using c0(1) sub(2) by (auto simp: FREE_NODE_SIZE_def word_less_nat_alt)
    with False show ?thesis using s0 sub c0 by (intro exI [of _ s0] exI [of _ s0]) auto
  qed
qed

lemma alloc_from_region_spec:
  assumes "node_ok r" "request_ok sz align n"
  shows "(\<exists>s. alloc_from_region r sz align = Inr (Some s) \<and> fits r (unat sz) n s)
    \<or> alloc_from_region r sz align = Inr None \<and> unat (node_size r) < unat sz + 2 ^ n + 32"
proof -
  have n: "n < 64" and al: "align = 2 ^ n" and szb: "unat sz < 9223372036854775808"
    using assms(2) by (simp_all add: request_ok_def)
  obtain s0 s where s0: "align_up (start_addr r) (2 ^ n) = Inr s0"
      "psub s0 (start_addr r) = Inr (s0 - start_addr r)"
    and s: "(if 0 < s0 - start_addr r \<and> s0 - start_addr r < FREE_NODE_SIZE
       then rbind (padd (start_addr r) FREE_NODE_SIZE) (\<lambda>a. align_up a (2 ^ n)) else Inr s0) = Inr s"
    and sp: "2 ^ n dvd unat s" "unat s < unat (start_addr r) + 16 + 2 ^ n"
      "unat s = unat (start_addr r) \<or> unat (start_addr r) + 16 \<le> unat s"
    using alloc_start_spec [OF assms(1) n] by blast
  note e = end_addr_ok [OF assms(1)]
  let ?e = "start_addr r + node_size r"
  have ub: "unat (start_addr r) + unat (node_size r) < 9223372036854775808"
    using assms(1) by (simp add: node_ok_def)
  have body: "alloc_from_region r sz align = (case checked_add s sz of None \<Rightarrow> Inr None
     | Some alloc_end \<Rightarrow> if alloc_end > ?e then Inr None
         else rbind (psub ?e alloc_end) (\<lambda>excess.
              if 0 < excess \<and> excess < FREE_NODE_SIZE then Inr None else Inr (Some s)))"
    unfolding alloc_from_region_def al s0 rbind_simps s e [THEN conjunct1] ..
  show ?thesis
  proof (cases "unat s + unat sz \<le> unat ?e")
    case False
    then have "alloc_from_region r sz align = Inr None"
      using unat_add_small [of s sz] by (auto simp: body checked_add_def word_less_nat_alt)
    then show ?thesis using False sp(2) e by auto
  next
    case True
    then have small: "unat s + unat sz < 2 ^ 64" using e ub by simp
    then have ua: "unat (s + sz) = unat s + unat sz" using unat_add_small [of s sz] by simp
    have ca: "checked_add s sz = Some (s + sz)" using small by (simp add: checked_add_def)
    have sub: "psub ?e (s + sz) = Inr (?e - (s + sz))" "unat (?e - (s + sz)) = unat ?e - unat (s + sz)"
      using psub_unat [of "s + sz" ?e] True ua by auto
    have le: "\<not> s + sz > ?e" using True ua by (simp add: word_less_nat_alt)
    have b2: "alloc_from_region r sz align =
       (if 0 < ?e - (s + sz) \<and> ?e - (s + sz) < FREE_NODE_SIZE then Inr None else Inr (Some s))"
      unfolding body ca using le by (simp add: sub)
    have c: "0 < ?e - (s + sz) \<and> ?e - (s + sz) < FREE_NODE_SIZE \<longleftrightarrow>
       unat s + unat sz < unat ?e \<and> unat ?e < unat s + unat sz + 16"
      unfolding word_less_nat_alt sub ua FREE_NODE_SIZE_def using True by auto
    show ?thesis
    proof (cases "unat s + unat sz < unat ?e \<and> unat ?e < unat s + unat sz + 16")
      case True
      then show ?thesis unfolding b2 c using sp(2) e by auto
    next
      case False
      then show ?thesis unfolding b2 c using True sp(1,3) e by (auto simp: fits_def)
    qed
  qed
qed

section \<open>The free list\<close>

fun fl_ok :: "free_list \<Rightarrow> bool" where
  "fl_ok [] \<longleftrightarrow> True"
| "fl_ok (r # rs) \<longleftrightarrow> node_ok r \<and> (\<forall>q \<in> set rs. node_bytes r \<inter> node_bytes q = {}) \<and> fl_ok rs"

definition free_bytes :: "free_list \<Rightarrow> nat set" where
  "free_bytes fl = (\<Union>r \<in> set fl. node_bytes r)"

lemma free_bytes_simps [simp]:
  "free_bytes [] = {}"
  "free_bytes (r # fl) = node_bytes r \<union> free_bytes fl"
  "free_bytes (xs @ ys) = free_bytes xs \<union> free_bytes ys"
  by (auto simp: free_bytes_def)

lemma fl_ok_Cons: "fl_ok (r # rs) \<longleftrightarrow> node_ok r \<and> node_bytes r \<inter> free_bytes rs = {} \<and> fl_ok rs"
  by (auto simp: free_bytes_def)

declare fl_ok.simps(2) [simp del]
declare fl_ok_Cons [simp]

lemma fl_ok_append: "fl_ok (xs @ ys) \<longleftrightarrow> fl_ok xs \<and> fl_ok ys \<and> free_bytes xs \<inter> free_bytes ys = {}"
  by (induction xs) auto

lemma fl_ok_mid: "fl_ok (pre @ r # post) \<longleftrightarrow> fl_ok (r # pre @ post)"
  by (auto simp: fl_ok_append)

lemma add_free_region_ok:
  assumes "8 dvd unat addr" "16 \<le> unat sz" "unat addr < 2 ^ 63"
  shows "add_free_region fl addr sz = Inr (\<lparr>start_addr = addr, node_size = sz\<rparr> # fl)"
proof -
  have "unat addr + 2 ^ 3 < 2 ^ 64" using assms(3) by simp
  then obtain a where a: "align_up addr (2 ^ 3) = Inr a" "unat a = ceil_pow2 3 (unat addr)"
    using align_up_ceil [of 3 addr] by auto
  have "unat a = unat addr"
    using ceil_pow2_least [of 3 "unat addr" "unat addr"] ceil_pow2_bounds(1) [of "unat addr" 3] assms(1)
    by (simp add: a(2))
  then have "align_up addr FREE_NODE_ALIGN = Inr addr"
    using a(1) by (simp add: FREE_NODE_ALIGN_def word_unat_eq_iff)
  then show ?thesis
    using assms(2) by (simp add: add_free_region_def FREE_NODE_SIZE_def word_le_nat_alt)
qed

lemma find_region_spec:
  assumes "fl_ok fl" "request_ok sz align n"
  shows "(\<exists>pre r post s. fl = pre @ r # post \<and> find_region fl sz align = Inr (Some (r, s), pre @ post)
      \<and> fits r (unat sz) n s)
    \<or> find_region fl sz align = Inr (None, fl) \<and> (\<forall>r \<in> set fl. unat (node_size r) < unat sz + 2 ^ n + 32)"
  using assms(1)
proof (induction fl)
  case Nil
  then show ?case by simp
next
  case (Cons r fl)
  from Cons.prems have r: "node_ok r" and fl: "fl_ok fl" by simp_all
  from alloc_from_region_spec [OF r assms(2)]
  consider s where "alloc_from_region r sz align = Inr (Some s)" "fits r (unat sz) n s"
    | (skip) "alloc_from_region r sz align = Inr None" "unat (node_size r) < unat sz + 2 ^ n + 32"
    by blast
  then show ?case
  proof cases
    case 1
    then have "r # fl = [] @ r # fl \<and> find_region (r # fl) sz align = Inr (Some (r, s), [] @ fl)
      \<and> fits r (unat sz) n s" by simp
    then show ?thesis by blast
  next
    case skip
    from Cons.IH [OF fl] show ?thesis
    proof (elim disjE exE conjE)
      fix pre r' post s
      assume "fl = pre @ r' # post" "find_region fl sz align = Inr (Some (r', s), pre @ post)"
        "fits r' (unat sz) n s"
      then have "r # fl = (r # pre) @ r' # post
        \<and> find_region (r # fl) sz align = Inr (Some (r', s), (r # pre) @ post) \<and> fits r' (unat sz) n s"
        using skip(1) by simp
      then show ?thesis by blast
    qed (use skip in simp)
  qed
qed

text \<open>The pieces of a block around a placed request.\<close>

definition front_piece :: "free_node \<Rightarrow> u64 \<Rightarrow> free_list" where
  "front_piece r s = (if unat s = unat (start_addr r) then []
     else [\<lparr>start_addr = start_addr r, node_size = s - start_addr r\<rparr>])"

definition tail_piece :: "free_node \<Rightarrow> u64 \<Rightarrow> u64 \<Rightarrow> free_list" where
  "tail_piece r s sz = (if unat s + unat sz = unat (start_addr r) + unat (node_size r) then []
     else [\<lparr>start_addr = s + sz, node_size = start_addr r + node_size r - (s + sz)\<rparr>])"

lemma pieces_spec:
  assumes "node_ok r" "request_ok sz align n" "fits r (unat sz) n s"
  shows "fl_ok (tail_piece r s sz @ front_piece r s)"
    and "free_bytes (tail_piece r s sz @ front_piece r s) = node_bytes r - {unat s ..< unat s + unat sz}"
    and "{unat s ..< unat s + unat sz} \<subseteq> node_bytes r"
proof -
  let ?e = "start_addr r + node_size r"
  have b: "unat (start_addr r) + unat (node_size r) < 9223372036854775808"
    and d: "8 dvd unat (start_addr r)" "8 dvd unat (node_size r)" "0 < unat (start_addr r)"
    using assms(1) by (simp_all add: node_ok_def)
  have "(8::nat) dvd 2 ^ n"
    using assms(2) le_imp_power_dvd [of 3 n "2::nat"] by (simp add: request_ok_def)
  then have ds: "8 dvd unat s" using assms(3) dvd_trans by (auto simp: fits_def)
  have dz: "8 dvd unat sz" "16 \<le> unat sz" using assms(2) by (simp_all add: request_ok_def)
  have e: "unat ?e = unat (start_addr r) + unat (node_size r)" using end_addr_ok [OF assms(1)] by simp
  have f: "unat s = unat (start_addr r) \<or> unat (start_addr r) + 16 \<le> unat s"
    "unat s + unat sz = unat ?e \<or> unat s + unat sz + 16 \<le> unat ?e"
    using assms(3) by (simp_all add: fits_def e)
  have "unat s + unat sz < 2 ^ 64" using f b e by auto
  then have se: "unat (s + sz) = unat s + unat sz"
    using unat_add_small [of s sz] by simp
  have sub: "unat (s - start_addr r) = unat s - unat (start_addr r)"
    "unat (?e - (s + sz)) = unat ?e - (unat s + unat sz)"
    using psub_unat [of "start_addr r" s] psub_unat [of "s + sz" ?e] f by (auto simp: se)
  have dd: "8 dvd unat s - unat (start_addr r)" "8 dvd unat ?e - (unat s + unat sz)"
    "8 dvd unat s + unat sz"
    using ds d dz(1) by (simp_all add: e dvd_diff_nat)
  show "fl_ok (tail_piece r s sz @ front_piece r s)"
    using f b d dd dz by (auto simp: front_piece_def tail_piece_def node_ok_def node_bytes_def se sub e)
  show "free_bytes (tail_piece r s sz @ front_piece r s) = node_bytes r - {unat s ..< unat s + unat sz}"
    using f b dz by (auto simp: front_piece_def tail_piece_def node_bytes_def se sub e)
  show "{unat s ..< unat s + unat sz} \<subseteq> node_bytes r"
    using f by (auto simp: node_bytes_def e)
qed

lemma fl_alloc_spec:
  assumes "fl_ok fl" "request_ok sz align n"
  shows "(\<exists>s fl'. fl_alloc fl sz align = Inr (s, fl') \<and> 0 < unat s \<and> 2 ^ n dvd unat s
      \<and> unat s + unat sz < 2 ^ 63 \<and> fl_ok fl' \<and> {unat s ..< unat s + unat sz} \<subseteq> free_bytes fl
      \<and> free_bytes fl' = free_bytes fl - {unat s ..< unat s + unat sz})
    \<or> fl_alloc fl sz align = Inr (0, fl) \<and> (\<forall>r \<in> set fl. unat (node_size r) < unat sz + 2 ^ n + 32)"
  using find_region_spec [OF assms]
proof (elim disjE exE conjE)
  fix pre r post s
  assume fl: "fl = pre @ r # post" and find: "find_region fl sz align = Inr (Some (r, s), pre @ post)"
    and fit: "fits r (unat sz) n s"
  from assms(1) have ok: "node_ok r" "node_bytes r \<inter> free_bytes (pre @ post) = {}" "fl_ok (pre @ post)"
    unfolding fl fl_ok_mid by simp_all
  note pieces = pieces_spec [OF ok(1) assms(2) fit]
  let ?e = "start_addr r + node_size r"
  have e: "end_addr r = Inr ?e" "unat ?e = unat (start_addr r) + unat (node_size r)"
    using end_addr_ok [OF ok(1)] by simp_all
  have b: "unat (start_addr r) + unat (node_size r) < 9223372036854775808" "0 < unat (start_addr r)"
    "8 dvd unat (start_addr r)" "8 dvd unat (node_size r)" using ok(1) by (simp_all add: node_ok_def)
  have f: "unat s = unat (start_addr r) \<or> unat (start_addr r) + 16 \<le> unat s" "2 ^ n dvd unat s"
    "unat s + unat sz = unat ?e \<or> unat s + unat sz + 16 \<le> unat ?e"
    using fit by (simp_all add: fits_def e)
  have "(8::nat) dvd 2 ^ n"
    using assms(2) le_imp_power_dvd [of 3 n "2::nat"] by (simp add: request_ok_def)
  with f(2) have "8 dvd unat s" using dvd_trans by blast
  then have dse: "8 dvd unat s + unat sz" using assms(2) by (simp add: request_ok_def)
  have se: "padd s sz = Inr (s + sz)" "unat (s + sz) = unat s + unat sz"
    using f(3) e b unat_add_small [of s sz] by (auto simp: padd_def)
  have sub: "psub s (start_addr r) = Inr (s - start_addr r)"
    "unat (s - start_addr r) = unat s - unat (start_addr r)"
    "psub ?e (s + sz) = Inr (?e - (s + sz))" "unat (?e - (s + sz)) = unat ?e - (unat s + unat sz)"
    using psub_unat [of "start_addr r" s] psub_unat [of "s + sz" ?e] f by (auto simp: se)
  have front: "(if s - start_addr r > 0 then add_free_region (pre @ post) (start_addr r) (s - start_addr r)
      else Inr (pre @ post)) = Inr (front_piece r s @ pre @ post)"
    using f b add_free_region_ok [of "start_addr r" "s - start_addr r"]
    by (auto simp: front_piece_def sub word_less_nat_alt)
  have tail: "(if ?e - (s + sz) > 0 then add_free_region g (s + sz) (?e - (s + sz))
      else Inr g) = Inr (tail_piece r s sz @ g)" for g
    using f b e dse add_free_region_ok [of "s + sz" "?e - (s + sz)"]
    by (auto simp: tail_piece_def sub se word_less_nat_alt)
  let ?fl' = "tail_piece r s sz @ front_piece r s @ pre @ post"
  have res: "fl_alloc fl sz align = Inr (s, ?fl')"
    unfolding fl_alloc_def find by (simp add: e se sub front tail)
  have "free_bytes fl = node_bytes r \<union> free_bytes (pre @ post)" by (auto simp: fl)
  moreover have "free_bytes ?fl' = free_bytes (tail_piece r s sz @ front_piece r s) \<union> free_bytes (pre @ post)"
    by auto
  moreover have "fl_ok ?fl'"
    using pieces(1,2) ok(2,3) fl_ok_append [of "tail_piece r s sz @ front_piece r s" "pre @ post"] by auto
  moreover have "0 < unat s" "unat s + unat sz < 2 ^ 63" using f b e by auto
  ultimately show ?thesis
    using res pieces(2,3) ok(2) f(2) by (intro disjI1 exI [of _ s] exI [of _ ?fl']) auto
qed (simp add: fl_alloc_def)

lemma fl_dealloc_spec:
  assumes "fl_ok fl" "0 < unat p" "8 dvd unat p" "8 dvd unat sz" "16 \<le> unat sz" "unat p + unat sz < 2 ^ 63"
    and "{unat p ..< unat p + unat sz} \<inter> free_bytes fl = {}"
  shows "\<exists>fl'. fl_dealloc fl p sz = Inr fl' \<and> fl_ok fl'
    \<and> free_bytes fl' = free_bytes fl \<union> {unat p ..< unat p + unat sz}"
  using assms add_free_region_ok [of p sz fl]
  by (auto simp: fl_dealloc_def node_ok_def node_bytes_def)

section \<open>Normalised requests\<close>

definition layout_ok :: "layout \<Rightarrow> nat \<Rightarrow> bool" where
  "layout_ok l n \<longleftrightarrow> n < 64 \<and> layout_align l = 2 ^ n \<and> unat (layout_size l) + 2 ^ max n 3 \<le> 2 ^ 63"

lemma is_power_of_two_pow2: "n < 64 \<Longrightarrow> is_power_of_two (2 ^ n)"
  by (auto simp: is_power_of_two_def unat_pow2)

lemma size_align_spec:
  assumes "layout_ok l n"
  shows "\<exists>sz. size_align l = Inr (sz, 2 ^ max n 3) \<and> request_ok sz (2 ^ max n 3) (max n 3)
    \<and> unat sz = max 16 (ceil_pow2 (max n 3) (unat (layout_size l)))"
proof -
  let ?k = "max n 3" and ?s = "layout_size l"
  have k: "?k < 64" "n < 64" using assms by (auto simp: layout_ok_def)
  note k64 = k(1)
  note p = unat_pow2 [OF k64]
  have mx: "max (layout_align l) FREE_NODE_ALIGN = 2 ^ ?k"
  proof -
    have "(2::nat) ^ n \<le> 8 \<longleftrightarrow> n \<le> 3" using power_increasing_iff [of "2::nat" n 3] by simp
    then have "(2 ^ n :: u64) \<le> 8 \<longleftrightarrow> n \<le> 3" using k(2) by (simp add: word_le_nat_alt unat_pow2)
    then show ?thesis using assms by (auto simp: layout_ok_def FREE_NODE_ALIGN_def max_def)
  qed
  have room: "unat ?s + 2 ^ ?k \<le> 9223372036854775808" using assms by (simp add: layout_ok_def)
  have pk: "(2::nat) ^ ?k \<le> 9223372036854775808" using pow2_le [OF k64] .
  have hi: "unat (0x8000000000000000 - 2 ^ ?k :: u64) = 9223372036854775808 - 2 ^ ?k"
    using psub_unat [of "2 ^ ?k :: u64" "0x8000000000000000"] pk p by simp
  have le: "?s \<le> 0x8000000000000000 - 2 ^ ?k" using room hi by (simp add: word_le_nat_alt)
  have al: "align_to l FREE_NODE_ALIGN = Some \<lparr>layout_size = ?s, layout_align = 2 ^ ?k\<rparr>"
    unfolding align_to_def mx from_size_align_def using is_power_of_two_pow2 [OF k64] le by simp
  let ?x = "?s + 2 ^ ?k - 1"
  have "unat (?s + 2 ^ ?k) = unat ?s + 2 ^ ?k"
    using room unat_add_small [of ?s "2 ^ ?k"] by (simp add: p)
  then have ux: "unat ?x = unat ?s + 2 ^ ?k - 1"
    using psub_unat [of 1 "?s + 2 ^ ?k"] one_le_power [of "2::nat" ?k] trans_le_add2 by auto
  let ?z = "?x AND NOT (2 ^ ?k - 1)"
  have z: "unat ?z = ceil_pow2 ?k (unat ?s)"
    by (simp only: pow2_minus_1 unat_and_not_mask ux ceil_pow2_def)
  have sa: "size_align l = Inr (max ?z FREE_NODE_SIZE, 2 ^ ?k)"
    by (simp add: size_align_def al pad_to_align_def Let_def)
  have um: "unat (max ?z FREE_NODE_SIZE) = max 16 (ceil_pow2 ?k (unat ?s))"
    unfolding z [symmetric] by (auto simp: max_def FREE_NODE_SIZE_def word_le_nat_alt)
  have "(8::nat) dvd 2 ^ ?k" using le_imp_power_dvd [of 3 ?k "2::nat"] by simp
  then have "8 dvd ceil_pow2 ?k (unat ?s)" using ceil_pow2_bounds(3) [of ?k "unat ?s"] dvd_trans by blast
  moreover have "ceil_pow2 ?k (unat ?s) < 9223372036854775808"
    using ceil_pow2_bounds(2) [of ?k "unat ?s"] room by linarith
  ultimately have "request_ok (max ?z FREE_NODE_SIZE) (2 ^ ?k) ?k"
    unfolding request_ok_def um using k64 by (auto simp: max_def [of "16::nat"])
  with sa um show ?thesis by blast
qed

section \<open>The allocator interface\<close>

text \<open>
  What the rest of the kernel relies on (\<^verbatim>\<open>GlobalAlloc\<close>): \<open>free\<close> is the set of byte addresses the
  allocator may still hand out and \<open>extent\<close> the number of bytes a request occupies.
\<close>

locale byte_allocator =
  fixes ok :: "'s \<Rightarrow> bool"
    and free :: "'s \<Rightarrow> nat set"
    and alloc :: "'s \<Rightarrow> 'l \<Rightarrow> (u64 \<times> 's) res"
    and dealloc :: "'s \<Rightarrow> u64 \<Rightarrow> 'l \<Rightarrow> (unit \<times> 's) res"
    and extent :: "'l \<Rightarrow> nat"
    and aligned :: "'l \<Rightarrow> nat \<Rightarrow> bool"
    and valid :: "'l \<Rightarrow> bool"
  assumes alloc_law: "ok h \<Longrightarrow> valid l \<Longrightarrow>
      (\<exists>p h'. alloc h l = Inr (p, h') \<and> 0 < unat p \<and> aligned l (unat p) \<and> unat p + extent l < 2 ^ 63
         \<and> ok h' \<and> {unat p ..< unat p + extent l} \<subseteq> free h
         \<and> free h' = free h - {unat p ..< unat p + extent l})
      \<or> alloc h l = Inr (0, h)"
    and dealloc_law: "ok h \<Longrightarrow> valid l \<Longrightarrow> 0 < unat p \<Longrightarrow> aligned l (unat p)
      \<Longrightarrow> unat p + extent l < 2 ^ 63 \<Longrightarrow> {unat p ..< unat p + extent l} \<inter> free h = {}
      \<Longrightarrow> \<exists>h'. dealloc h p l = Inr ((), h') \<and> ok h'
           \<and> free h' = free h \<union> {unat p ..< unat p + extent l}"
begin

lemma alloc_cases:
  assumes "ok h" "valid l" "alloc h l = Inr (p, h')"
  shows "(p = 0 \<and> h' = h) \<or> (p \<noteq> 0 \<and> aligned l (unat p) \<and> unat p + extent l < 2 ^ 63 \<and> ok h'
    \<and> {unat p ..< unat p + extent l} \<subseteq> free h \<and> free h' = free h - {unat p ..< unat p + extent l})"
  using alloc_law [OF assms(1,2)] assms(3) by (auto simp: word_unat_eq_iff)

lemma alloc_total: "ok h \<Longrightarrow> valid l \<Longrightarrow> \<exists>p h'. alloc h l = Inr (p, h')"
  using alloc_law by blast

lemma alloc_dealloc:
  assumes "ok h" "valid l" "alloc h l = Inr (p, h')" "p \<noteq> 0"
  shows "\<exists>h''. dealloc h' p l = Inr ((), h'') \<and> ok h'' \<and> free h'' = free h"
proof -
  from alloc_cases [OF assms(1-3)] assms(4)
  have a: "aligned l (unat p)" "unat p + extent l < 2 ^ 63" "ok h'"
    "{unat p ..< unat p + extent l} \<subseteq> free h" "free h' = free h - {unat p ..< unat p + extent l}"
    by auto
  have "0 < unat p" using assms(4) by (simp add: word_neq_0_conv unat_gt_0)
  with dealloc_law [OF a(3) assms(2) _ a(1,2)] a(4,5) show ?thesis by fastforce
qed

lemma alloc_alloc_disjoint:
  assumes "ok h" "valid l" "alloc h l = Inr (p, h')" "p \<noteq> 0"
    and "valid k" "alloc h' k = Inr (q, h'')" "q \<noteq> 0"
  shows "{unat p ..< unat p + extent l} \<inter> {unat q ..< unat q + extent k} = {}"
proof -
  from alloc_cases [OF assms(1-3)] assms(4)
  have "ok h'" "free h' = free h - {unat p ..< unat p + extent l}" by auto
  with alloc_cases [OF _ assms(5,6)] assms(7) show ?thesis by fastforce
qed

end

definition layout_valid :: "layout \<Rightarrow> bool" where
  "layout_valid l \<longleftrightarrow> (\<exists>n \<in> {0..<64}. layout_ok l n)"

text \<open>The bytes a request takes from the arena.\<close>

definition block_size :: "layout \<Rightarrow> nat" where
  "block_size l = (case size_align l of Inr (sz, _) \<Rightarrow> unat sz | Inl _ \<Rightarrow> 0)"

definition layout_aligned :: "layout \<Rightarrow> nat \<Rightarrow> bool" where
  "layout_aligned l a \<longleftrightarrow> unat (layout_align l) dvd a \<and> 8 dvd a"

definition heap_ok :: "locked_heap \<Rightarrow> bool" where
  "heap_ok h \<longleftrightarrow> fl_ok (inner h)"

definition heap_free :: "locked_heap \<Rightarrow> nat set" where
  "heap_free h = free_bytes (inner h)"

lemma with_lock_Inr:
  "with_lock h f = Inr (x, h') \<longleftrightarrow> (\<exists>fl. f (inner h) = Inr (x, fl) \<and> h' = h\<lparr>inner := fl\<rparr>)"
  by (cases h) (auto simp: with_lock_def Let_def res_simps)

lemma layout_validE:
  assumes "layout_valid l"
  obtains n sz where "layout_ok l n" "size_align l = Inr (sz, 2 ^ max n 3)" "block_size l = unat sz"
    "request_ok sz (2 ^ max n 3) (max n 3)" "unat sz = max 16 (ceil_pow2 (max n 3) (unat (layout_size l)))"
proof -
  from assms obtain n where n: "layout_ok l n" by (auto simp: layout_valid_def)
  from size_align_spec [OF n] obtain sz where sz: "size_align l = Inr (sz, 2 ^ max n 3)"
    "request_ok sz (2 ^ max n 3) (max n 3)"
    "unat sz = max 16 (ceil_pow2 (max n 3) (unat (layout_size l)))" by blast
  show ?thesis by (rule that [OF n sz(1) _ sz(2,3)]) (simp add: block_size_def sz(1))
qed

lemma layout_aligned_pow2: "layout_ok l n \<Longrightarrow> layout_aligned l a \<longleftrightarrow> 2 ^ max n 3 dvd a"
proof -
  assume l: "layout_ok l n"
  then have "unat (layout_align l) = 2 ^ n" by (simp add: layout_ok_def unat_pow2)
  moreover have "(2::nat) ^ max n 3 dvd a \<longleftrightarrow> 2 ^ n dvd a \<and> 2 ^ 3 dvd a"
    using power_le_dvd [of "2::nat" 3 a n] power_le_dvd [of "2::nat" n a 3] by (auto simp: max_def)
  ultimately show ?thesis by (simp add: layout_aligned_def)
qed

lemma heap_alloc_step:
  assumes "heap_ok h" "layout_valid l"
  shows "(\<exists>p fl. heap_alloc h l = Inr (p, h\<lparr>inner := fl\<rparr>) \<and> 0 < unat p \<and> layout_aligned l (unat p)
      \<and> unat p + block_size l < 2 ^ 63 \<and> fl_ok fl \<and> {unat p ..< unat p + block_size l} \<subseteq> heap_free h
      \<and> free_bytes fl = heap_free h - {unat p ..< unat p + block_size l})
    \<or> heap_alloc h l = Inr (0, h) \<and> (\<forall>r \<in> set (inner h).
        unat (node_size r) < block_size l + max (unat (layout_align l)) 8 + 32)"
proof -
  obtain n sz where l: "layout_ok l n" and sz: "size_align l = Inr (sz, 2 ^ max n 3)" "block_size l = unat sz"
      "request_ok sz (2 ^ max n 3) (max n 3)"
    using assms(2) by (rule layout_validE)
  have al: "max (unat (layout_align l)) 8 = 2 ^ max n 3"
    using l power_increasing_iff [of "2::nat" n 3] by (auto simp: layout_ok_def unat_pow2 max_def)
  have h: "heap_alloc h l = Inr (p, h\<lparr>inner := fl\<rparr>)"
    if "fl_alloc (inner h) sz (2 ^ max n 3) = Inr (p, fl)" for p fl
    using that by (simp add: heap_alloc_def sz with_lock_Inr)
  from fl_alloc_spec [OF assms(1) [unfolded heap_ok_def] sz(3)] show ?thesis
  proof (elim disjE exE conjE)
    fix p fl
    assume "fl_alloc (inner h) sz (2 ^ max n 3) = Inr (p, fl)" "0 < unat p" "2 ^ max n 3 dvd unat p"
      "unat p + unat sz < 2 ^ 63" "fl_ok fl" "{unat p ..< unat p + unat sz} \<subseteq> free_bytes (inner h)"
      "free_bytes fl = free_bytes (inner h) - {unat p ..< unat p + unat sz}"
    then show ?thesis
      by (intro disjI1 exI [of _ p] exI [of _ fl])
        (simp add: h sz(2) heap_free_def layout_aligned_pow2 [OF l])
  next
    assume "fl_alloc (inner h) sz (2 ^ max n 3) = Inr (0, inner h)"
      "\<forall>r \<in> set (inner h). unat (node_size r) < unat sz + 2 ^ max n 3 + 32"
    then show ?thesis using h [of 0 "inner h"] by (simp add: al sz(2))
  qed
qed

lemma heap_dealloc_step:
  assumes "heap_ok h" "layout_valid l" "0 < unat p" "layout_aligned l (unat p)"
    "unat p + block_size l < 2 ^ 63" "{unat p ..< unat p + block_size l} \<inter> heap_free h = {}"
  shows "\<exists>fl. heap_dealloc h p l = Inr ((), h\<lparr>inner := fl\<rparr>) \<and> fl_ok fl
    \<and> free_bytes fl = heap_free h \<union> {unat p ..< unat p + block_size l}"
proof -
  obtain n sz where sz: "size_align l = Inr (sz, 2 ^ max n 3)" "block_size l = unat sz"
      "request_ok sz (2 ^ max n 3) (max n 3)"
    using assms(2) by (rule layout_validE)
  have "\<exists>fl'. fl_dealloc (inner h) p sz = Inr fl' \<and> fl_ok fl'
    \<and> free_bytes fl' = free_bytes (inner h) \<union> {unat p ..< unat p + unat sz}"
    using assms sz(2,3)
    by (intro fl_dealloc_spec) (simp_all add: heap_ok_def heap_free_def layout_aligned_def request_ok_def)
  then show ?thesis by (auto simp: heap_dealloc_def sz with_lock_Inr heap_free_def)
qed

interpretation kheap: byte_allocator heap_ok heap_free heap_alloc heap_dealloc block_size layout_aligned
  layout_valid
proof (unfold_locales, goal_cases)
  case (1 h l)
  from heap_alloc_step [OF this] show ?case
    by (elim disjE exE conjE) (auto simp: heap_ok_def heap_free_def intro!: exI)
next
  case (2 h l p)
  from heap_dealloc_step [OF this] show ?case
    by (elim exE conjE) (auto simp: heap_ok_def heap_free_def)
qed

section \<open>Histories of the heap\<close>

text \<open>
  Every history of the global allocator after \<^verbatim>\<open>HEAP.init(addr, size)\<close>: requests that succeed or
  fail, and releases of a live block with the layout it was requested with, in any order. \<open>live\<close> is
  what the clients hold.
\<close>

inductive heap_run :: "u64 \<Rightarrow> u64 \<Rightarrow> locked_heap \<Rightarrow> (u64 \<times> layout) list \<Rightarrow> bool" for addr sz where
  boot: "heap_init (LOCKED_HEAP_NEW f) addr sz = Inr ((), h) \<Longrightarrow> heap_run addr sz h []"
| alloc: "heap_run addr sz h live \<Longrightarrow> layout_valid l \<Longrightarrow> heap_alloc h l = Inr (p, h') \<Longrightarrow> p \<noteq> 0
    \<Longrightarrow> heap_run addr sz h' ((p, l) # live)"
| full: "heap_run addr sz h live \<Longrightarrow> layout_valid l \<Longrightarrow> heap_alloc h l = Inr (0, h')
    \<Longrightarrow> heap_run addr sz h' live"
| dealloc: "heap_run addr sz h (pre @ (p, l) # post) \<Longrightarrow> heap_dealloc h p l = Inr ((), h')
    \<Longrightarrow> heap_run addr sz h' (pre @ post)"

definition block_bytes :: "u64 \<times> layout \<Rightarrow> nat set" where
  "block_bytes b = {unat (fst b) ..< unat (fst b) + block_size (snd b)}"

definition live_bytes :: "(u64 \<times> layout) list \<Rightarrow> nat set" where
  "live_bytes live = (\<Union>b \<in> set live. block_bytes b)"

fun live_ok :: "(u64 \<times> layout) list \<Rightarrow> bool" where
  "live_ok [] \<longleftrightarrow> True"
| "live_ok (b # bs) \<longleftrightarrow> fst b \<noteq> 0 \<and> layout_valid (snd b) \<and> layout_aligned (snd b) (unat (fst b))
     \<and> unat (fst b) + block_size (snd b) < 2 ^ 63 \<and> block_bytes b \<inter> live_bytes bs = {} \<and> live_ok bs"

definition arena_ok :: "u64 \<Rightarrow> u64 \<Rightarrow> bool" where
  "arena_ok addr sz \<longleftrightarrow> node_ok \<lparr>start_addr = addr, node_size = sz\<rparr>"

definition heap_inv :: "u64 \<Rightarrow> u64 \<Rightarrow> locked_heap \<Rightarrow> (u64 \<times> layout) list \<Rightarrow> bool" where
  "heap_inv addr sz h live \<longleftrightarrow> heap_ok h \<and> live_ok live \<and> heap_free h \<inter> live_bytes live = {}
     \<and> heap_free h \<union> live_bytes live = {unat addr ..< unat addr + unat sz}"

lemma live_bytes_simps [simp]:
  "live_bytes [] = {}"
  "live_bytes (b # bs) = block_bytes b \<union> live_bytes bs"
  "live_bytes (xs @ ys) = live_bytes xs \<union> live_bytes ys"
  by (auto simp: live_bytes_def)

lemma live_ok_append: "live_ok (xs @ ys) \<longleftrightarrow> live_ok xs \<and> live_ok ys \<and> live_bytes xs \<inter> live_bytes ys = {}"
  by (induction xs) auto

lemma live_ok_mid: "live_ok (pre @ b # post) \<longleftrightarrow> live_ok (b # pre @ post)"
  by (auto simp: live_ok_append)

lemma heap_inv_boot:
  assumes "arena_ok addr sz" "heap_init (LOCKED_HEAP_NEW f) addr sz = Inr ((), h)"
  shows "heap_inv addr sz h []"
proof -
  from assms(1) have n: "node_ok \<lparr>start_addr = addr, node_size = sz\<rparr>" by (simp add: arena_ok_def)
  then have "add_free_region [] addr sz = Inr [\<lparr>start_addr = addr, node_size = sz\<rparr>]"
    by (intro add_free_region_ok) (simp_all add: node_ok_def)
  with assms(2) have "inner h = [\<lparr>start_addr = addr, node_size = sz\<rparr>]"
    by (auto simp: heap_init_def fl_init_def with_lock_Inr LOCKED_HEAP_NEW_def)
  with n show ?thesis by (simp add: heap_inv_def heap_ok_def heap_free_def node_bytes_def)
qed

lemma heap_inv_alloc:
  assumes "heap_inv addr sz h live" "layout_valid l" "heap_alloc h l = Inr (p, h')" "p \<noteq> 0"
  shows "heap_inv addr sz h' ((p, l) # live)"
proof -
  have "heap_ok h" using assms(1) by (simp add: heap_inv_def)
  from kheap.alloc_cases [OF this assms(2,3)] assms(1,2,4) show ?thesis
    by (auto simp: heap_inv_def block_bytes_def)
qed

lemma heap_inv_full:
  assumes "heap_inv addr sz h live" "layout_valid l" "heap_alloc h l = Inr (0, h')"
  shows "heap_inv addr sz h' live"
  using kheap.alloc_cases [OF _ assms(2,3)] assms(1) by (auto simp: heap_inv_def)

lemma heap_inv_dealloc:
  assumes "heap_inv addr sz h (pre @ (p, l) # post)"
  shows "\<exists>h'. heap_dealloc h p l = Inr ((), h') \<and> heap_inv addr sz h' (pre @ post)"
proof -
  from assms have i: "heap_ok h" "live_ok ((p, l) # pre @ post)"
    "heap_free h \<inter> live_bytes (pre @ (p, l) # post) = {}"
    by (simp_all only: heap_inv_def live_ok_mid)
  then have "layout_valid l" "0 < unat p" "layout_aligned l (unat p)" "unat p + block_size l < 2 ^ 63"
    "{unat p ..< unat p + block_size l} \<inter> heap_free h = {}"
    by (auto simp: block_bytes_def word_neq_0_conv unat_gt_0)
  from kheap.dealloc_law [OF i(1) this] assms i(2) show ?thesis
    by (fastforce simp: heap_inv_def block_bytes_def)
qed

lemma heap_run_inv:
  assumes "heap_run addr sz h live" "arena_ok addr sz"
  shows "heap_inv addr sz h live"
  using assms
proof (induction rule: heap_run.induct)
  case (dealloc h pre p l post h')
  then show ?case using heap_inv_dealloc [of addr sz h pre p l post] by auto
qed (simp_all add: heap_inv_boot heap_inv_alloc heap_inv_full)

section \<open>Properties\<close>

lemma block_size_bounds:
  assumes "layout_valid l"
  shows "unat (layout_size l) \<le> block_size l" "16 \<le> block_size l"
proof -
  obtain n sz where "layout_ok l n" "size_align l = Inr (sz, 2 ^ max n 3)" "block_size l = unat sz"
    "request_ok sz (2 ^ max n 3) (max n 3)" "unat sz = max 16 (ceil_pow2 (max n 3) (unat (layout_size l)))"
    using assms by (rule layout_validE)
  then show "unat (layout_size l) \<le> block_size l" "16 \<le> block_size l"
    using ceil_pow2_bounds(1) [of "unat (layout_size l)" "max n 3"] by linarith+
qed

definition sample_heap :: locked_heap where
  "sample_heap = \<lparr>inner = [\<lparr>start_addr = 0x100008, node_size = 0x2000\<rparr>], if_flag = True\<rparr>"

definition sample_layout :: layout where
  "sample_layout = \<lparr>layout_size = 100, layout_align = 64\<rparr>"

lemma sample_heap_ok: "heap_ok sample_heap"
  by (simp add: heap_ok_def sample_heap_def node_ok_def)

lemma sample_layout_valid: "layout_valid sample_layout"
  unfolding layout_valid_def by (rule bexI [of _ 6]) (simp_all add: layout_ok_def sample_layout_def)

lemmas heap_eval = heap_alloc_def with_lock_def fl_alloc_def alloc_from_region_def align_up_def padd_def
  psub_def checked_add_def FREE_NODE_SIZE_def FREE_NODE_ALIGN_def end_addr_def add_free_region_def
  rassert_def word_le_nat_alt word_less_nat_alt

lemma sample_size_align: "size_align sample_layout = Inr (128, 64)"
  using is_power_of_two_pow2 [of 6]
  by (simp add: sample_layout_def size_align_def align_to_def from_size_align_def pad_to_align_def Let_def
      FREE_NODE_ALIGN_def FREE_NODE_SIZE_def max_def)

lemma sample_alloc: "heap_alloc sample_heap sample_layout = Inr (0x100040, \<lparr>inner =
   [\<lparr>start_addr = 0x1000C0, node_size = 0x1F48\<rparr>, \<lparr>start_addr = 0x100008, node_size = 56\<rparr>], if_flag = True\<rparr>)"
  by (simp add: sample_size_align sample_heap_def heap_eval)

lemma sample_block_size: "block_size sample_layout = 128"
  by (simp add: block_size_def sample_size_align)

text \<open>
  C10. A request with a valid layout never panics. It returns either a non-null pointer with the
  requested alignment to a block of at least the requested size (and of 16 bytes) that was free and is
  free no longer, while every other byte keeps its status; or null, with the heap unchanged, and only
  when every free block is smaller than the rounded size, the alignment and two headers together. The
  interrupt flag is as it was before the call.
\<close>

theorem heap_alloc_correct:
  assumes "heap_ok h" "layout_valid l"
  shows "\<exists>p h'. heap_alloc h l = Inr (p, h') \<and> heap_ok h' \<and> if_flag h' = if_flag h
    \<and> (if p = 0 then h' = h \<and> (\<forall>r \<in> set (inner h).
           unat (node_size r) < block_size l + max (unat (layout_align l)) 8 + 32)
       else unat (layout_align l) dvd unat p \<and> unat (layout_size l) \<le> block_size l \<and> 16 \<le> block_size l
         \<and> {unat p ..< unat p + block_size l} \<subseteq> heap_free h
         \<and> heap_free h' = heap_free h - {unat p ..< unat p + block_size l})"
  using heap_alloc_step [OF assms] block_size_bounds [OF assms(2)] assms(1)
  by (elim disjE exE conjE) (auto simp: heap_ok_def heap_free_def layout_aligned_def)

theorem heap_alloc_correct_witness:
  "\<exists>h'. heap_alloc sample_heap sample_layout = Inr (0x100040, h') \<and> heap_ok h'
     \<and> heap_free h' = heap_free sample_heap - {0x100040 ..< 0x1000C0}"
  using heap_alloc_correct [OF sample_heap_ok sample_layout_valid]
  by (auto simp: sample_alloc sample_block_size)

text \<open>
  C11. Releasing a block with the layout it was requested with never panics and gives back exactly
  the bytes that the request took: the free bytes are those before the request.
\<close>

theorem heap_alloc_dealloc_roundtrip:
  assumes "heap_ok h" "layout_valid l" "heap_alloc h l = Inr (p, h')" "p \<noteq> 0"
  shows "\<exists>h''. heap_dealloc h' p l = Inr ((), h'') \<and> heap_ok h'' \<and> heap_free h'' = heap_free h"
  using assms by (rule kheap.alloc_dealloc)

theorem heap_alloc_dealloc_roundtrip_witness:
  "\<exists>h' h''. heap_alloc sample_heap sample_layout = Inr (0x100040, h')
     \<and> heap_dealloc h' 0x100040 sample_layout = Inr ((), h'') \<and> heap_free h'' = heap_free sample_heap"
  using heap_alloc_dealloc_roundtrip [OF sample_heap_ok sample_layout_valid sample_alloc] sample_alloc
  by auto

text \<open>
  C5. In every history of the allocator after its initialisation with a sound arena, the blocks
  held by clients are aligned, pairwise disjoint and disjoint from the free blocks, and held and free
  bytes together are the whole arena: nothing is handed out twice and nothing leaks. Every further valid
  request and every release of a held block returns without a panic.
\<close>

theorem heap_histories_sound:
  assumes "heap_run addr sz h live" "arena_ok addr sz"
  shows "live_ok live \<and> fl_ok (inner h) \<and> heap_free h \<inter> live_bytes live = {}
    \<and> heap_free h \<union> live_bytes live = {unat addr ..< unat addr + unat sz}
    \<and> (\<forall>l. layout_valid l \<longrightarrow> (\<exists>p h'. heap_alloc h l = Inr (p, h')))
    \<and> (\<forall>p l. (p, l) \<in> set live \<longrightarrow> (\<exists>h'. heap_dealloc h p l = Inr ((), h')))"
proof -
  have inv: "heap_inv addr sz h live" using assms by (rule heap_run_inv)
  have "\<exists>h'. heap_dealloc h p l = Inr ((), h')" if "(p, l) \<in> set live" for p l
    using split_list [OF that] inv heap_inv_dealloc by blast
  with inv show ?thesis by (auto simp: heap_inv_def heap_ok_def dest: kheap.alloc_total [unfolded heap_ok_def])
qed

lemma sample_boot:
  "heap_init (LOCKED_HEAP_NEW True) 0x100008 0x2000 = Inr ((), sample_heap)"
  by (simp add: heap_init_def LOCKED_HEAP_NEW_def fl_init_def sample_heap_def heap_eval)

lemma sample_arena_ok: "arena_ok 0x100008 0x2000"
  by (simp add: arena_ok_def node_ok_def)

theorem heap_histories_sound_witness:
  "\<exists>h'. heap_run 0x100008 0x2000 h' [(0x100040, sample_layout)]
     \<and> heap_free h' \<union> live_bytes [(0x100040, sample_layout)] = {0x100008 ..< 0x102008}"
proof -
  have r: "heap_run 0x100008 0x2000 h' [(0x100040, sample_layout)]"
    if "heap_alloc sample_heap sample_layout = Inr (0x100040, h')" for h'
    using heap_run.alloc [OF heap_run.boot [OF sample_boot] sample_layout_valid that] by simp
  show ?thesis using heap_histories_sound [OF r [OF sample_alloc] sample_arena_ok] r [OF sample_alloc] by auto
qed

text \<open>
  \<^verbatim>\<open>kmalloc_aligned(size, align)\<close> with any alignment and any size up to \<^verbatim>\<open>isize::MAX - 7\<close> never
  panics: it returns null and leaves the heap alone, or a pointer with that alignment to \<open>sz\<close> bytes that
  were free and are free no longer. For an alignment that is no power of two it returns null.
\<close>

theorem kmalloc_aligned_correct:
  assumes "heap_ok h" "unat sz + 8 \<le> 2 ^ 63"
  shows "kmalloc_aligned h sz align = Inr (0, h)
    \<or> is_power_of_two align \<and> (\<exists>p h'. kmalloc_aligned h sz align = Inr (p, h') \<and> p \<noteq> 0 \<and> heap_ok h'
        \<and> unat align dvd unat p \<and> {unat p ..< unat p + unat sz} \<subseteq> heap_free h
        \<and> heap_free h' \<subseteq> heap_free h - {unat p ..< unat p + unat sz})"
proof (cases "from_size_align sz align")
  case None
  then show ?thesis by (simp add: kmalloc_aligned_def)
next
  case (Some l)
  then have l: "l = \<lparr>layout_size = sz, layout_align = align\<rparr>" and p2: "is_power_of_two align"
    and le: "sz \<le> 0x8000000000000000 - align"
    by (simp_all add: from_size_align_def split: if_splits)
  from p2 obtain n where n: "n < 64" "unat align = 2 ^ n" by (auto simp: is_power_of_two_def)
  have "unat sz + 2 ^ n \<le> 2 ^ 63"
    using le psub_unat [of align "0x8000000000000000"] pow2_le [OF n(1)] n(2) by (simp add: word_le_nat_alt)
  then have "layout_ok l n"
    using assms(2) n unat_pow2 [OF n(1)] by (auto simp: layout_ok_def l max_def word_unat_eq_iff)
  then have v: "layout_valid l" using n(1) by (auto simp: layout_valid_def)
  have k: "kmalloc_aligned h sz align = heap_alloc h l" by (simp add: kmalloc_aligned_def Some)
  from heap_alloc_step [OF assms(1) v] block_size_bounds(1) [OF v] p2 show ?thesis unfolding k
    by (elim disjE exE conjE) (force simp: l heap_ok_def heap_free_def layout_aligned_def)+
qed

theorem kmalloc_aligned_correct_witness:
  "\<exists>h'. kmalloc_aligned sample_heap 100 64 = Inr (0x100040, h')
     \<and> {0x100040 ..< 0x1000A4} \<subseteq> heap_free sample_heap"
proof -
  have k: "kmalloc_aligned sample_heap 100 64 = Inr (0x100040, \<lparr>inner = [\<lparr>start_addr = 0x1000C0, node_size = 0x1F48\<rparr>,
      \<lparr>start_addr = 0x100008, node_size = 56\<rparr>], if_flag = True\<rparr>)"
    using is_power_of_two_pow2 [of 6] sample_alloc
    by (simp add: kmalloc_aligned_def from_size_align_def sample_layout_def)
  from kmalloc_aligned_correct [OF sample_heap_ok, of 100 64] show ?thesis by (auto simp: k)
qed

end
