(* ===== verification/Boot.thy ===== *)
theory Boot
  imports Pci Heap
begin

text \<open>
  The boot sequence (\<^verbatim>\<open>main.rs\<close>: \<^verbatim>\<open>kernel_main\<close>, \<^verbatim>\<open>parse_madt\<close>, \<^verbatim>\<open>parse_s5\<close>; \<^verbatim>\<open>syscall::init\<close>, \<^verbatim>\<open>heap::self_test\<close>): the walk
  over the multiboot2 tags, set-up of memory, descriptors and system calls, the ACPI tables, devices, and the first
  two processes.

  The state of the whole machine extends that of the driver and the kernel. Two walks over tables of the boot loader
  and the firmware do not end when an element claims the length 0; they are partial functions, and a computation
  that contains one has type \<open>'a res option\<close>, with \<open>None\<close> for not returning. Addresses inside those tables do not
  overflow.
\<close>

section \<open>State\<close>

text \<open>What the linker and the boot code fix: addresses of code and tables, and what the frame buffer shows.\<close>

record image =
  handlers_of :: handlers
  idt_addr :: u64
  tss_addr :: u64
  gdt_addr :: u64
  syscall_entry :: u64
  efer :: u64  \<comment> \<open>of the extended feature register before it is changed\<close>
  process_a :: u64
  process_b :: u64
  fb_contents :: "u64 \<Rightarrow> fb"

record machine = xhci +
  idt_table :: idt
  idtr :: "u16 \<times> u64"
  gdt :: "u64 list"
  gdtr :: "u16 \<times> u64"
  task_reg :: u16
  iomap :: u16
  lapic_base :: u64
  ioapic_base :: u64
  timer_gsi :: u8
  scheduler_ready :: bool
  gdt3_last :: u64
  dsdt_addr :: u64
  kernel_heap :: locked_heap
  syscall_kernel_rsp :: u64
  msrs :: "(u32 \<times> u64) list"  \<comment> \<open>writes to model-specific registers, latest first\<close>
  keyboard_on :: bool

definition in_xhci :: "(xhci \<Rightarrow> ('a \<times> xhci) res) \<Rightarrow> machine \<Rightarrow> ('a \<times> machine) res" where
  "in_xhci f m = rbind (f (xhci.truncate m)) (\<lambda>(x, s). Inr (x, xhci.extend s (xhci.more m)))"

definition do_xhci :: "(xhci \<Rightarrow> xhci res) \<Rightarrow> machine \<Rightarrow> machine res" where
  "do_xhci f m = rbind (f (xhci.truncate m)) (\<lambda>s. Inr (xhci.extend s (xhci.more m)))"

definition announce :: "piece list \<Rightarrow> machine \<Rightarrow> machine res" where
  "announce ps = do_xhci (say ps)"

definition do_kernel :: "(kernel \<Rightarrow> kernel res) \<Rightarrow> machine \<Rightarrow> machine res" where
  "do_kernel f = do_xhci (on_kernel f)"

section \<open>Multiboot2 tags\<close>

record mb_info =
  xsdt_addr :: u64
  mmap_addr :: u64
  mmap_size :: u32
  mmap_entry_size :: u32
  mb_mod_start :: u64
  mb_mod_end :: u64

definition MB_NONE :: mb_info where
  "MB_NONE = \<lparr>xsdt_addr = 0, mmap_addr = 0, mmap_size = 0, mmap_entry_size = 0, mb_mod_start = 0, mb_mod_end = 0\<rparr>"

text \<open>The tag of the frame buffer: console, interrupt descriptors, and the old interrupt controllers off.\<close>

definition mb_framebuffer :: "image \<Rightarrow> u64 \<Rightarrow> machine \<Rightarrow> machine res" where
  "mb_framebuffer im p m =
     (let a = read64 (kmem m) (p + 8);
          c = \<lparr>pixels = fb_contents im a, pitch = read32 (kmem m) (p + 16), width = read32 (kmem m) (p + 20),
               height = read32 (kmem m) (p + 24), cx = 0, cy = 0\<rparr> in
      rbind (clear c) (\<lambda>c.
      rbind (announce [S ''Tomorrow OS\<newline>''] (m\<lparr>kconsole := Some c\<rparr>)) (\<lambda>m.
      rbind (announce [S ''IDT ok\<newline>''] (m\<lparr>idtr := snd (idt_init (spurious_handler (handlers_of im)) (idt_addr im) (idt_table m))\<rparr>)) (\<lambda>m.
      announce [S ''PIC off\<newline>'']
        (m\<lparr>idt_table := boot_idt (handlers_of im) (idt_addr im) (idt_table m),
           kports := map (\<lambda>(port, v). (port, ucast v)) (rev pic_disable) @ kports m\<rparr>)))))"

definition mb_tag :: "image \<Rightarrow> u64 \<Rightarrow> mb_info \<times> machine \<Rightarrow> (mb_info \<times> machine) res" where
  "mb_tag im p = (\<lambda>(i, m).
     let typ = read32 (kmem m) p in
     if typ = 3 then Inr (i\<lparr>mb_mod_start := ucast (read32 (kmem m) (p + 8)), mb_mod_end := ucast (read32 (kmem m) (p + 12))\<rparr>, m)
     else if typ = 6 then
       Inr (i\<lparr>mmap_addr := p, mmap_size := read32 (kmem m) (p + 4), mmap_entry_size := read32 (kmem m) (p + 8)\<rparr>, m)
     else if typ = 8 then rbind (mb_framebuffer im p m) (\<lambda>m. Inr (i, m))
     else if typ = 15 then Inr (i\<lparr>xsdt_addr := read64 (kmem m) (p + 32)\<rparr>, m)
     else Inr (i, m))"

text \<open>The next tag starts at the next multiple of eight.\<close>

definition next_tag :: "mem \<Rightarrow> u64 \<Rightarrow> u64" where
  "next_tag m p = p + ((ucast (read32 m (p + 4)) + 7) AND NOT 7)"

partial_function (option) mb_loop :: "image \<Rightarrow> u64 \<Rightarrow> mb_info \<times> machine \<Rightarrow> (mb_info \<times> machine) res option" where
  "mb_loop im p s =
     (if read32 (kmem (snd s)) p = 0 then Some (Inr s)
      else case mb_tag im p s of
        Inl e \<Rightarrow> Some (Inl e)
      | Inr s' \<Rightarrow> mb_loop im (next_tag (kmem (snd s)) p) s')"

section \<open>ACPI tables\<close>

text \<open>One entry of the MADT.\<close>

definition madt_entry :: "u64 \<Rightarrow> machine \<Rightarrow> machine res" where
  "madt_entry p m =
     (let typ = kmem m p in
      if typ = 0 then
        announce [S ''CPU apic_id='', H (ucast (kmem m (p + 3))), S '' flags='', H (ucast (read32 (kmem m) (p + 4))), S ''\<newline>''] m
      else if typ = 1 then
        let a = ucast (read32 (kmem m) (p + 4)); m' = (if read32 (kmem m) (p + 8) = 0 then m\<lparr>ioapic_base := a\<rparr> else m) in
        announce [S ''IO APIC id='', H (ucast (kmem m (p + 2))), S '' addr='', H a, S ''\<newline>''] m'
      else if typ = 2 then
        Inr (if kmem m (p + 3) = 0 then m\<lparr>timer_gsi := ucast (read32 (kmem m) (p + 4))\<rparr> else m)
      else Inr m)"

partial_function (option) madt_loop :: "u64 \<Rightarrow> u64 \<Rightarrow> u64 \<Rightarrow> machine \<Rightarrow> machine res option" where
  "madt_loop addr len offset m =
     (if offset < len then
        (case madt_entry (addr + offset) m of
           Inl e \<Rightarrow> Some (Inl e)
         | Inr m' \<Rightarrow> madt_loop addr len (offset + ucast (kmem m (addr + offset + 1))) m')
      else Some (Inr m))"

definition parse_madt :: "u64 \<Rightarrow> machine \<Rightarrow> (u64 \<times> machine) res option" where
  "parse_madt addr m =
     (let len = ucast (read32 (kmem m) (addr + 4)); lapic = ucast (read32 (kmem m) (addr + 36)) in
      case announce [S ''Local APIC: '', H lapic, S ''\<newline>''] m of
        Inl e \<Rightarrow> Some (Inl e)
      | Inr m \<Rightarrow> map_option (\<lambda>r. rbind r (\<lambda>m. Inr (lapic, m))) (madt_loop addr len (36 + 8) m))"

text \<open>One small integer of AML, with the new position.\<close>

definition read_aml_byte :: "mem \<Rightarrow> u64 \<Rightarrow> nat \<Rightarrow> u8 \<times> nat" where
  "read_aml_byte m base p =
     (let opcode = m (base + of_nat p) in
      if opcode = 0x00 then (0, p + 1)
      else if opcode = 0x01 then (1, p + 1)
      else if opcode = 0x0A then (m (base + of_nat (p + 1)), p + 2)
      else (opcode, p + 1))"

function s5_loop :: "mem \<Rightarrow> u64 \<Rightarrow> nat \<Rightarrow> nat \<Rightarrow> (u8 \<times> u8) option" where
  "s5_loop m base len i =
     (if i + 5 < len then
        if read_slice m (base + of_nat i) 4 = str ''_S5_'' \<and> m (base + of_nat (i + 4)) = 0x12 then
          let lead = m (base + of_nat (i + 5)); p = i + 5 + (1 + unat (drop_bit 6 lead)) + 1;
              (a, p) = read_aml_byte m base p; (b, p) = read_aml_byte m base p in
          Some (a AND 7, b AND 7)
        else s5_loop m base len (i + 1)
      else None)"
  by pat_completeness auto
termination by (relation "measure (\<lambda>(m, base, len, i). len - i)") auto

declare s5_loop.simps [simp del]

definition parse_s5 :: "mem \<Rightarrow> u64 \<Rightarrow> (u8 \<times> u8) option" where
  "parse_s5 m dsdt = (if dsdt = 0 then None else s5_loop m dsdt (unat (read32 m (dsdt + 4))) 0)"

section \<open>Loops over tables\<close>

text \<open>A \<^verbatim>\<open>for\<close> loop whose body may panic or not return, and its sequencing.\<close>

definition obind :: "'a res option \<Rightarrow> ('a \<Rightarrow> 'b res option) \<Rightarrow> 'b res option" where
  "obind x f = (case x of None \<Rightarrow> None | Some (Inl e) \<Rightarrow> Some (Inl e) | Some (Inr y) \<Rightarrow> f y)"

fun ofold :: "('a \<Rightarrow> 's \<Rightarrow> 's res option) \<Rightarrow> 'a list \<Rightarrow> 's \<Rightarrow> 's res option" where
  "ofold f [] s = Some (Inr s)"
| "ofold f (x # xs) s = obind (f x s) (ofold f xs)"

definition signature :: "mem \<Rightarrow> u64 \<Rightarrow> u8 list" where
  "signature m a = read_slice m a 4"

definition acpi_entry :: "u64 \<Rightarrow> nat \<Rightarrow> machine \<Rightarrow> u64" where
  "acpi_entry xsdt i m = read64 (kmem m) (xsdt + 36 + of_nat (8 * i))"

text \<open>First pass: the interrupt controllers. \<^verbatim>\<open>sti\<close> sets the interrupt flag.\<close>

definition acpi_apic :: "u64 \<Rightarrow> nat \<Rightarrow> machine \<Rightarrow> machine res option" where
  "acpi_apic xsdt i m =
     (let a = acpi_entry xsdt i m in
      if signature (kmem m) a = str ''APIC'' then
        obind (parse_madt a m) (\<lambda>(lapic, m).
        let m = m\<lparr>lapic_base := lapic\<rparr> in
        Some (rbind (do_xhci (\<lambda>s. Inr (ioapic_redirect (ioapic_base m) (timer_gsi m) 0x20 0 (lapic_enable lapic s))) m) (\<lambda>m.
          announce [S ''APIC ok\<newline>''] (m\<lparr>kif := True\<rparr>))))
      else Some (Inr m))"

text \<open>Second pass: PCI, and the registers for switching off.\<close>

definition acpi_mcfg :: "u64 \<Rightarrow> u64 option \<times> machine \<Rightarrow> (u64 option \<times> machine) res" where
  "acpi_mcfg a = (\<lambda>(bar, m).
     if signature (kmem m) a = str ''MCFG'' then
       let base = read64 (kmem m) (a + 44) in
       rbind (announce [S ''MCFG: '', H base, S ''\<newline>''] m) (\<lambda>m.
       rbind (do_xhci (enumerate base) m) (in_xhci (find_xhci base)))
     else Inr (bar, m))"

definition acpi_facp :: "u64 \<Rightarrow> machine \<Rightarrow> machine res" where
  "acpi_facp a m =
     (if signature (kmem m) a = str ''FACP'' then
        let pm1a = ucast (read32 (kmem m) (a + 64)) :: u16; pm1b = ucast (read32 (kmem m) (a + 68)) :: u16;
            dsdt = ucast (read32 (kmem m) (a + 40)) :: u64 in
        rbind (announce [S ''PM1a_CNT: '', H (ucast pm1a), S ''\<newline>''] m) (\<lambda>m.
        let m = m\<lparr>kpm1a := pm1a, kpm1b := pm1b, dsdt_addr := dsdt\<rparr> in
        case parse_s5 (kmem m) dsdt of
          Some (x, y) \<Rightarrow> announce [S ''SLP_TYPa: '', H (ucast x), S ''\<newline>''] (m\<lparr>kslp_a := x, kslp_b := y\<rparr>)
        | None \<Rightarrow> announce [S ''_S5 not found\<newline>''] m)
      else Inr m)"

definition acpi_table :: "u64 \<Rightarrow> nat \<Rightarrow> u64 option \<times> machine \<Rightarrow> (u64 option \<times> machine) res" where
  "acpi_table xsdt i = (\<lambda>(bar, m).
     let a = acpi_entry xsdt i m; sig = signature (kmem m) a in
     rbind (acpi_mcfg a (bar, m)) (\<lambda>(bar, m).
     rbind (acpi_facp a m) (\<lambda>m.
     rbind (do_kernel (write_bytes_sh sig) m) (\<lambda>m.
     rbind (announce [S '' ''] m) (\<lambda>m. Inr (bar, m))))))"

definition acpi :: "u64 \<Rightarrow> machine \<Rightarrow> (u64 option \<times> machine) res option" where
  "acpi xsdt m =
     (if xsdt = 0 then Some (Inr (None, m))
      else case psub (ucast (read32 (kmem m) (xsdt + 4)) :: u64) 36 of
        Inl e \<Rightarrow> Some (Inl e)
      | Inr n \<Rightarrow> let tables = [0..<unat n div 8] in
          obind (ofold (acpi_apic xsdt) tables m) (\<lambda>m.
          Some (rbind (rfold (acpi_table xsdt) tables (None, m)) (\<lambda>(bar, m).
            rbind (announce [S ''\<newline>''] m) (\<lambda>m. Inr (bar, m))))))"

section \<open>Other steps\<close>

text \<open>
  \<^verbatim>\<open>heap::self_test\<close>, as the heap sees it: a vector of 4096 bytes made and dropped 4096 times; 64 times a vector of 64
  boxes; one aligned block. A failed allocation in \<^verbatim>\<open>Vec\<close> or \<^verbatim>\<open>Box\<close> panics. Contents of blocks are not modelled.
\<close>

definition must_alloc :: "layout \<Rightarrow> locked_heap \<Rightarrow> (u64 \<times> locked_heap) res" where
  "must_alloc l h = rbind (heap_alloc h l) (\<lambda>(p, h). if p = 0 then Inl OutOfMemory else Inr (p, h))"

definition drop_block :: "layout \<Rightarrow> u64 \<Rightarrow> locked_heap \<Rightarrow> locked_heap res" where
  "drop_block l p h = rbind (heap_dealloc h p l) (\<lambda>(_, h). Inr h)"

definition churn :: "locked_heap \<Rightarrow> locked_heap res" where
  "churn h = (let l = \<lparr>layout_size = 4096, layout_align = 1\<rparr> in
     rbind (must_alloc l h) (\<lambda>(p, h). drop_block l p h))"

definition box_round :: "locked_heap \<Rightarrow> locked_heap res" where
  "box_round h =
     (let vec = \<lparr>layout_size = 64 * 8, layout_align = 8\<rparr>; box = \<lparr>layout_size = 8, layout_align = 8\<rparr> in
      rbind (must_alloc vec h) (\<lambda>(v, h).
      rbind (rfold (\<lambda>_ (ps, h). rbind (must_alloc box h) (\<lambda>(p, h). Inr (ps @ [p], h))) [0..<64] ([], h)) (\<lambda>(ps, h).
      rbind (rfold (drop_block box) ps h) (drop_block vec v))))"

definition self_test :: "locked_heap \<Rightarrow> locked_heap res" where
  "self_test h =
     rbind (rfold (\<lambda>_. churn) [0..<4096] h) (\<lambda>h.
     rbind (rfold (\<lambda>_. box_round) [0..<64] h) (\<lambda>h.
     rbind (kmalloc_aligned h 64 4096) (\<lambda>(p, h).
     rbind (rassert (p \<noteq> 0)) (\<lambda>_. rbind (rassert (p mod 4096 = 0)) (\<lambda>_. Inr h)))))"

definition write_msr :: "u32 \<Rightarrow> u64 \<Rightarrow> machine \<Rightarrow> machine" where
  "write_msr r v m = m\<lparr>msrs := (r, v) # msrs m\<rparr>"

definition MSR_STAR :: u32 where "MSR_STAR = 0xC0000081"
definition MSR_LSTAR :: u32 where "MSR_LSTAR = 0xC0000082"
definition MSR_SYSCALL_MASK :: u32 where "MSR_SYSCALL_MASK = 0xC0000084"

definition syscall_init :: "image \<Rightarrow> machine \<Rightarrow> machine res" where
  "syscall_init im m =
     rbind (pmm_alloc (kbitmap m)) (\<lambda>(page, bm).
     rbind (padd page 4096) (\<lambda>top.
     let m = m\<lparr>kbitmap := bm, syscall_kernel_rsp := top\<rparr>;
         m = write_msr 0xC0000080 (efer im OR 1) m;
         m = write_msr MSR_LSTAR (syscall_entry im) m;
         m = write_msr MSR_STAR 0x0013000800000000 m in
     Inr (write_msr MSR_SYSCALL_MASK 0x200 m)))"

definition boot_tss :: "image \<Rightarrow> u64 \<Rightarrow> machine \<Rightarrow> machine" where
  "boot_tss im stack m = (case tss_init (tss_addr im) (gdt_addr im) stack (TSS_NEW, gdt m) of
     ((t, g), gdt_operand, sel) \<Rightarrow> m\<lparr>kst := (kst m)\<lparr>rsp0 := tss_rsp0 t\<rparr>, iomap := iomap_base t, gdt := g,
       gdtr := gdt_operand, task_reg := sel\<rparr>)"

definition boot_pmm :: "mb_info \<Rightarrow> machine \<Rightarrow> machine res option" where
  "boot_pmm i m =
     (if mmap_addr i \<noteq> 0 then
        obind (pmm_init (kimg m) (kmem m) (mmap_addr i) (mmap_size i) (mmap_entry_size i) (kbitmap m)) (\<lambda>bm.
        Some (rbind (reserve (mb_mod_start i) (mb_mod_end i) bm) (\<lambda>bm.
          Inr (m\<lparr>kbitmap := bm, kmod_start := mb_mod_start i, kmod_end := mb_mod_end i\<rparr>))))
      else Some (Inr m))"

text \<open>Stack, descriptors, heap, files and system calls.\<close>

definition boot_memory :: "image \<Rightarrow> mb_info \<Rightarrow> machine \<Rightarrow> machine res" where
  "boot_memory im i m =
     rbind (announce [S ''PMM ok\<newline>''] m) (\<lambda>m.
     rbind (pmm_alloc (kbitmap m)) (\<lambda>(page, bm).
     rbind (padd page 4096) (\<lambda>stack.
     rbind (announce [S ''TSS ok\<newline>''] (boot_tss im stack (m\<lparr>kbitmap := bm\<rparr>))) (\<lambda>m.
     rbind (psub (mb_mod_end i) (mb_mod_start i)) (\<lambda>sz.
     rbind (announce [S ''module: start='', H (mb_mod_start i), S '' size='', H sz, S ''\<newline>''] m) (\<lambda>m.
     rbind (alloc_pages 256 (kbitmap m)) (\<lambda>(start, bm).
     rbind (heap_init (kernel_heap m) start (256 * 4096)) (\<lambda>(_, h).
     rbind (self_test h) (\<lambda>h.
     rbind (announce [S ''HEAP ok\<newline>''] (m\<lparr>kbitmap := bm, kernel_heap := h\<rparr>)) (\<lambda>m.
     rbind (ramfs_init (kmem m) (kmod_start m) (kfs m)) (\<lambda>fs.
     rbind (announce [S ''VMM ok\<newline>''] (m\<lparr>kfs := fs\<rparr>)) (\<lambda>m.
     rbind (syscall_init im m) (announce [S ''Syscall ok\<newline>''])))))))))))))"

definition boot_devices :: "u64 option \<Rightarrow> machine \<Rightarrow> machine res" where
  "boot_devices bar m =
     rbind (do_xhci (\<lambda>s. Inr (ioapic_redirect (ioapic_base m) 1 0x21 0 s)) m) (\<lambda>m.
     rbind (announce [S ''keyboard: init ok\<newline>''] (m\<lparr>keyboard_on := True\<rparr>)) (\<lambda>m.
     case bar of
       Some b \<Rightarrow> rbind (announce [S ''xhci bar: '', H b, S ''\<newline>''] m) (do_xhci (xhci_init b))
     | None \<Rightarrow> announce [S ''xhci not found\<newline>''] m))"

definition boot_process :: "u64 \<Rightarrow> u64 \<Rightarrow> machine \<Rightarrow> (process \<times> machine) res" where
  "boot_process p entry m =
     rbind (process_new (kpml4 m) (kcr3 m) p SYSCALL_MASK 0 entry [] (kmem m, kbitmap m)) (\<lambda>(proc, mem, bm).
     Inr (proc, m\<lparr>kmem := mem, kbitmap := bm\<rparr>))"

definition boot_scheduler :: "image \<Rightarrow> machine \<Rightarrow> (iret_frame \<times> machine) res" where
  "boot_scheduler im m =
     rbind (boot_process 1 (process_a im) m) (\<lambda>(proc_a, m).
     rbind (boot_process 2 (process_b im) m) (\<lambda>(proc_b, m).
     rbind (add_process proc_a (sched (kst m))) (\<lambda>sc.
     rbind (add_process proc_b sc) (\<lambda>sc.
     rbind (announce [S ''Scheduler ok\<newline>''] (m\<lparr>kst := (kst m)\<lparr>sched := sc\<rparr>\<rparr>)) (\<lambda>m.
     rbind (do_kernel shell_init (m\<lparr>kif := False, scheduler_ready := True\<rparr>)) (\<lambda>m.
     rbind (start_first_process_ring3 (kst m)) (\<lambda>(fr, st). Inr (fr, m\<lparr>kst := st\<rparr>))))))))"

definition kernel_main :: "image \<Rightarrow> u64 \<Rightarrow> machine \<Rightarrow> (iret_frame \<times> machine) res option" where
  "kernel_main im boot_info m =
     obind (mb_loop im (boot_info + 8) (MB_NONE, m)) (\<lambda>(i, m).
     obind (boot_pmm i m) (\<lambda>m.
     obind (Some (boot_memory im i m)) (\<lambda>m.
     obind (acpi (xsdt_addr i) m) (\<lambda>(bar, m).
     Some (rbind (boot_devices bar m) (boot_scheduler im))))))"

end
