(* ===== verification/Xhci_Hid.thy ===== *)
theory Xhci_Hid
  imports Xhci_Rings
begin

text \<open>
  The keyboard side of the xHCI driver: what \<^verbatim>\<open>get_config_descriptor\<close> finds in the descriptors of a device, and
  which characters the shell receives from a report.
\<close>

section \<open>Configuration descriptors\<close>

text \<open>The reference works on the list of descriptors, each a list of bytes.\<close>

definition desc_kind :: "u8 list \<Rightarrow> u8" where
  "desc_kind d = d ! 1"

definition is_interrupt_in :: "u8 list \<Rightarrow> bool" where
  "is_interrupt_in d \<longleftrightarrow> desc_kind d = 5 \<and> d ! 3 AND 3 = 3 \<and> d ! 2 AND 0x80 \<noteq> 0"

definition le16 :: "u8 \<Rightarrow> u8 \<Rightarrow> u16" where
  "le16 lo hi = ucast lo OR push_bit 8 (ucast hi)"

text \<open>
  The first interrupt IN endpoint, and the class of the last interface before it (of the last interface when there
  is no such endpoint).
\<close>

definition iface_before :: "u8 list list \<Rightarrow> u8 \<Rightarrow> u8" where
  "iface_before ds c =
     (let ifs = filter (\<lambda>d. desc_kind d = 4) (takeWhile (\<lambda>d. \<not> is_interrupt_in d) ds) in
      if ifs = [] then c else last ifs ! 5)"

definition set_endpoint :: "u8 list list \<Rightarrow> found \<Rightarrow> found" where
  "set_endpoint ds f = (case find is_interrupt_in ds of
     None \<Rightarrow> f
   | Some d \<Rightarrow> f\<lparr>ep_addr := d ! 2, max_packet := le16 (d ! 4) (d ! 5), ep_interval := d ! 6\<rparr>)"

definition config_spec :: "u8 list list \<Rightarrow> found" where
  "config_spec ds = set_endpoint ds (NOT_FOUND\<lparr>iface_class := iface_before ds 0\<rparr>)"

text \<open>A descriptor starts with its length and kind, and interfaces and endpoints are complete.\<close>

definition desc_ok :: "u8 list \<Rightarrow> bool" where
  "desc_ok d \<longleftrightarrow> 2 \<le> length d \<and> length d < 256 \<and> d ! 0 = of_nat (length d) \<and>
     (desc_kind d = 4 \<longrightarrow> 6 \<le> length d) \<and> (desc_kind d = 5 \<longrightarrow> 7 \<le> length d)"

definition bytes_at :: "mem \<Rightarrow> u64 \<Rightarrow> u8 list \<Rightarrow> bool" where
  "bytes_at m a bs \<longleftrightarrow> read_slice m a (length bs) = bs"

text \<open>The walk of the driver, on the list.\<close>

fun walk :: "u8 list list \<Rightarrow> found \<Rightarrow> found" where
  "walk [] f = f"
| "walk (d # ds) f =
     (if is_interrupt_in d then f\<lparr>ep_addr := d ! 2, max_packet := le16 (d ! 4) (d ! 5), ep_interval := d ! 6\<rparr>
      else walk ds (if desc_kind d = 4 then f\<lparr>iface_class := d ! 5\<rparr> else f))"

lemma bytes_atD: "bytes_at m a bs \<Longrightarrow> i < length bs \<Longrightarrow> m (a + of_nat i) = bs ! i"
  by (metis bytes_at_def nth_read_slice)

lemma config_loop_walk:
  assumes "bytes_at m buf (pre @ concat ds)" "\<forall>d \<in> set ds. desc_ok d"
  shows "config_loop m buf (length (pre @ concat ds)) (length pre) f = walk ds f"
  using assms
proof (induction ds arbitrary: pre f)
  case Nil
  then show ?case by (subst config_loop.simps) simp
next
  case (Cons d ds)
  let ?a = "buf + of_nat (length pre)"
  have ok: "desc_ok d" using Cons.prems(2) by simp
  have byte: "m (?a + of_nat i) = d ! i" if "i < length d" for i
    using bytes_atD [OF Cons.prems(1), of "length pre + i"] that by (simp add: nth_append add.assoc)
  have len: "m ?a = of_nat (length d)" and kind: "m (?a + 1) = desc_kind d"
  proof -
    have "0 < length d" "1 < length d" "d ! 0 = of_nat (length d)" using ok by (auto simp: desc_ok_def)
    then show "m ?a = of_nat (length d)" "m (?a + 1) = desc_kind d"
      using byte [of 0] byte [of 1] by (simp_all add: desc_kind_def)
  qed
  have pos: "0 < length d" and len_nat: "unat (of_nat (length d) :: u8) = length d"
    using ok by (auto simp: desc_ok_def intro!: unat_of_nat_small)
  then have len_pos: "(of_nat (length d) :: u8) \<noteq> 0" by (metis less_irrefl unsigned_0)
  have iface: "desc_kind d = 4 \<Longrightarrow> m (?a + 5) = d ! 5" using byte [of 5] ok by (simp add: desc_ok_def)
  have ep: "m (?a + 2) = d ! 2" "m (?a + 3) = d ! 3" "m (?a + 6) = d ! 6" "read16 m (?a + 4) = le16 (d ! 4) (d ! 5)"
    if "desc_kind d = 5"
    using that byte [of 2] byte [of 3] byte [of 6] byte [of 4] byte [of 5] ok
    by (simp_all add: desc_ok_def read16_def le16_def add.assoc)
  have step: "config_loop m buf (length ((pre @ d) @ concat ds)) (length (pre @ d)) f' = walk ds f'" for f'
    using Cons.prems by (intro Cons.IH) simp_all
  show ?case using pos step iface ep
    by (subst config_loop.simps) (cases "desc_kind d = 5"; simp add: Let_def len kind len_nat len_pos is_interrupt_in_def)
qed

lemma iface_before_Cons:
  "iface_before (d # ds) c = (if is_interrupt_in d then c else iface_before ds (if desc_kind d = 4 then d ! 5 else c))"
  by (simp add: iface_before_def)

lemma walk_spec: "walk ds f = set_endpoint ds (f\<lparr>iface_class := iface_before ds (iface_class f)\<rparr>)"
proof (induction ds arbitrary: f)
  case Nil
  then show ?case by (simp add: set_endpoint_def iface_before_def)
next
  case (Cons d ds)
  have "set_endpoint (d # ds) f = (if is_interrupt_in d
      then f\<lparr>ep_addr := d ! 2, max_packet := le16 (d ! 4) (d ! 5), ep_interval := d ! 6\<rparr> else set_endpoint ds f)" for f
    by (simp add: set_endpoint_def)
  then show ?case by (simp add: Cons.IH iface_before_Cons)
qed

lemma parse_config_spec:
  assumes "bytes_at m buf (concat ds)" "\<forall>d \<in> set ds. desc_ok d" "length (concat ds) \<le> 512"
    "read16 m (buf + 2) = of_nat (length (concat ds))"
  shows "parse_config m buf = (m (buf + 5), config_spec ds)"
proof -
  let ?n = "length (concat ds)"
  have n: "unat (of_nat ?n :: u16) = ?n" using assms(3) by (intro unat_of_nat_small) simp
  then have "\<not> (of_nat ?n :: u16) > 512" using assms(3) by (simp add: word_less_nat_alt)
  then have "parse_config m buf = (m (buf + 5), config_loop m buf ?n 0 NOT_FOUND)"
    unfolding parse_config_def assms(4) by (simp only: Let_def n if_False)
  moreover have "config_loop m buf ?n 0 NOT_FOUND = walk ds NOT_FOUND"
    using config_loop_walk [of m buf "[]" ds] assms(1,2) by simp
  moreover have "walk ds NOT_FOUND = config_spec ds"
    by (simp add: walk_spec config_spec_def) (simp add: NOT_FOUND_def)
  ultimately show ?thesis by simp
qed

section \<open>Reports\<close>

text \<open>The characters of a report: keys that are pressed now and were not in the report before.\<close>

definition new_chars :: "u8 list \<Rightarrow> bool \<Rightarrow> u8 list \<Rightarrow> u8 list" where
  "new_chars prev shift cur = List.map_filter (\<lambda>k. if k = 0 then None else hid_keycode_to_char k shift)
     (filter (\<lambda>k. k \<notin> set prev) cur)"

text \<open>Characters typed at the shell one after the other.\<close>

fun type_chars :: "(string \<Rightarrow> u64) \<Rightarrow> u8 list \<Rightarrow> kernel \<Rightarrow> outcome res" where
  "type_chars prog [] k = Inr (Done k)"
| "type_chars prog (ch # chs) k = rbind (on_char prog ch k) (\<lambda>r. case r of
     Done k \<Rightarrow> type_chars prog chs k | Stopped k \<Rightarrow> Inr (Stopped k))"

definition with_driver :: "xhci \<Rightarrow> outcome \<Rightarrow> polled" where
  "with_driver s r = (case r of
     Done k \<Rightarrow> Polled (kernel.extend k (kernel.more s)) | Stopped k \<Rightarrow> PollStopped (kernel.extend k (kernel.more s)))"

lemma truncate_extend [simp]:
  "kernel.truncate (kernel.extend k e) = kernel.truncate k" "kernel.more (kernel.extend k e) = e"
  "kernel.extend (kernel.truncate k) e = kernel.extend k e"
  by (simp_all add: kernel.defs)

lemma truncate_kernel [simp]: "kernel.truncate k = k" for k :: kernel
  by (cases k) (simp add: kernel.defs)

lemma extend_self: "kernel.extend (kernel.truncate s) (kernel.more s) = (s :: xhci)"
  by (cases s) (simp add: kernel.defs)

lemma report_keys_types:
  "report_keys prog shift cur s =
    rbind (type_chars prog (new_chars (hid_prev s) shift cur) (kernel.truncate s)) (\<lambda>r. Inr (with_driver s r))"
proof (induction cur arbitrary: s)
  case Nil
  then show ?case by (simp add: new_chars_def with_driver_def extend_self List.map_filter_def)
next
  case (Cons key cur)
  show ?case
  proof (cases "key = 0 \<or> key \<in> set (hid_prev s) \<or> hid_keycode_to_char key shift = None")
    case True
    then have "new_chars (hid_prev s) shift (key # cur) = new_chars (hid_prev s) shift cur"
      by (auto simp: new_chars_def List.map_filter_def)
    then show ?thesis using True Cons.IH by auto
  next
    case False
    then obtain ch where ch: "hid_keycode_to_char key shift = Some ch" by auto
    then have chars: "new_chars (hid_prev s) shift (key # cur) = ch # new_chars (hid_prev s) shift cur"
      using False by (simp add: new_chars_def List.map_filter_def)
    have prev: "hid_prev (kernel.extend k (kernel.more s)) = hid_prev s" for k :: kernel
      by (cases s) (simp add: kernel.defs)
    show ?thesis using False ch Cons.IH
      by (auto simp: chars shell_char_def with_driver_def prev rbind_assoc split: outcome.splits intro!: rbind_cong)
  qed
qed

section \<open>Properties\<close>

text \<open>C30. The driver finds the right endpoint: from a well-formed configuration of at most 512 bytes it takes
  the first interrupt IN endpoint (address, packet size, interval), the class of the interface the endpoint
  belongs to, and the configuration value; without such an endpoint it reports none.\<close>

theorem config_descriptor_parsed:
  assumes "bytes_at m buf (concat ds)" "\<forall>d \<in> set ds. desc_ok d" "length (concat ds) \<le> 512"
    "read16 m (buf + 2) = of_nat (length (concat ds))"
  shows "parse_config m buf = (m (buf + 5), config_spec ds)"
  using assms by (rule parse_config_spec)

text \<open>The descriptors of a boot keyboard: configuration, interface, HID and endpoint.\<close>

definition sample_config :: "u8 list list" where
  "sample_config = [[9, 2, 34, 0, 1, 1, 0, 0xA0, 50], [9, 4, 0, 0, 1, 3, 1, 1, 0],
     [9, 0x21, 0x11, 1, 0, 1, 0x22, 63, 0], [7, 5, 0x81, 3, 8, 0, 10]]"

definition sample_config_mem :: mem where
  "sample_config_mem a = (if unat a < 34 then concat sample_config ! unat a else 0)"

theorem config_descriptor_parsed_witness:
  "parse_config sample_config_mem 0 =
    (1, \<lparr>iface_class = 3, ep_addr = 0x81, ep_interval = 10, max_packet = 8\<rparr>)"
proof -
  have "bytes_at sample_config_mem 0 (concat sample_config)"
    by (simp add: bytes_at_def sample_config_def read_slice_eval(1) read_slice_Suc sample_config_mem_def)
  moreover have "\<forall>d \<in> set sample_config. desc_ok d"
    by (simp add: sample_config_def desc_ok_def desc_kind_def)
  moreover have "length (concat sample_config) \<le> 512" "read16 sample_config_mem (0 + 2) = of_nat (length (concat sample_config))"
    by (simp_all add: sample_config_def sample_config_mem_def read16_def)
  ultimately have "parse_config sample_config_mem 0 = (sample_config_mem (0 + 5), config_spec sample_config)"
    by (rule config_descriptor_parsed)
  then show ?thesis
    by (simp add: sample_config_mem_def config_spec_def set_endpoint_def iface_before_def sample_config_def is_interrupt_in_def
        desc_kind_def le16_def NOT_FOUND_def)
qed


text \<open>A keyboard whose report says: Shift, with \<^verbatim>\<open>a\<close> held since the last report and \<^verbatim>\<open>b\<close> new.\<close>

definition report_at :: "u64 \<Rightarrow> u8 list \<Rightarrow> mem \<Rightarrow> mem" where
  "report_at a bs m x = (if unat (x - a) < length bs then bs ! unat (x - a) else m x)"


end
