(* ===== verification/Handlers.thy ===== *)
theory Handlers
  imports Boot Xhci_Hid Shell_Safety
begin

text \<open>
  The two interrupt handlers: the PS/2 keyboard (\<^verbatim>\<open>keyboard.rs\<close>) and the whole of the timer handler
  (\<^verbatim>\<open>main::timer_do_switch\<close>), which polls the USB keyboard and watches a segment descriptor before it switches.

  The scancode decoder of the crate \<^verbatim>\<open>pc_keyboard\<close> and the ports of the keyboard controller are parameters. A command
  typed at the shell may stop the machine; then nothing that follows runs.
\<close>

section \<open>PS/2 keyboard\<close>

datatype decoded_key = Unicode nat | RawKey

text \<open>\<^verbatim>\<open>add_byte\<close> yields an event or none (\<^verbatim>\<open>Ok(None)\<close> and \<^verbatim>\<open>Err\<close> alike), \<^verbatim>\<open>process_keyevent\<close> a key or none.\<close>

record ('kb, 'ev) decoder =
  add_byte :: "u8 \<Rightarrow> 'kb \<Rightarrow> 'ev option \<times> 'kb"
  process_keyevent :: "'ev \<Rightarrow> 'kb \<Rightarrow> decoded_key option \<times> 'kb"

text \<open>The port space: reading a port may change the device.\<close>

type_synonym 'p ports = "u16 \<Rightarrow> 'p \<Rightarrow> u8 \<times> 'p"

definition key_char :: "decoded_key option \<Rightarrow> u8 option" where
  "key_char key = (case key of
     Some (Unicode c) \<Rightarrow> if c < 128 then Some (of_nat c) else None
   | _ \<Rightarrow> None)"

definition decode :: "('kb, 'ev) decoder \<Rightarrow> u8 \<Rightarrow> 'kb \<Rightarrow> u8 option \<times> 'kb" where
  "decode d b kb = (case add_byte d b kb of
     (None, kb) \<Rightarrow> (None, kb)
   | (Some ev, kb) \<Rightarrow> (case process_keyevent d ev kb of (key, kb) \<Rightarrow> (key_char key, kb)))"

text \<open>The inner loop empties the buffer whatever it holds.\<close>

partial_function (option) port_drain :: "'p ports \<Rightarrow> 'p \<Rightarrow> 'p option" where
  "port_drain io p = (case io 0x64 p of (v, p) \<Rightarrow>
     if v AND 1 \<noteq> 0 then (case io 0x60 p of (_, p) \<Rightarrow> port_drain io p) else Some p)"

text \<open>
  The outer loop, with \<open>n\<close> rounds left before the guard strikes. \<open>kb\<close> is \<open>None\<close> until \<^verbatim>\<open>keyboard::init\<close> has run.
\<close>

fun kbd_loop :: "('kb, 'ev) decoder \<Rightarrow> 'p ports \<Rightarrow> (string \<Rightarrow> u64) \<Rightarrow> nat \<Rightarrow> 'kb option \<times> 'p \<times> kernel
    \<Rightarrow> ('kb option \<times> 'p \<times> outcome) res option" where
  "kbd_loop d io prog n (kb, p, k) = (case io 0x64 p of (v, p) \<Rightarrow>
     if v AND 1 = 0 then Some (Inr (kb, p, Done k))
     else case n of
       0 \<Rightarrow> map_option (\<lambda>p. Inr (kb, p, Done k)) (port_drain io p)
     | Suc n \<Rightarrow> (case io 0x60 p of (scancode, p) \<Rightarrow>
         (case kb of
            None \<Rightarrow> kbd_loop d io prog n (None, p, k)
          | Some st \<Rightarrow> (case decode d scancode st of (ch, st) \<Rightarrow>
              (case ch of
                 None \<Rightarrow> kbd_loop d io prog n (Some st, p, k)
               | Some c \<Rightarrow> (case on_char prog c k of
                     Inl e \<Rightarrow> Some (Inl e)
                   | Inr (Stopped k) \<Rightarrow> Some (Inr (Some st, p, Stopped k))
                   | Inr (Done k) \<Rightarrow> kbd_loop d io prog n (Some st, p, k)))))))"

definition keyboard_irq_handler :: "('kb, 'ev) decoder \<Rightarrow> 'p ports \<Rightarrow> (string \<Rightarrow> u64) \<Rightarrow> 'kb option \<times> 'p \<times> machine
    \<Rightarrow> ('kb option \<times> 'p \<times> (bool \<times> machine)) res option" where
  "keyboard_irq_handler d io prog = (\<lambda>(kb, p, m).
     map_option (\<lambda>r. rbind r (\<lambda>(kb, p, out). case out of
         Done k \<Rightarrow> (let m = xhci.extend (kernel.extend k (kernel.more (xhci.truncate m))) (xhci.more m) in
           rbind (do_xhci (\<lambda>s. Inr (lapic_eoi (lapic_base m) s)) m) (\<lambda>m. Inr (kb, p, True, m)))
       | Stopped k \<Rightarrow> Inr (kb, p, False, xhci.extend (kernel.extend k (kernel.more (xhci.truncate m))) (xhci.more m))))
       (kbd_loop d io prog 256 (kb, p, kernel.truncate (xhci.truncate m))))"

section \<open>Timer\<close>

text \<open>The watch on the descriptor of user data: a change is printed.\<close>

definition watch_gdt :: "machine \<Rightarrow> machine res" where
  "watch_gdt m =
     (let g3 = gdt_user_data (gdt m) in
      if g3 \<noteq> gdt3_last m
      then announce [S ''GDT3='', H g3, S '' t='', H (kticks m), S ''\<newline>''] (m\<lparr>gdt3_last := g3\<rparr>) else Inr m)"

text \<open>The result: the slot whose context is loaded, if any; \<open>None\<close> when a command has stopped the machine.\<close>

definition timer_do_switch :: "(string \<Rightarrow> u64) \<Rightarrow> saved_regs \<Rightarrow> iret_frame \<Rightarrow> machine \<Rightarrow> (nat option option \<times> machine) res" where
  "timer_do_switch prog regs fr m =
     rbind (padd (kticks m) 1) (\<lambda>t.
     rbind (do_xhci (\<lambda>s. Inr (lapic_eoi (lapic_base m) s)) (m\<lparr>kticks := t\<rparr>)) (\<lambda>m.
     rbind (poll_hid prog (xhci.truncate m)) (\<lambda>r. case r of
       PollStopped s \<Rightarrow> Inr (None, xhci.extend s (xhci.more m))
     | Polled s \<Rightarrow>
         rbind (watch_gdt (xhci.extend s (xhci.more m))) (\<lambda>m.
         rbind (timer_switch (scheduler_ready m) (kticks m) regs fr (kst m)) (\<lambda>(idx, st).
         Inr (Some idx, m\<lparr>kst := st\<rparr>))))))"

section \<open>The keyboard controller\<close>

text \<open>A controller with a buffer of bytes: port 0x64 says whether one is there, port 0x60 takes it.\<close>

definition fifo_ports :: "u8 list ports" where
  "fifo_ports port q = (if port = 0x64 then (if q = [] then 0 else 1, q)
     else if port = 0x60 then (case q of [] \<Rightarrow> (0, []) | b # q \<Rightarrow> (b, q)) else (0, q))"

text \<open>The characters in a run of scancodes.\<close>

fun decode_all :: "('kb, 'ev) decoder \<Rightarrow> u8 list \<Rightarrow> 'kb \<Rightarrow> u8 list \<times> 'kb" where
  "decode_all d [] kb = ([], kb)"
| "decode_all d (b # bs) kb = (case decode d b kb of (ch, kb) \<Rightarrow>
     (case decode_all d bs kb of (chs, kb) \<Rightarrow> ((case ch of None \<Rightarrow> chs | Some c \<Rightarrow> c # chs), kb)))"

lemma fifo_simps [simp]:
  "fifo_ports 0x64 [] = (0, [])" "fifo_ports 0x64 (b # q) = (1, b # q)" "fifo_ports 0x60 (b # q) = (b, q)"
  by (simp_all add: fifo_ports_def)

lemma port_drain_fifo: "port_drain fifo_ports q = Some []"
proof (induction q)
  case Nil
  then show ?case by (subst port_drain.simps) simp
next
  case (Cons b q)
  then show ?case by (subst port_drain.simps) simp
qed

lemma kbd_loop_types:
  "type_chars prog (fst (decode_all d (take n q) kb)) k = Inr (Done k') \<Longrightarrow>
    kbd_loop d fifo_ports prog n (Some kb, q, k) = Some (Inr (Some (snd (decode_all d (take n q) kb)), [], Done k'))"
proof (induction n arbitrary: q kb k)
  case 0
  then show ?case by (cases q) (simp_all add: port_drain_fifo)
next
  case (Suc n)
  show ?case
  proof (cases q)
    case Nil
    then show ?thesis using Suc.prems by simp
  next
    case (Cons b rest)
    obtain ch kb1 where d: "decode d b kb = (ch, kb1)" by fastforce
    obtain chs kb2 where da: "decode_all d (take n rest) kb1 = (chs, kb2)" by fastforce
    show ?thesis
    proof (cases ch)
      case None
      then show ?thesis using Suc.IH [of rest kb1 k] Suc.prems Cons d da by simp
    next
      case (Some c)
      then have "rbind (on_char prog c k) (\<lambda>r. case r of Done k \<Rightarrow> type_chars prog chs k | Stopped k \<Rightarrow> Inr (Stopped k)) = Inr (Done k')"
        using Suc.prems Cons d da by simp
      then obtain k1 where k1: "on_char prog c k = Inr (Done k1)" "type_chars prog chs k1 = Inr (Done k')"
        by (auto simp: rbind_def split: sum.split_asm outcome.split_asm)
      then show ?thesis using Suc.IH [of rest kb1 k1] Some Cons d da by simp
    qed
  qed
qed

lemma key_char_ascii: "key_char key = Some c \<Longrightarrow> c < 128"
  by (auto simp: key_char_def word_less_nat_alt unat_of_nat_small split: option.splits decoded_key.splits if_splits)

section \<open>Properties\<close>


text \<open>A machine around the sample kernel, and a decoder that takes every byte for a character.\<close>

definition sample_machine :: machine where
  "sample_machine = xhci.extend sample_xhci (machine.fields IDT_NEW (0, 0) build_gdt (0, 0) 0 104 0xFEE00000 0xFEC00000 2 True 0 0
     (LOCKED_HEAP_NEW True) 0 [] True)"

definition sample_decoder :: "(unit, u8) decoder" where
  "sample_decoder = \<lparr>add_byte = (\<lambda>b _. (Some b, ())), process_keyevent = (\<lambda>e _. (Some (Unicode (unat e)), ()))\<rparr>"


end
