(* ===== verification/System.thy ===== *)
theory System
  imports Ownership Handlers
begin

text \<open>
  The kernel as a whole: system calls, keys and timer ticks in any order. Handlers run with interrupts off, so a run is a
  sequence of complete events; this is the part of each event that touches the state of the kernel.
\<close>

section \<open>Events\<close>

datatype event = Syscall u64 u64 u64 u64 | Key u8 | Tick saved_regs iret_frame

definition handle :: "(string \<Rightarrow> u64) \<Rightarrow> event \<Rightarrow> kernel \<Rightarrow> outcome res" where
  "handle prog ev k = (case ev of
     Syscall nr a b c \<Rightarrow> rbind (syscall_handler nr a b c k) (\<lambda>(_, k). Inr (Done k))
   | Key ch \<Rightarrow> on_char prog ch k
   | Tick regs fr \<Rightarrow> rbind (timer_tick True regs fr (kticks k, kst k)) (\<lambda>(_, t, st). Inr (Done (k\<lparr>kticks := t, kst := st\<rparr>))))"

text \<open>Enter on a \<^verbatim>\<open>spawn\<close> command without room for a process, and the tick that overflows the counter.\<close>

definition exhausts :: "event \<Rightarrow> kernel \<Rightarrow> bool" where
  "exhausts ev k = (case ev of
     Key ch \<Rightarrow> ch = 10 \<and> command_word k = str ''spawn'' \<and> \<not> spawnable k
   | Tick _ _ \<Rightarrow> kticks k = 0xFFFFFFFFFFFFFFFF
   | Syscall _ _ _ _ \<Rightarrow> False)"

inductive reachable :: "(string \<Rightarrow> u64) \<Rightarrow> kernel \<Rightarrow> kernel \<Rightarrow> bool" for prog k0 where
  start: "reachable prog k0 k0"
| step: "reachable prog k0 k \<Longrightarrow> \<not> exhausts ev k \<Longrightarrow> handle prog ev k = Inr (Done k') \<Longrightarrow> reachable prog k0 k'"

section \<open>Each event keeps the invariant\<close>

text \<open>System calls are steady: they change no page table and no owner of a page.\<close>

lemma steady_refl [simp]: "steady k k"
  by (simp add: steady_def)

lemma set_cur_image [simp]:
  "kimg (set_cur q k) = kimg k" "knext_pid (set_cur q k) = knext_pid k"
  by (simp_all add: set_cur_def set_slot_def)

lemma steady_set_cur:
  assumes "kernel_inv k" "cur_proc k = Some p" "ident q = ident p" "kst k1 = kst k" "steady k k1"
  shows "steady k (set_cur q k1)"
proof -
  let ?ps = "processes (sched (kst k))" and ?c = "current (sched (kst k))"
  have c: "?c < length ?ps" using cur_proc_in(2) [OF _ assms(2)] assms(1) by (simp add: kernel_inv_def)
  then have "map (map_option ident) ?ps ! ?c = Some (ident q)" using assms(2,3) by (simp add: cur_proc_def)
  then have "map (map_option ident) (?ps[?c := Some q]) = map (map_option ident) ?ps"
    unfolding map_update using c by (simp add: list_update_same_conv)
  then show ?thesis using assms(4,5) by (simp add: steady_def)
qed

lemma program_output_steady: "kernel_inv k \<Longrightarrow> program_output src k = Inr k' \<Longrightarrow> steady k k'"
  using program_output_spec [of k src] steady_console by (auto simp: kernel_inv_def kernel_ok_def)

lemma ident_fds [simp]: "ident (p\<lparr>fds := x\<rparr>) = ident p" "ident (p\<lparr>state := y\<rparr>) = ident p" "ident (p\<lparr>ctx := c\<rparr>) = ident p"
  by (simp_all add: ident_def)

lemma steady_fields [simp]: "steady k (k1\<lparr>kfs := fs\<rparr>) = steady k k1" "steady k (k1\<lparr>kif := b\<rparr>) = steady k k1"
  by (simp_all add: steady_def)

lemma sys_read_steady:
  assumes inv: "kernel_inv k" and r: "sys_read fd buf len k = Inr (r, k')"
  shows "steady k k'"
  using sys_read_result [OF r]
proof (elim disjE conjE exE)
  fix p f m n
  assume p: "cur_proc k = Some p" "user_range_ok p buf len" and n: "n = min (unat len) (length (inodes (kfs k) ! of_inode f) - of_offset f)"
    and w: "uwrite (kpml4 k) buf (take n (drop (of_offset f) (inodes (kfs k) ! of_inode f))) (kmem k) = Inr m"
    and k': "k' = set_cur (p\<lparr>fds := (fds p)[unat fd := Some (f\<lparr>of_offset := of_offset f + n\<rparr>)]\<rparr>) (k\<lparr>kmem := m\<rparr>)"
  have us: "user_space_ok (kmem k) (kpml4 k) p" by (rule users_ok_cur [OF inv p(1)])
  then obtain fr where fr: "\<And>i. i < unat len \<Longrightarrow> translate (kmem k) (kpml4 k) (buf + of_nat i) = Some (fr i)
      \<and> page_no (fr i) \<notin> table_pages (kmem k) (kpml4 k)" using user_frames [OF us p(2)] by blast
  let ?bs = "take n (drop (of_offset f) (inodes (kfs k) ! of_inode f))"
  have l: "length ?bs \<le> unat len" by (simp add: n)
  have "paged (kpml4 k)" using us by (simp add: user_space_ok_def)
  moreover have "translate (kmem k) (kpml4 k) (buf + of_nat i) = Some (fr i) \<and> page_no (fr i) \<notin> table_pages (kmem k) (kpml4 k)"
    if "i < length ?bs" for i using fr l that by (meson less_le_trans)
  ultimately have m: "\<forall>x. (\<forall>i<length ?bs. x \<noteq> fr i) \<longrightarrow> m x = kmem k x"
    using uwrite_spec [of "kpml4 k" ?bs "kmem k" buf fr] unfolding w by blast
  have "m x = kmem k x" if "page_no x \<in> table_pages (kmem k) (kpml4 k)" for x
  proof -
    have "x \<noteq> fr i" if "i < length ?bs" for i using fr [of i] that l \<open>page_no x \<in> _\<close> by auto
    then show ?thesis using m by blast
  qed
  then have "steady k (k\<lparr>kmem := m\<rparr>)" by (simp add: steady_def)
  then show ?thesis unfolding k' by (intro steady_set_cur [OF inv p(1)]) simp_all
qed simp

lemma syscalls_steady:
  assumes inv: "kernel_inv k"
  shows "sys_write fd buf len k = Inr (r, k') \<Longrightarrow> steady k k'" "sys_open fd buf len k = Inr (r, k') \<Longrightarrow> steady k k'"
    "sys_close fd k = Inr (r, k') \<Longrightarrow> steady k k'" "steady k (sys_exit fd k)" "sys_yield k = Inr (r', k') \<Longrightarrow> steady k k'"
proof -
  note set = steady_set_cur [OF inv]
  show "steady k k'" if "sys_write fd buf len k = Inr (r, k')"
    using sys_write_result [OF that] program_output_steady [OF inv] by (auto intro!: set)
  show "steady k k'" if "sys_open fd buf len k = Inr (r, k')"
    using sys_open_result [OF that] by (auto simp: install_fd_def Let_def split: option.splits if_splits intro!: set)
  show "steady k k'" if "sys_close fd k = Inr (r, k')"
    using that by (auto simp: sys_close_def Let_def split: option.splits if_splits intro!: set)
  show "steady k (sys_exit fd k)" by (auto simp: sys_exit_def split: option.split intro!: set)
  show "steady k k'" if "sys_yield k = Inr (r', k')"
    using that by (auto simp: sys_yield_def yield_now_def steady_def res_simps Let_def split: option.splits)
qed

lemma syscall_steady:
  assumes "kernel_inv k" "syscall_handler nr a b c k = Inr (r, k')"
  shows "steady k k'"
  using assms(2) syscalls_steady [OF assms(1)] sys_read_steady [OF assms(1)] unfolding syscall_handler_def ret_def
  by (auto simp: res_simps split: if_splits)

text \<open>A switch changes saved registers only.\<close>

lemma save_current_in:
  assumes "sched_ok s" "Some p \<in> set (processes (save_current regs fr s))"
  shows "\<exists>q c. Some q \<in> set (processes s) \<and> p = q\<lparr>ctx := c\<rparr>"
proof -
  have len: "length (processes s) = 64" using assms(1) by (simp add: sched_ok_def)
  obtain j where j: "j < 64" "processes (save_current regs fr s) ! j = Some p"
    using assms(2) len by (auto simp: in_set_conv_nth)
  then obtain q where q: "processes s ! j = Some q" "p = q \<or> p = q\<lparr>ctx := save_context regs fr (ctx q)\<rparr>"
    using save_current_nth [OF assms(1) j(1), of regs fr] by (auto split: if_splits)
  then have "Some q \<in> set (processes s)" using j(1) len by (metis nth_mem)
  moreover have "q = q\<lparr>ctx := ctx q\<rparr>" by simp
  ultimately show ?thesis using q(2) by metis
qed

lemma shell_inv_ctx:
  assumes inv: "shell_inv k" and s: "sched_ok (sched st)"
    and ps: "\<forall>p. Some p \<in> set (processes (sched st)) \<longrightarrow> (\<exists>q c. Some q \<in> set (processes (sched (kst k))) \<and> p = q\<lparr>ctx := c\<rparr>)"
  shows "shell_inv (k\<lparr>kticks := t, kst := st\<rparr>)"
proof -
  note d = shell_invD [OF inv]
  have proc: "proc_ok fs (q\<lparr>ctx := c\<rparr>) = proc_ok fs q" for fs q c by (simp add: proc_ok_def file_ok_def)
  have space: "user_space_ok m pml4 (q\<lparr>ctx := c\<rparr>) = user_space_ok m pml4 q" for m pml4 q c
    by (simp add: user_space_ok_def region_bytes_def)
  have "proc_ok (kfs k) p \<and> user_space_ok (kmem k) (kpml4 k) p" if p: "Some p \<in> set (processes (sched st))" for p
  proof -
    obtain q c where q: "Some q \<in> set (processes (sched (kst k)))" "p = q\<lparr>ctx := c\<rparr>" using ps p by blast
    then have "proc_ok (kfs k) q" "user_space_ok (kmem k) (kpml4 k) q" using d(1,2) by (auto simp: kernel_ok_def users_ok_def)
    then show ?thesis using q(2) proc space by simp
  qed
  then show ?thesis using d s
    by (simp add: shell_inv_def kernel_inv_def kernel_ok_def users_ok_def screen_ok_def)
qed

lemma save_current_steady:
  assumes "sched_ok (sched (kst k))" "processes (sched st) = processes (save_current regs fr (sched (kst k)))"
  shows "steady k (k\<lparr>kticks := t, kst := st\<rparr>)"
proof -
  let ?ps = "processes (sched (kst k))" and ?ps' = "processes (save_current regs fr (sched (kst k)))"
  have l: "length ?ps = 64" "length ?ps' = 64" using assms(1) save_current_ok [OF assms(1)] by (simp_all add: sched_ok_def)
  have "map (map_option ident) ?ps' = map (map_option ident) ?ps"
    by (rule nth_equalityI) (auto simp: l save_current_nth [OF assms(1)] option.map_comp comp_def)
  then show ?thesis using assms(2) by (simp add: steady_def)
qed

lemma tick_keeps:
  assumes inv: "sys_inv code prog k" and ticks: "kticks k \<noteq> 0xFFFFFFFFFFFFFFFF"
  shows "\<exists>k'. handle prog (Tick regs fr) k = Inr (Done k') \<and> sys_inv code prog k'"
proof -
  let ?t = "kticks k + 1"
  have assms: "shell_inv k" "kticks k \<noteq> 0xFFFFFFFFFFFFFFFF" using inv ticks by (simp_all add: sys_inv_def)
  have ok: "sched_ok (sched (kst k))" using shell_invD(6) [OF assms(1)] .
  have "unat (kticks k) \<noteq> unat (0xFFFFFFFFFFFFFFFF :: u64)" using assms(2) by (simp only: word_unat_eq_iff [symmetric] not_False_eq_True)
  then have "unat (kticks k) \<noteq> 18446744073709551615" by simp
  then have "unat (kticks k) < 18446744073709551615" using unat_lt_64 [of "kticks k"] by linarith
  then have t: "padd (kticks k) 1 = Inr ?t" by (simp add: padd_def)
  show ?thesis
  proof (cases "?t mod 5 = 0")
    case True
    obtain st' where st': "timer_switch True ?t regs fr (kst k) = Inr (next_running (sched (kst k)), st')"
      "sched_ok (sched st')" "processes (sched st') = processes (save_current regs fr (sched (kst k)))"
      using timer_switch_spec [OF ok TrueI True] by blast
    have "shell_inv (k\<lparr>kticks := ?t, kst := st'\<rparr>)"
      using save_current_in [OF ok] by (intro shell_inv_ctx [OF assms(1) st'(2)]) (simp add: st'(3))
    then have "sys_inv code prog (k\<lparr>kticks := ?t, kst := st'\<rparr>)"
      using save_current_steady [OF ok st'(3)] by (intro sys_inv_steady [OF inv])
    then show ?thesis using t st'(1) by (simp add: handle_def timer_tick_def)
  next
    case False
    have "\<exists>q c. Some q \<in> set (processes (sched (kst k))) \<and> p = q\<lparr>ctx := c\<rparr>" if "Some p \<in> set (processes (sched (kst k)))" for p
      using that by (intro exI [of _ p] exI [of _ "ctx p"]) simp
    then have "shell_inv (k\<lparr>kticks := ?t, kst := kst k\<rparr>)" using ok by (intro shell_inv_ctx [OF assms(1)]) auto
    then have "sys_inv code prog (k\<lparr>kticks := ?t, kst := kst k\<rparr>)" by (rule sys_inv_steady [OF inv]) (simp add: steady_def)
    then show ?thesis using t False by (simp add: handle_def timer_tick_def timer_switch_def)
  qed
qed

lemma key_keeps:
  assumes inv: "sys_inv code prog k" and ex: "\<not> exhausts (Key ch) k"
  shows "(\<exists>k'. on_char prog ch k = Inr (Done k') \<and> sys_inv code prog k') \<or> (\<exists>k'. on_char prog ch k = Inr (Stopped k'))"
proof (cases "kready k")
  case ready: True
  show ?thesis
  proof (cases "ch = 10")
    case True
    then show ?thesis using sys.on_char_enter [OF inv ready] ex by (auto simp: exhausts_def)
  next
    case False
    have "shell_inv k" using inv by (simp add: sys_inv_def)
    from on_char_edit [OF this ready False] obtain k' l n where "on_char prog ch k = Inr (Done k')" "shell_inv k'"
      "same_but_console (k\<lparr>kline := l, klen := n\<rparr>) k'" by blast
    moreover have "steady k k'" using calculation(3) by (auto simp: steady_def same_but_console_def)
    ultimately show ?thesis using sys_inv_steady [OF inv] by blast
  qed
qed (use inv in \<open>simp add: on_char_def\<close>)

lemma handle_keeps:
  assumes inv: "sys_inv code prog k" and ex: "\<not> exhausts ev k"
  shows "(\<exists>k'. handle prog ev k = Inr (Done k') \<and> sys_inv code prog k') \<or> (\<exists>k'. handle prog ev k = Inr (Stopped k'))"
proof (cases ev)
  case (Syscall nr a b c)
  have sh: "shell_inv k" "kernel_inv k" using inv by (simp_all add: sys_inv_def shell_inv_def)
  obtain r k' where r: "syscall_handler nr a b c k = Inr (r, k')" "kernel_inv k'"
    using syscall_handler_safe [OF sh(2), of nr a b c] by (auto simp: safe_def)
  note st = syscall_steady [OF sh(2) r(1)]
  have "shell_inv k'" using r(2) sh(1) st by (simp add: shell_inv_def steady_def)
  then show ?thesis using Syscall r(1) sys_inv_steady [OF inv _ st] by (simp add: handle_def)
next
  case (Key ch)
  then show ?thesis using key_keeps [OF inv] ex by (simp add: handle_def)
next
  case (Tick regs fr)
  then show ?thesis using tick_keeps [OF inv] ex by (auto simp: exhausts_def)
qed

section \<open>Properties\<close>


text \<open>A kernel without processes and with empty page tables, and programs at one entry point.\<close>

definition idle_kernel :: kernel where
  "idle_kernel = sample_kernel\<lparr>kmem := (\<lambda>_. 0), kbitmap := low_bitmap, kst := (kst sample_kernel)\<lparr>sched := SCHEDULER_NEW\<rparr>\<rparr>"

definition one_program :: "string \<Rightarrow> u64" where
  "one_program _ = 0xFFFF800000300000"

lemma one_program_choice: "spawn_choice one_program args = Some (entry, gs) \<Longrightarrow> entry = 0xFFFF800000300000"
  by (auto simp: spawn_choice_def one_program_def split: if_splits)

lemma idle_tables: "table_pages (\<lambda>_. 0) 0x1000 = {1}"
proof -
  have "table_at (\<lambda>_. 0) 0x1000 q = (if q = [] then Some 0x1000 else None)" for q
    by (cases q) (simp_all add: Let_def read64_def present_def)
  then show ?thesis by (auto simp: table_pages_def path_def page_no_def split: if_splits)
qed

lemma idle_owned:
  assumes "unat n \<le> 2 ^ 27"
  shows "owned {768, 769} (\<lambda>_. 0) low_bitmap 0x1000 n (processes SCHEDULER_NEW)"
proof -
  have "processes SCHEDULER_NEW ! i \<noteq> Some p" if "i < 64" for i p using that by (simp add: SCHEDULER_NEW_def)
  then show ?thesis using assms empty_tables_ok
    by (auto simp: owned_def idle_tables low_bitmap_free empty_not_huge SCHEDULER_NEW_def)
qed

lemma one_program_ok: "loadable {768, 769} 0xFFFF800000300000" "programs_ok {768, 769} one_program"
proof -
  show "loadable {768, 769} 0xFFFF800000300000" by (simp add: loadable_def code_frames_def KERNEL_VIRT_def page_no_def)
  then show "programs_ok {768, 769} one_program" using one_program_choice unfolding programs_ok_def by blast
qed

lemma idle_sys_inv: "sys_inv {768, 769} one_program idle_kernel"
proof -
  have none: "Some p \<notin> set (processes SCHEDULER_NEW)" for p by (simp add: SCHEDULER_NEW_def)
  have "kernel_ok sample_kernel" "kimage_ok (kimg sample_kernel)" using shell_invD(1,5) [OF sample_shell_inv] .
  then have "shell_inv idle_kernel"
    using none low_bitmap_free(1) sched_ok_new
    by (simp add: shell_inv_def kernel_inv_def kernel_ok_def users_ok_def screen_ok_def idle_kernel_def)
  then show ?thesis using one_program_ok(2) idle_owned [of 3] by (simp add: sys_inv_def idle_kernel_def sample_kernel_def)
qed


end
