(* ===== verification/Boot_Tables.thy ===== *)
theory Boot_Tables
  imports Handlers
begin

text \<open>
  What the boot sequence finds in the tables of the boot loader and the firmware: the multiboot2 tags, the MADT and the
  sleep package of the DSDT, each against a description of a well-formed table.
\<close>

section \<open>The sleep package\<close>

text \<open>The encoding of a small integer and of the package \<^verbatim>\<open>\_S5\<close> in AML.\<close>

definition aml_byte :: "u8 \<Rightarrow> u8 list" where
  "aml_byte v = (if v = 0 then [0] else if v = 1 then [1] else [0x0A, v])"

definition s5_package :: "u8 \<Rightarrow> u8 list \<Rightarrow> u8 \<Rightarrow> u8 \<Rightarrow> u8 \<Rightarrow> u8 list" where
  "s5_package lead more_len elements a b = str ''_S5_'' @ [0x12, lead] @ more_len @ [elements] @ aml_byte a @ aml_byte b"

definition s5_at :: "u8 list \<Rightarrow> nat \<Rightarrow> bool" where
  "s5_at bs i \<longleftrightarrow> take 5 (drop i bs) = str ''_S5_'' @ [0x12]"

lemma bytes_at_nth: "bytes_at m a bs \<Longrightarrow> i < length bs \<Longrightarrow> m (a + of_nat i) = bs ! i"
  by (rule bytes_atD)

lemma bytes_at_slice:
  assumes "bytes_at m a bs" "i + n \<le> length bs"
  shows "read_slice m (a + of_nat i) n = take n (drop i bs)"
proof (rule nth_equalityI)
  fix j assume "j < length (read_slice m (a + of_nat i) n)"
  then show "read_slice m (a + of_nat i) n ! j = take n (drop i bs) ! j"
    using assms bytes_at_nth [OF assms(1), of "i + j"] by (simp add: add.assoc)
qed (use assms in simp)

lemma s5_window:
  assumes "bytes_at m a bs" "i + 5 < length bs"
  shows "read_slice m (a + of_nat i) 4 = str ''_S5_'' \<and> m (a + of_nat (i + 4)) = 0x12 \<longleftrightarrow> s5_at bs i"
proof -
  have "take 5 (drop i bs) = take 4 (drop i bs) @ [bs ! (i + 4)]"
    using assms(2) take_Suc_conv_app_nth [of 4 "drop i bs"] by (simp add: numeral_eq_Suc)
  then show ?thesis using bytes_at_slice [OF assms(1), of i 4] bytes_at_nth [OF assms(1), of "i + 4"] assms(2)
    by (auto simp: s5_at_def str_def)
qed

lemma s5_loop_skip:
  assumes "bytes_at m a bs" "\<forall>j<n. \<not> s5_at bs j" "n + 5 < length bs" "i \<le> n"
  shows "s5_loop m a (length bs) i = s5_loop m a (length bs) n"
  using assms(4)
proof (induction rule: inc_induct)
  case (step i)
  have "\<not> s5_at bs i" using assms(2) step.hyps by simp
  then have "s5_loop m a (length bs) i = s5_loop m a (length bs) (i + 1)"
    using s5_window [OF assms(1), of i] assms(3) step.hyps by (subst s5_loop.simps) auto
  then show ?case using step.IH by simp
qed simp

lemma s5_loop_none:
  assumes "bytes_at m a bs" "\<forall>j. \<not> s5_at bs j"
  shows "s5_loop m a (length bs) i = None"
proof (induction "length bs - i" arbitrary: i)
  case 0
  then show ?case by (subst s5_loop.simps) simp
next
  case (Suc d)
  then show ?case using s5_window [OF assms(1), of i] assms(2) by (subst s5_loop.simps) auto
qed

lemma read_aml_byte_spec:
  assumes "bytes_at m a bs" "take (length (aml_byte v)) (drop p bs) = aml_byte v"
  shows "read_aml_byte m a p = (v, p + length (aml_byte v))"
proof -
  have len: "p + length (aml_byte v) \<le> length bs"
    using arg_cong [OF assms(2), of length] by (cases "p \<le> length bs") (auto simp: min_def aml_byte_def split: if_splits)
  have byte: "m (a + of_nat (p + i)) = aml_byte v ! i" if "i < length (aml_byte v)" for i
  proof -
    have "m (a + of_nat (p + i)) = bs ! (p + i)" using that len by (intro bytes_at_nth [OF assms(1)]) simp
    also have "\<dots> = take (length (aml_byte v)) (drop p bs) ! i" using that len by simp
    finally show ?thesis unfolding assms(2) .
  qed
  show ?thesis using byte [of 0] byte [of 1] by (auto simp: read_aml_byte_def aml_byte_def Let_def)
qed

lemma s5_found:
  assumes bs: "bytes_at m a bs" "bs = pre @ s5_package lead more_len elements x y @ rest" "\<forall>j<length pre. \<not> s5_at bs j"
    and lead: "length more_len = unat (drop_bit 6 lead)"
  shows "s5_loop m a (length bs) 0 = Some (x AND 7, y AND 7)"
proof -
  let ?n = "length pre" and ?p = "length pre + 5 + (1 + unat (drop_bit 6 lead)) + 1"
  have room: "?n + 5 < length bs" by (simp add: bs(2) s5_package_def str_def)
  have at: "s5_at bs ?n" by (simp add: s5_at_def bs(2) s5_package_def str_def numeral_eq_Suc)
  have "m (a + of_nat (?n + 5)) = bs ! (?n + 5)" using room by (intro bytes_at_nth [OF bs(1)])
  also have "\<dots> = lead" by (simp add: bs(2) s5_package_def str_def nth_append)
  finally have l: "m (a + of_nat (?n + 5)) = lead" .
  let ?h = "pre @ str ''_S5_'' @ [0x12, lead] @ more_len @ [elements]"
  have "bs = ?h @ aml_byte x @ aml_byte y @ rest" "length ?h = ?p"
    using lead by (simp_all add: bs(2) s5_package_def str_def)
  then have d: "drop ?p bs = aml_byte x @ aml_byte y @ rest" by (metis append_eq_conv_conj)
  have 1: "read_aml_byte m a ?p = (x, ?p + length (aml_byte x))"
    by (rule read_aml_byte_spec [OF bs(1)]) (simp only: d, simp)
  have "drop (?p + length (aml_byte x)) bs = aml_byte y @ rest"
    using drop_drop [of "length (aml_byte x)" ?p bs] unfolding d by (simp only: add.commute [of _ ?p]) simp
  then have 2: "read_aml_byte m a (?p + length (aml_byte x)) = (y, ?p + length (aml_byte x) + length (aml_byte y))"
    by (intro read_aml_byte_spec [OF bs(1)]) simp
  have "s5_loop m a (length bs) ?n = Some (x AND 7, y AND 7)"
    unfolding s5_loop.simps [of m a "length bs" ?n] if_P [OF room] if_P [OF iffD2 [OF s5_window [OF bs(1) room] at]]
      Let_def l 1 2 prod.case ..
  then show ?thesis using s5_loop_skip [OF bs(1,3) room, of 0] by simp
qed

section \<open>The MADT\<close>

text \<open>A double word of a table, and a well-formed entry: its length is in its second byte, and it is long enough for its type.\<close>

definition dword :: "u8 list \<Rightarrow> nat \<Rightarrow> u32" where
  "dword e i = ucast (e ! i) OR push_bit 8 (ucast (e ! (i + 1))) OR push_bit 16 (ucast (e ! (i + 2)))
     OR push_bit 24 (ucast (e ! (i + 3)))"

definition madt_entry_ok :: "u8 list \<Rightarrow> bool" where
  "madt_entry_ok e \<longleftrightarrow> 2 \<le> length e \<and> length e < 256 \<and> e ! 1 = of_nat (length e) \<and>
     (e ! 0 = 0 \<longrightarrow> 8 \<le> length e) \<and> (e ! 0 = 1 \<longrightarrow> 12 \<le> length e) \<and> (e ! 0 = 2 \<longrightarrow> 10 \<le> length e)"

text \<open>The last element with a property, and what it says.\<close>

definition last_of :: "('a \<Rightarrow> bool) \<Rightarrow> ('a \<Rightarrow> 'b) \<Rightarrow> 'a list \<Rightarrow> 'b \<Rightarrow> 'b" where
  "last_of P f xs d = (if filter P xs = [] then d else f (last (filter P xs)))"

lemma last_of_simps [simp]: "last_of P f [] d = d" "last_of P f (x # xs) d = last_of P f xs (if P x then f x else d)"
  by (simp_all add: last_of_def)

text \<open>The I/O APIC that serves the first lines, and the line of the timer.\<close>

definition ioapic_entry :: "u8 list \<Rightarrow> bool" where
  "ioapic_entry e \<longleftrightarrow> e ! 0 = 1 \<and> dword e 8 = 0"

definition timer_entry :: "u8 list \<Rightarrow> bool" where
  "timer_entry e \<longleftrightarrow> e ! 0 = 2 \<and> e ! 3 = 0"

definition madt_result :: "u8 list list \<Rightarrow> machine \<Rightarrow> machine" where
  "madt_result es m = m\<lparr>ioapic_base := last_of ioapic_entry (\<lambda>e. ucast (dword e 4)) es (ioapic_base m),
     timer_gsi := last_of timer_entry (\<lambda>e. ucast (dword e 4)) es (timer_gsi m)\<rparr>"

abbreviation m_screen :: "machine \<Rightarrow> bool" where
  "m_screen m \<equiv> screen (xhci.truncate m)"

lemma announce_ok:
  assumes "m_screen m"
  shows "\<exists>c. announce ps m = Inr (m\<lparr>kconsole := c\<rparr>) \<and> m_screen (m\<lparr>kconsole := c\<rparr>)"
proof -
  obtain c where c: "say ps (xhci.truncate m) = Inr ((xhci.truncate m)\<lparr>kconsole := c\<rparr>)" "screen ((xhci.truncate m)\<lparr>kconsole := c\<rparr>)"
    using say_ok [OF assms] by blast
  have "xhci.truncate (m\<lparr>kconsole := c\<rparr>) = (xhci.truncate m)\<lparr>kconsole := c\<rparr>"
    "xhci.extend ((xhci.truncate m)\<lparr>kconsole := c\<rparr>) (xhci.more m) = m\<lparr>kconsole := c\<rparr>"
    by (cases m; simp add: xhci.defs)+
  then show ?thesis using c by (intro exI [of _ c]) (simp add: announce_def do_xhci_def)
qed

lemma m_screen_frame [simp]: "m_screen (m\<lparr>ioapic_base := a\<rparr>) = m_screen m" "m_screen (m\<lparr>timer_gsi := g\<rparr>) = m_screen m"
  by (cases m; simp add: xhci.defs)+

lemma bytes_at_dword: "bytes_at m a bs \<Longrightarrow> i + 4 \<le> length bs \<Longrightarrow> read32 m (a + of_nat i) = dword bs i"
  using bytes_atD [of m a bs i] bytes_atD [of m a bs "i + 1"] bytes_atD [of m a bs "i + 2"] bytes_atD [of m a bs "i + 3"]
  by (simp add: read32_def dword_def ac_simps)

lemma bytes_at_sub: "bytes_at m a (pre @ bs @ rest) \<Longrightarrow> bytes_at m (a + of_nat (length pre)) bs"
  using bytes_at_slice [of m a "pre @ bs @ rest" "length pre" "length bs"] by (simp add: bytes_at_def)

text \<open>Apart from its lines on the screen, an entry has the effect of the list it starts.\<close>

lemma madt_entry_spec:
  assumes "bytes_at (kmem m) p e" "madt_entry_ok e" "m_screen m"
  shows "\<exists>c. madt_entry p m = Inr ((madt_result [e] m)\<lparr>kconsole := c\<rparr>) \<and> m_screen ((madt_result [e] m)\<lparr>kconsole := c\<rparr>)"
proof -
  have byte: "kmem m (p + of_nat i) = e ! i" if "i < length e" for i using bytes_atD [OF assms(1) that] .
  have len: "0 < length e" "2 \<le> length e" using assms(2) by (auto simp: madt_entry_ok_def)
  have t: "kmem m p = e ! 0" using byte [of 0] len by simp
  have d4: "read32 (kmem m) (p + 4) = dword e 4" if "8 \<le> length e" using bytes_at_dword [OF assms(1), of 4] that by simp
  have d8: "read32 (kmem m) (p + 8) = dword e 8" if "12 \<le> length e" using bytes_at_dword [OF assms(1), of 8] that by simp
  have b3: "kmem m (p + 3) = e ! 3" if "8 \<le> length e" using byte [of 3] that by simp
  consider "e ! 0 = 0" | "e ! 0 = 1" | "e ! 0 = 2" | "e ! 0 \<notin> {0, 1, 2}" by blast
  then show ?thesis
  proof cases
    case 1
    then have "madt_result [e] m = m" by (simp add: madt_result_def ioapic_entry_def timer_entry_def)
    then show ?thesis using 1 t announce_ok [OF assms(3)] by (simp add: madt_entry_def Let_def)
  next
    case 2
    then have r: "madt_result [e] m = (if dword e 8 = 0 then m\<lparr>ioapic_base := ucast (dword e 4)\<rparr> else m)"
      by (simp add: madt_result_def ioapic_entry_def timer_entry_def)
    have "12 \<le> length e" using assms(2) 2 by (simp add: madt_entry_ok_def)
    then have d: "read32 (kmem m) (p + 4) = dword e 4" "read32 (kmem m) (p + 8) = dword e 8" using d4 d8 by simp_all
    have "m_screen (madt_result [e] m)" unfolding r using assms(3) by simp
    then show ?thesis using 2 t d announce_ok [of "madt_result [e] m"] unfolding r by (simp add: madt_entry_def Let_def)
  next
    case 3
    then have r: "madt_result [e] m = (if e ! 3 = 0 then m\<lparr>timer_gsi := ucast (dword e 4)\<rparr> else m)"
      by (simp add: madt_result_def ioapic_entry_def timer_entry_def)
    have "8 \<le> length e" using assms(2) 3 by (simp add: madt_entry_ok_def)
    then have "madt_entry p m = Inr (madt_result [e] m)" using 3 t d4 b3 unfolding r by (simp add: madt_entry_def Let_def)
    moreover have "m_screen (madt_result [e] m)" unfolding r using assms(3) by simp
    ultimately show ?thesis by (intro exI [of _ "kconsole (madt_result [e] m)"]) simp
  next
    case 4
    then have "madt_result [e] m = m" by (simp add: madt_result_def ioapic_entry_def timer_entry_def)
    then show ?thesis using 4 t assms(3) by (intro exI [of _ "kconsole m"]) (simp add: madt_entry_def)
  qed
qed

lemma of_nat_below: "n < unat (w :: u64) \<Longrightarrow> of_nat n < w"
  using unat_of_nat_small [of n, where ?'a = 64] less_trans [OF _ unat_lt_64, of n w] by (simp add: word_less_nat_alt)

lemma madt_loop_walk:
  assumes "bytes_at (kmem m) addr (pre @ concat es @ rest)" "\<forall>e \<in> set es. madt_entry_ok e" "m_screen m"
    "length (pre @ concat es @ rest) = unat len" "m' = madt_result es m"
  shows "\<exists>c. madt_loop addr len (of_nat (length pre)) m =
      madt_loop addr len (of_nat (length (pre @ concat es))) (m'\<lparr>kconsole := c\<rparr>) \<and> m_screen (m'\<lparr>kconsole := c\<rparr>)"
  using assms
proof (induction es arbitrary: pre m m')
  case Nil
  then show ?case by (intro exI [of _ "kconsole m"]) (simp add: madt_result_def)
next
  case (Cons e es)
  let ?p = "of_nat (length pre) :: u64"
  have ok: "madt_entry_ok e" "2 \<le> length e" "length e < 256" using Cons.prems(2) by (simp_all add: madt_entry_ok_def)
  have at: "bytes_at (kmem m) (addr + ?p) e" using bytes_at_sub Cons.prems(1) by fastforce
  obtain c where c: "madt_entry (addr + ?p) m = Inr ((madt_result [e] m)\<lparr>kconsole := c\<rparr>)"
    "m_screen ((madt_result [e] m)\<lparr>kconsole := c\<rparr>)" using madt_entry_spec [OF at ok(1) Cons.prems(3)] by blast
  let ?m = "(madt_result [e] m)\<lparr>kconsole := c\<rparr>"
  have "length pre < unat len" using Cons.prems(4) ok(2) by simp
  then have less: "?p < len" by (rule of_nat_below)
  have "kmem m (addr + ?p + 1) = of_nat (length e)"
    using bytes_atD [OF at, of 1] ok by (simp add: madt_entry_ok_def)
  moreover have "unat (of_nat (length e) :: u8) = length e" "unat (of_nat (length e) :: u64) = length e"
    using ok(3) by (intro unat_of_nat_small; simp)+
  ultimately have "ucast (kmem m (addr + ?p + 1)) = (of_nat (length e) :: u64)"
    by (metis of_nat_unat)
  then have "madt_loop addr len ?p m = madt_loop addr len (of_nat (length (pre @ e))) ?m"
    using less c(1) by (subst madt_loop.simps) simp
  moreover have "\<exists>c'. madt_loop addr len (of_nat (length (pre @ e))) ?m =
      madt_loop addr len (of_nat (length ((pre @ e) @ concat es))) ((madt_result es ?m)\<lparr>kconsole := c'\<rparr>)
      \<and> m_screen ((madt_result es ?m)\<lparr>kconsole := c'\<rparr>)"
    using Cons.prems c(2) by (intro Cons.IH) (simp_all add: madt_result_def)
  moreover have "(madt_result es ?m)\<lparr>kconsole := c'\<rparr> = m'\<lparr>kconsole := c'\<rparr>" for c'
    using Cons.prems(5) by (simp add: madt_result_def)
  ultimately show ?case by simp
qed

text \<open>An entry of length 0 stops the walk where it is.\<close>

lemma madt_entry_runs:
  assumes "m_screen m"
  shows "\<exists>m'. madt_entry p m = Inr m' \<and> m_screen m' \<and> kmem m' = kmem m"
proof -
  have "\<exists>m'. announce ps m1 = Inr m' \<and> m_screen m' \<and> kmem m' = kmem m1" if "m_screen m1" for ps m1
    using announce_ok [OF that, of ps] by auto
  from this [of m] this [of "m\<lparr>ioapic_base := ucast (read32 (kmem m) (p + 4))\<rparr>"] show ?thesis
    using assms by (simp add: madt_entry_def Let_def)
qed

lemma madt_loop_stuck:
  assumes "offset < len" "kmem m (addr + offset + 1) = 0" "m_screen m"
  shows "madt_loop addr len offset m = None"
proof -
  let ?stuck = "\<lambda>addr len offset m _. \<not> (offset < len \<and> kmem m (addr + offset + 1) = 0 \<and> m_screen m)"
  have "?stuck addr len offset m r" if "madt_loop addr len offset m = Some r" for r
    using _ that
  proof (rule madt_loop.raw_induct [where P = ?stuck])
    fix loop addr len offset and m :: machine and r
    assume ih: "\<And>addr len offset m r. loop addr len offset m = Some r \<Longrightarrow> ?stuck addr len offset m r"
      and body: "(if offset < len then case madt_entry (addr + offset) m of Inl e \<Rightarrow> Some (Inl e)
        | Inr m' \<Rightarrow> loop addr len (offset + ucast (kmem m (addr + offset + 1))) m' else Some (Inr m)) = Some r"
    show "?stuck addr len offset m r"
    proof
      assume a: "offset < len \<and> kmem m (addr + offset + 1) = 0 \<and> m_screen m"
      then obtain m' where m': "madt_entry (addr + offset) m = Inr m'" "m_screen m'" "kmem m' = kmem m"
        using madt_entry_runs by blast
      then have "loop addr len offset m' = Some r" using body a by simp
      from ih [OF this] show False using a m' by simp
    qed
  qed
  then show ?thesis using assms by (cases "madt_loop addr len offset m") auto
qed

lemma parse_madt_walk:
  assumes "bytes_at (kmem m) addr (pre @ concat es @ rest)" "length pre = 44" "\<forall>e \<in> set es. madt_entry_ok e" "m_screen m"
    "dword pre 4 = of_nat (length (pre @ concat es @ rest))" "length (pre @ concat es @ rest) < 2 ^ 32"
  shows "\<exists>c. parse_madt addr m = map_option (\<lambda>r. rbind r (\<lambda>m. Inr (ucast (dword pre 36), m)))
      (madt_loop addr (of_nat (length (pre @ concat es @ rest))) (of_nat (length (pre @ concat es))) ((madt_result es m)\<lparr>kconsole := c\<rparr>))
      \<and> m_screen ((madt_result es m)\<lparr>kconsole := c\<rparr>)"
proof -
  let ?n = "length (pre @ concat es @ rest)" and ?ps = "[S ''Local APIC: '', H (ucast (dword pre 36)), S ''\<newline>'']"
  have "bytes_at (kmem m) addr pre" using bytes_at_sub [of "kmem m" addr "[]" pre] assms(1) by simp
  then have d: "read32 (kmem m) (addr + 4) = of_nat ?n" "read32 (kmem m) (addr + 36) = dword pre 36"
    using bytes_at_dword [of "kmem m" addr pre 4] bytes_at_dword [of "kmem m" addr pre 36] assms(2,5) by simp_all
  have n: "unat (of_nat ?n :: u32) = ?n" "unat (of_nat ?n :: u64) = ?n" using assms(6) by (intro unat_of_nat_small; simp)+
  then have len: "ucast (of_nat ?n :: u32) = (of_nat ?n :: u64)" by (metis of_nat_unat)
  obtain c where c: "announce ?ps m = Inr (m\<lparr>kconsole := c\<rparr>)" "m_screen (m\<lparr>kconsole := c\<rparr>)"
    using announce_ok [OF assms(4)] by blast
  have "parse_madt addr m = map_option (\<lambda>r. rbind r (\<lambda>m. Inr (ucast (dword pre 36), m)))
      (madt_loop addr (of_nat ?n) (of_nat (length pre)) (m\<lparr>kconsole := c\<rparr>))"
    unfolding parse_madt_def d len Let_def c(1) sum.case using assms(2) by simp
  moreover have "\<exists>c'. madt_loop addr (of_nat ?n) (of_nat (length pre)) (m\<lparr>kconsole := c\<rparr>) =
      madt_loop addr (of_nat ?n) (of_nat (length (pre @ concat es))) ((madt_result es m)\<lparr>kconsole := c\<rparr>\<lparr>kconsole := c'\<rparr>)
      \<and> m_screen ((madt_result es m)\<lparr>kconsole := c\<rparr>\<lparr>kconsole := c'\<rparr>)"
    using assms(1,3) c(2) n(2) by (intro madt_loop_walk) (simp_all add: madt_result_def)
  ultimately show ?thesis by auto
qed

section \<open>Properties\<close>

text \<open>C38. The sleep type for switching off is found: in a DSDT that holds the package \<^verbatim>\<open>\_S5\<close>, encoded with a length of one
  to four bytes and integers of one or two, and no earlier occurrence of its name and opcode, the parser returns
  the low three bits of the two values; in a DSDT without it, it returns nothing.\<close>

theorem parse_s5_correct:
  assumes "dsdt \<noteq> 0" "bytes_at m dsdt bs" "read32 m (dsdt + 4) = of_nat (length bs)" "length bs < 2 ^ 32"
  shows "(\<forall>pre lead more_len elements x y rest. bs = pre @ s5_package lead more_len elements x y @ rest \<longrightarrow>
      length more_len = unat (drop_bit 6 lead) \<longrightarrow> (\<forall>j<length pre. \<not> s5_at bs j) \<longrightarrow>
      parse_s5 m dsdt = Some (x AND 7, y AND 7))
    \<and> ((\<forall>j. \<not> s5_at bs j) \<longrightarrow> parse_s5 m dsdt = None)"
proof -
  have "unat (read32 m (dsdt + 4)) = length bs" using assms(3,4) by (simp add: unat_of_nat_small)
  then have e: "parse_s5 m dsdt = s5_loop m dsdt (length bs) 0" using assms(1) by (simp add: parse_s5_def)
  show ?thesis unfolding e using s5_found [OF assms(2)] s5_loop_none [OF assms(2)] by blast
qed

text \<open>A memory that holds one table, at 0x7000.\<close>

definition table_mem :: "u8 list \<Rightarrow> mem" where
  "table_mem bs a = (if unat (a - 0x7000) < length bs then bs ! unat (a - 0x7000) else 0)"

lemma table_mem_bytes: "length bs < 2 ^ 64 \<Longrightarrow> bytes_at (table_mem bs) 0x7000 bs"
  unfolding bytes_at_def by (intro nth_equalityI) (auto simp: table_mem_def unat_of_nat_small less_trans)

text \<open>A DSDT of 49 bytes: the header, then the package with the values 5 and 0.\<close>

definition sample_dsdt :: "u8 list" where
  "sample_dsdt = [68, 83, 68, 84, 49, 0, 0, 0, 0, 0, 0, 0, 0, 0, 0, 0, 0, 0, 0, 0, 0, 0, 0, 0, 0, 0, 0, 0,
     0, 0, 0, 0, 0, 0, 0, 0, 8] @ s5_package 6 [] 4 5 0 @ [0, 0]"

lemma sample_dsdt_list: "sample_dsdt = [68, 83, 68, 84, 49, 0, 0, 0, 0, 0, 0, 0, 0, 0, 0, 0, 0, 0, 0, 0, 0, 0, 0, 0, 0, 0, 0, 0,
    0, 0, 0, 0, 0, 0, 0, 0, 8, 95, 83, 53, 95, 0x12, 6, 4, 10, 5, 0, 0, 0]"
  by (simp add: sample_dsdt_def s5_package_def str_def aml_byte_def)

lemma sample_dsdt_first: "\<forall>j<37. \<not> s5_at sample_dsdt j"
  unfolding sample_dsdt_list by code_simp

theorem parse_s5_correct_witness: "parse_s5 (table_mem sample_dsdt) 0x7000 = Some (5, 0)"
proof -
  have len: "length sample_dsdt = 49" by (simp add: sample_dsdt_list)
  have "read32 (table_mem sample_dsdt) (0x7000 + 4) = of_nat (length sample_dsdt)"
    unfolding len by code_simp
  note correct = parse_s5_correct [OF _ table_mem_bytes this, THEN conjunct1, rule_format, OF _ _ _ sample_dsdt_def]
  show ?thesis using correct sample_dsdt_first len by simp
qed

text \<open>C39. A well-formed MADT is read completely: the parser returns the address of the local APIC, and has stored the
  address of the last I/O APIC that serves line 0 on and the line of the last override for the timer; apart from
  the console, nothing else has changed.\<close>

theorem madt_parsed:
  assumes "bytes_at (kmem m) addr (pre @ concat es)" "length pre = 44" "\<forall>e \<in> set es. madt_entry_ok e" "m_screen m"
    "dword pre 4 = of_nat (length (pre @ concat es))" "length (pre @ concat es) < 2 ^ 32"
  shows "\<exists>c. parse_madt addr m = Some (Inr (ucast (dword pre 36), (madt_result es m)\<lparr>kconsole := c\<rparr>))"
proof -
  obtain c where "parse_madt addr m = map_option (\<lambda>r. rbind r (\<lambda>m. Inr (ucast (dword pre 36), m)))
      (madt_loop addr (of_nat (length (pre @ concat es))) (of_nat (length (pre @ concat es))) ((madt_result es m)\<lparr>kconsole := c\<rparr>))"
    using parse_madt_walk [of m addr pre es "[]"] assms by auto
  then show ?thesis by (intro exI [of _ c]) (simp add: madt_loop.simps)
qed

text \<open>A MADT with an I/O APIC at 0xFEC00000 and the override that moves the timer to line 2.\<close>

definition sample_madt_head :: "u8 list" where
  "sample_madt_head = [65, 80, 73, 67, 66, 0, 0, 0, 0, 0, 0, 0, 0, 0, 0, 0, 0, 0, 0, 0, 0, 0, 0, 0, 0, 0, 0, 0, 0, 0, 0, 0,
     0, 0, 0, 0, 0, 0, 0xE0, 0xFE, 0, 0, 0, 0]"

definition sample_madt :: "u8 list list" where
  "sample_madt = [[1, 12, 0, 0, 0, 0, 0xC0, 0xFE, 0, 0, 0, 0], [2, 10, 0, 0, 2, 0, 0, 0, 0, 0]]"

definition table_machine :: "u8 list \<Rightarrow> machine" where
  "table_machine bs = sample_machine\<lparr>kmem := table_mem bs\<rparr>"

lemma table_machine_simps [simp]: "kmem (table_machine bs) = table_mem bs" "m_screen (table_machine bs)"
proof -
  have "screen_ok (sample_kernel\<lparr>kmem := table_mem bs\<rparr>)"
    using shell_invD(1) [OF sample_shell_inv] by (simp add: kernel_ok_def screen_ok_def)
  moreover have "kernel.truncate (xhci.truncate (table_machine bs)) = sample_kernel\<lparr>kmem := table_mem bs\<rparr>"
    by (simp add: table_machine_def sample_machine_def sample_xhci_def kernel.defs xhci.defs machine.defs)
  ultimately show "m_screen (table_machine bs)" by (simp add: screen_def)
qed (simp add: table_machine_def)

lemma sample_madt_facts: "length sample_madt_head = 44" "\<forall>e \<in> set sample_madt. madt_entry_ok e" "dword sample_madt_head 4 = 66"
  "dword sample_madt_head 36 = 0xFEE00000" "length (concat sample_madt) = 22"
  by (simp_all add: sample_madt_head_def sample_madt_def madt_entry_ok_def dword_def)

theorem madt_parsed_witness:
  "\<exists>m'. parse_madt 0x7000 (table_machine (sample_madt_head @ concat sample_madt)) = Some (Inr (0xFEE00000, m'))
    \<and> ioapic_base m' = 0xFEC00000 \<and> timer_gsi m' = 2"
proof -
  let ?m = "table_machine (sample_madt_head @ concat sample_madt)"
  have "\<exists>c. parse_madt 0x7000 ?m = Some (Inr (ucast (dword sample_madt_head 36), (madt_result sample_madt ?m)\<lparr>kconsole := c\<rparr>))"
    by (rule madt_parsed) (simp_all add: sample_madt_facts table_mem_bytes)
  then show ?thesis unfolding sample_madt_facts
    by (auto simp: madt_result_def sample_madt_def ioapic_entry_def timer_entry_def dword_def)
qed

text \<open>C40. An entry that claims the length 0, after any number of well-formed ones, hangs the boot: the parser does not
  return.\<close>

theorem madt_zero_entry_hangs:
  assumes "bytes_at (kmem m) addr (pre @ concat es @ [t, 0] @ rest)" "length pre = 44" "\<forall>e \<in> set es. madt_entry_ok e" "m_screen m"
    "dword pre 4 = of_nat (length (pre @ concat es @ [t, 0] @ rest))" "length (pre @ concat es @ [t, 0] @ rest) < 2 ^ 32"
  shows "parse_madt addr m = None"
proof -
  let ?n = "length (pre @ concat es @ [t, 0] @ rest)" and ?o = "of_nat (length (pre @ concat es)) :: u64"
  obtain c where c: "parse_madt addr m = map_option (\<lambda>r. rbind r (\<lambda>m. Inr (ucast (dword pre 36), m)))
      (madt_loop addr (of_nat ?n) ?o ((madt_result es m)\<lparr>kconsole := c\<rparr>))" "m_screen ((madt_result es m)\<lparr>kconsole := c\<rparr>)"
    using parse_madt_walk [OF assms] by blast
  have "bytes_at (kmem m) (addr + ?o) [t, 0]" using bytes_at_sub [of _ _ "pre @ concat es" "[t, 0]" rest] assms(1) by simp
  from bytes_atD [OF this, of 1] have "kmem m (addr + ?o + 1) = 0" by simp
  moreover have "unat (of_nat ?n :: u64) = ?n" using assms(6) by (intro unat_of_nat_small) simp
  then have "?o < of_nat ?n" by (intro of_nat_below) simp
  ultimately show ?thesis using c madt_loop_stuck by (simp add: madt_result_def)
qed

theorem madt_zero_entry_hangs_witness:
  "parse_madt 0x7000 (table_machine (sample_madt_head @ concat [[2, 10, 0, 0, 2, 0, 0, 0, 0, 0]] @ [0, 0] @ replicate 10 0)) = None"
proof (rule madt_zero_entry_hangs)
  show "bytes_at (kmem (table_machine (sample_madt_head @ concat [[2, 10, 0, 0, 2, 0, 0, 0, 0, 0]] @ [0, 0] @ replicate 10 0))) 0x7000
      (sample_madt_head @ concat [[2, 10, 0, 0, 2, 0, 0, 0, 0, 0]] @ [0, 0] @ replicate 10 0)"
    unfolding table_machine_simps by (rule table_mem_bytes) (simp add: sample_madt_facts)
qed (simp_all add: sample_madt_facts madt_entry_ok_def)

end
