(* ===== verification/Multiboot_Tags.thy ===== *)
theory Multiboot_Tags
  imports Boot_Tables
begin

text \<open>
  The walk over the multiboot2 tags against a list of tags: it ends, at the right place, with the boot information of
  the last tag of each kind, and the frame buffer tag brings up the console and the interrupt descriptors.
\<close>

section \<open>Well-formed tags\<close>

definition qword :: "u8 list \<Rightarrow> nat \<Rightarrow> u64" where
  "qword e i = ucast (e ! i) OR push_bit 8 (ucast (e ! (i + 1))) OR push_bit 16 (ucast (e ! (i + 2)))
     OR push_bit 24 (ucast (e ! (i + 3))) OR push_bit 32 (ucast (e ! (i + 4))) OR push_bit 40 (ucast (e ! (i + 5)))
     OR push_bit 48 (ucast (e ! (i + 6))) OR push_bit 56 (ucast (e ! (i + 7)))"

abbreviation tag_type :: "u8 list \<Rightarrow> u32" where
  "tag_type t \<equiv> dword t 0"

text \<open>A tag with its padding: a multiple of eight bytes, the first that holds the size it claims.\<close>

definition tag_ok :: "u8 list \<Rightarrow> bool" where
  "tag_ok t \<longleftrightarrow> tag_type t \<noteq> 0 \<and> 8 \<le> length t \<and> (unat (dword t 4) + 7) div 8 * 8 = length t \<and>
     (tag_type t \<in> {3, 6} \<longrightarrow> 16 \<le> length t) \<and> (tag_type t = 8 \<longrightarrow> 32 \<le> length t) \<and> (tag_type t = 15 \<longrightarrow> 40 \<le> length t)"

text \<open>The console a frame buffer tag describes.\<close>

definition tag_console :: "image \<Rightarrow> u8 list \<Rightarrow> console" where
  "tag_console im t = \<lparr>pixels = fb_contents im (qword t 8), pitch = dword t 16, width = dword t 20, height = dword t 24,
     cx = 0, cy = 0\<rparr>"

text \<open>Tags with their addresses, and what they say together.\<close>

fun place :: "u64 \<Rightarrow> u8 list list \<Rightarrow> (u64 \<times> u8 list) list" where
  "place p [] = []"
| "place p (t # ts) = (p, t) # place (p + of_nat (length t)) ts"

definition tag_info :: "(u64 \<times> u8 list) list \<Rightarrow> mb_info \<Rightarrow> mb_info" where
  "tag_info pts i =
     (let module_tag = \<lambda>(p, t). tag_type t = 3; mmap_tag = \<lambda>(p, t). tag_type t = 6; rsdp_tag = \<lambda>(p, t). tag_type t = 15 in
      \<lparr>xsdt_addr = last_of rsdp_tag (\<lambda>(p, t). qword t 32) pts (xsdt_addr i),
       mmap_addr = last_of mmap_tag fst pts (mmap_addr i),
       mmap_size = last_of mmap_tag (\<lambda>(p, t). dword t 4) pts (mmap_size i),
       mmap_entry_size = last_of mmap_tag (\<lambda>(p, t). dword t 8) pts (mmap_entry_size i),
       mb_mod_start = last_of module_tag (\<lambda>(p, t). ucast (dword t 8)) pts (mb_mod_start i),
       mb_mod_end = last_of module_tag (\<lambda>(p, t). ucast (dword t 12)) pts (mb_mod_end i)\<rparr>)"

text \<open>What the tags do to the machine: nothing without a frame buffer, else a console and a loaded descriptor table.\<close>

definition boots :: "image \<Rightarrow> bool \<Rightarrow> machine \<Rightarrow> machine \<Rightarrow> bool" where
  "boots im fb m m' \<longleftrightarrow> kmem m' = kmem m \<and> kfont m' = kfont m \<and> (\<not> fb \<longrightarrow> m' = m) \<and> (fb \<longrightarrow> m_screen m' \<and>
     (\<exists>t. idt_table m' = boot_idt (handlers_of im) (idt_addr im) t \<and> idtr m' = snd (idt_init (spurious_handler (handlers_of im)) (idt_addr im) t)))"

section \<open>One tag\<close>

lemma bytes_at_qword: "bytes_at m a bs \<Longrightarrow> i + 8 \<le> length bs \<Longrightarrow> read64 m (a + of_nat i) = qword bs i"
  using bytes_atD [of m a bs i] bytes_atD [of m a bs "i + 1"] bytes_atD [of m a bs "i + 2"] bytes_atD [of m a bs "i + 3"]
    bytes_atD [of m a bs "i + 4"] bytes_atD [of m a bs "i + 5"] bytes_atD [of m a bs "i + 6"] bytes_atD [of m a bs "i + 7"]
  by (simp add: read64_def qword_def ac_simps)

lemma m_screen_iff: "m_screen m \<longleftrightarrow> font_ok (kfont m) \<and> (case kconsole m of Some c \<Rightarrow> console_ok c | None \<Rightarrow> False)"
  by (cases m) (simp add: screen_def screen_ok_def kernel.defs xhci.defs)

lemma mb_framebuffer_spec:
  assumes "bytes_at (kmem m) p t" "32 \<le> length t" "console_ok (tag_console im t)" "font_ok (kfont m)"
  shows "\<exists>m'. mb_framebuffer im p m = Inr m' \<and> boots im True m m'"
proof -
  let ?c = "tag_console im t" and ?idtr = "snd (idt_init (spurious_handler (handlers_of im)) (idt_addr im) (idt_table m))"
  have d: "read64 (kmem m) (p + 8) = qword t 8" "read32 (kmem m) (p + 16) = dword t 16"
    "read32 (kmem m) (p + 20) = dword t 20" "read32 (kmem m) (p + 24) = dword t 24"
    using bytes_at_qword [OF assms(1), of 8] bytes_at_dword [OF assms(1), of 16] bytes_at_dword [OF assms(1), of 20]
      bytes_at_dword [OF assms(1), of 24] assms(2) by simp_all
  obtain c0 where c0: "clear ?c = Inr c0" "console_ok c0" 
    using clear_spec [OF assms(3), of ?c] by (auto simp: same_screen_def)
  let ?m0 = "m\<lparr>kconsole := Some c0\<rparr>"
  have "m_screen ?m0" using assms(4) c0(2) by (simp add: m_screen_iff)
  then obtain c1 where c1: "announce [S ''Tomorrow OS\<newline>''] ?m0 = Inr (?m0\<lparr>kconsole := c1\<rparr>)" "m_screen (?m0\<lparr>kconsole := c1\<rparr>)"
    using announce_ok by blast
  let ?m1 = "?m0\<lparr>kconsole := c1\<rparr>\<lparr>idtr := ?idtr\<rparr>"
  have "m_screen ?m1" using c1(2) by (simp add: m_screen_iff)
  then obtain c2 where c2: "announce [S ''IDT ok\<newline>''] ?m1 = Inr (?m1\<lparr>kconsole := c2\<rparr>)" "m_screen (?m1\<lparr>kconsole := c2\<rparr>)"
    using announce_ok by blast
  let ?m2 = "?m1\<lparr>kconsole := c2\<rparr>\<lparr>idt_table := boot_idt (handlers_of im) (idt_addr im) (idt_table m),
    kports := map (\<lambda>(port, v). (port, ucast v)) (rev pic_disable) @ kports m\<rparr>"
  have "m_screen ?m2" using c2(2) by (simp add: m_screen_iff)
  then obtain c3 where c3: "announce [S ''PIC off\<newline>''] ?m2 = Inr (?m2\<lparr>kconsole := c3\<rparr>)" "m_screen (?m2\<lparr>kconsole := c3\<rparr>)"
    using announce_ok by blast
  have "mb_framebuffer im p m = Inr (?m2\<lparr>kconsole := c3\<rparr>)"
    using c0(1) c1(1) c2(1) c3(1) by (simp add: mb_framebuffer_def Let_def d tag_console_def)
  then show ?thesis using c3(2) by (intro exI [of _ "?m2\<lparr>kconsole := c3\<rparr>"]) (auto simp: boots_def)
qed

lemma next_tag_padded:
  assumes "bytes_at m p t" "tag_ok t"
  shows "next_tag m p = p + of_nat (length t)"
proof -
  let ?w = "ucast (dword t 4) + 7 :: u64"
  have less: "unat (dword t 4) < 2 ^ 32" using unsigned_less [of "dword t 4", where ?'a = nat] by simp
  then have "unat (ucast (dword t 4) :: u64) = unat (dword t 4)" by (simp add: unsigned_ucast_eq take_bit_nat_eq_self_iff)
  then have "unat ?w = unat (dword t 4) + 7"
    using less unat_add_small [of "ucast (dword t 4) :: u64" 7] by simp
  then have "unat (?w AND NOT 7) = length t"
    using unat_and_not_mask [of ?w 3] assms(2) by (simp add: tag_ok_def mask_eq_exp_minus_1)
  from arg_cong [OF this, of "of_nat :: nat \<Rightarrow> u64"] have "?w AND NOT 7 = of_nat (length t)" by (simp only: of_nat_unat ucast_id)
  moreover have "read32 m (p + 4) = dword t 4" using bytes_at_dword [OF assms(1), of 4] assms(2) by (simp add: tag_ok_def)
  ultimately show ?thesis by (simp add: next_tag_def)
qed

lemma mb_tag_spec:
  assumes "bytes_at (kmem m) p t" "tag_ok t" "tag_type t = 8 \<longrightarrow> console_ok (tag_console im t)" "font_ok (kfont m)"
  shows "\<exists>m'. mb_tag im p (i, m) = Inr (tag_info [(p, t)] i, m') \<and> boots im (tag_type t = 8) m m'"
proof -
  have ty: "read32 (kmem m) p = tag_type t" using bytes_at_dword [OF assms(1), of 0] assms(2) by (simp add: tag_ok_def)
  have d: "j + 4 \<le> length t \<Longrightarrow> read32 (kmem m) (p + of_nat j) = dword t j" for j by (rule bytes_at_dword [OF assms(1)])
  have d4: "read32 (kmem m) (p + 4) = dword t 4" using d [of 4] assms(2) by (simp add: tag_ok_def)
  have d8: "read32 (kmem m) (p + 8) = dword t 8" "read32 (kmem m) (p + 12) = dword t 12" if "tag_type t \<in> {3, 6}"
    using d [of 8] d [of 12] assms(2) that by (auto simp: tag_ok_def)
  have q: "read64 (kmem m) (p + 32) = qword t 32" if "tag_type t = 15"
    using bytes_at_qword [OF assms(1), of 32] assms(2) that by (simp add: tag_ok_def)
  show ?thesis
  proof (cases "tag_type t = 8")
    case True
    then have "32 \<le> length t" using assms(2) by (simp add: tag_ok_def)
    then obtain m' where "mb_framebuffer im p m = Inr m'" "boots im True m m'"
      using mb_framebuffer_spec [OF assms(1)] assms(3,4) True by blast
    then show ?thesis using True ty by (simp add: mb_tag_def tag_info_def Let_def)
  next
    case False
    then have "mb_tag im p (i, m) = Inr (tag_info [(p, t)] i, m)"
      using ty d4 d8 q by (auto simp: mb_tag_def tag_info_def Let_def)
    then show ?thesis using False by (simp add: boots_def)
  qed
qed

section \<open>The walk\<close>

lemma boots_trans:
  assumes "boots im a m m1" "boots im b m1 m2"
  shows "boots im (a \<or> b) m m2"
  using assms by (cases b; cases a) (auto simp: boots_def)

lemma tag_info_Cons: "tag_info (x # xs) i = tag_info xs (tag_info [x] i)"
  by (simp add: tag_info_def Let_def)

lemma mb_loop_walk:
  assumes "bytes_at (kmem m) p (concat ts @ [0, 0, 0, 0])" "\<forall>t \<in> set ts. tag_ok t" "font_ok (kfont m)"
    "\<forall>t \<in> set ts. tag_type t = 8 \<longrightarrow> console_ok (tag_console im t)"
  shows "\<exists>m'. mb_loop im p (i, m) = Some (Inr (tag_info (place p ts) i, m')) \<and> boots im (\<exists>t \<in> set ts. tag_type t = 8) m m'"
  using assms
proof (induction ts arbitrary: p i m)
  case Nil
  then have "read32 (kmem m) p = 0" using bytes_at_dword [of "kmem m" p "[0, 0, 0, 0]" 0] by (simp add: dword_def)
  then show ?case by (subst mb_loop.simps) (simp add: tag_info_def boots_def)
next
  case (Cons t ts)
  have at: "bytes_at (kmem m) p t" and rest: "bytes_at (kmem m) (p + of_nat (length t)) (concat ts @ [0, 0, 0, 0])"
    using bytes_at_sub [of "kmem m" p "[]" t] bytes_at_sub [of "kmem m" p t _ "[]"] Cons.prems(1) by simp_all
  have ok: "tag_ok t" using Cons.prems(2) by simp
  obtain m1 where m1: "mb_tag im p (i, m) = Inr (tag_info [(p, t)] i, m1)" "boots im (tag_type t = 8) m m1"
    using mb_tag_spec [OF at ok, of im i] Cons.prems(3,4) by auto
  have same: "kmem m1 = kmem m" "kfont m1 = kfont m" using m1(2) by (simp_all add: boots_def)
  obtain m2 where m2: "mb_loop im (p + of_nat (length t)) (tag_info [(p, t)] i, m1) =
      Some (Inr (tag_info (place (p + of_nat (length t)) ts) (tag_info [(p, t)] i), m2))" "boots im (\<exists>t \<in> set ts. tag_type t = 8) m1 m2"
    using Cons.IH [of m1 "p + of_nat (length t)" "tag_info [(p, t)] i"] rest Cons.prems(2-4) same by auto
  have "read32 (kmem m) p \<noteq> 0" using bytes_at_dword [OF at, of 0] ok by (simp add: tag_ok_def)
  then have "mb_loop im p (i, m) = mb_loop im (p + of_nat (length t)) (tag_info [(p, t)] i, m1)"
    by (subst mb_loop.simps) (simp add: m1(1) next_tag_padded [OF at ok])
  then have "mb_loop im p (i, m) = Some (Inr (tag_info (place p (t # ts)) i, m2))"
    unfolding place.simps tag_info_Cons [of "(p, t)" "place _ _"] by (simp only: m2(1))
  then show ?case using boots_trans [OF m1(2) m2(2)] by (intro exI [of _ m2]) simp
qed

section \<open>Properties\<close>

text \<open>C37. The walk over the multiboot2 tags ends and reads the boot information: for any sequence of well-formed tags with
  their padding, followed by the end tag, the kernel has the module, memory map and XSDT of the last tag of
  each kind; with a frame buffer tag it has a working console and its interrupt descriptors loaded, and without one
  nothing else has changed. The information itself is not written to.\<close>

theorem multiboot_tags_read:
  assumes "bytes_at (kmem m) (boot_info + 8) (concat ts @ [0, 0, 0, 0])" "\<forall>t \<in> set ts. tag_ok t" "font_ok (kfont m)"
    "\<forall>t \<in> set ts. tag_type t = 8 \<longrightarrow> console_ok (tag_console im t)"
  shows "\<exists>m'. mb_loop im (boot_info + 8) (MB_NONE, m) = Some (Inr (tag_info (place (boot_info + 8) ts) MB_NONE, m'))
    \<and> boots im (\<exists>t \<in> set ts. tag_type t = 8) m m'"
  by (rule mb_loop_walk [OF assms])

text \<open>A module tag of 17 bytes, padded, and a frame buffer of 80 by 32 pixels.\<close>

definition sample_image :: image where
  "sample_image = \<lparr>handlers_of = \<lparr>spurious_handler = 0x101000, timer_handler_asm = 0x101100, keyboard_handler_asm = 0x101200,
     gp_handler_asm = 0x101300, pf_handler_asm = 0x101400\<rparr>, idt_addr = 0x110000, tss_addr = 0x111000, gdt_addr = 0x112000,
     syscall_entry = 0x101500, efer = 0x500, process_a = 0x102000, process_b = 0x103000, fb_contents = (\<lambda>_ _. 0)\<rparr>"

definition sample_tags :: "u8 list list" where
  "sample_tags = [[3, 0, 0, 0, 17, 0, 0, 0, 0, 0, 0x20, 0, 0, 2, 0x20, 0, 0, 0, 0, 0, 0, 0, 0, 0],
     [8, 0, 0, 0, 32, 0, 0, 0, 0, 0, 0, 0xFD, 0, 0, 0, 0, 64, 1, 0, 0, 80, 0, 0, 0, 32, 0, 0, 0, 32, 1, 0, 0]]"

lemma sample_tags_ok: "\<forall>t \<in> set sample_tags. tag_ok t" "\<forall>t \<in> set sample_tags. tag_type t = 8 \<longrightarrow> console_ok (tag_console im t)"
  by (simp_all add: sample_tags_def tag_ok_def dword_def tag_console_def console_ok_def cols_def rows_def stride_def GLYPH_H_def GLYPH_W_def)

theorem multiboot_tags_read_witness:
  "\<exists>i m'. mb_loop sample_image (0x6FF8 + 8) (MB_NONE, table_machine (concat sample_tags @ [0, 0, 0, 0])) = Some (Inr (i, m'))
    \<and> mb_mod_start i = 0x200000 \<and> mb_mod_end i = 0x200200 \<and> mmap_addr i = 0 \<and> m_screen m'"
proof -
  let ?m = "table_machine (concat sample_tags @ [0, 0, 0, 0])"
  have "length (concat sample_tags @ [0, 0, 0, 0] :: u8 list) = 60" by (simp add: sample_tags_def)
  then have "bytes_at (kmem ?m) (0x6FF8 + 8) (concat sample_tags @ [0, 0, 0, 0])" using table_mem_bytes by simp
  moreover have "font_ok (kfont ?m)" using table_machine_simps(2) m_screen_iff by blast
  ultimately obtain m' where "mb_loop sample_image (0x6FF8 + 8) (MB_NONE, ?m) =
      Some (Inr (tag_info (place (0x6FF8 + 8) sample_tags) MB_NONE, m'))"
    "boots sample_image (\<exists>t \<in> set sample_tags. tag_type t = 8) ?m m'"
    using multiboot_tags_read [OF _ sample_tags_ok(1) _ sample_tags_ok(2)] by blast
  then show ?thesis by (auto simp: tag_info_def Let_def MB_NONE_def sample_tags_def dword_def boots_def)
qed

end
