(* ===== verification/Boot_Safety.thy ===== *)
theory Boot_Safety
  imports System Multiboot_Tags
begin

text \<open>
  The last step of the boot: the scheduler is filled with the first two processes and the first of them is entered. It
  establishes the invariant of the running system.
\<close>

section \<open>The kernel inside the machine\<close>

definition kern :: "machine \<Rightarrow> kernel" where
  "kern m = kernel.truncate (xhci.truncate m)"

lemma kern_simps [simp]:
  "kmem (kern m) = kmem m" "kbitmap (kern m) = kbitmap m" "kpml4 (kern m) = kpml4 m" "kimg (kern m) = kimg m"
  "kst (kern m) = kst m" "kfs (kern m) = kfs m" "kline (kern m) = kline m" "klen (kern m) = klen m" "knext_pid (kern m) = knext_pid m"
  "kfont (kern m) = kfont m" "kconsole (kern m) = kconsole m" "kready (kern m) = kready m" "kif (kern m) = kif m"
  by (cases m; simp add: kern_def kernel.defs xhci.defs)+

lemma screen_kern: "m_screen m = screen_ok (kern m)"
  by (simp add: kern_def screen_def)

text \<open>Output and updates of the kernel, on the machine.\<close>

definition with_kern :: "machine \<Rightarrow> kernel \<Rightarrow> machine" where
  "with_kern m k = xhci.extend (kernel.extend k (kernel.more (xhci.truncate m))) (xhci.more m)"

lemma with_kern_simps [simp]: "kern (with_kern m k) = k" "scheduler_ready (with_kern m k) = scheduler_ready m"
  "kst (with_kern m k) = kst k" "kmem (with_kern m k) = kmem k" "kpml4 (with_kern m k) = kpml4 k"
  by (cases m; cases k; simp add: kern_def with_kern_def kernel.defs xhci.defs)+

lemma do_kernel_kern: "do_kernel f m = rbind (f (kern m)) (\<lambda>k. Inr (with_kern m k))"
  by (simp add: do_kernel_def do_xhci_def on_kernel_def kern_def with_kern_def rbind_assoc)

section \<open>Two processes\<close>

lemma boot_process_spec:
  assumes o: "owned code (kmem m) (kbitmap m) (kpml4 m) n ps" and n: "unat n < 2 ^ 27"
    and free: "11 \<le> card (free_set (kbitmap m))" and e: "loadable code entry"
  shows "\<exists>proc mem bm. boot_process n entry m = Inr (proc, m\<lparr>kmem := mem, kbitmap := bm\<rparr>)
    \<and> spawns code (kmem m) (kbitmap m) (kpml4 m) n ps entry proc mem bm \<and> card (free_set (kbitmap m)) \<le> card (free_set bm) + 11"
proof -
  have "\<forall>v \<in> user_pages n. \<not> in_huge (kmem m) (kpml4 m) v" using ownedD(5) [OF o n] by blast
  moreover have "KERNEL_VIRT \<le> entry" "unat (entry - KERNEL_VIRT) + 0x2000 \<le> 2 ^ 52" using e by (simp_all add: loadable_def)
  ultimately obtain proc mem bm where p: "process_new (kpml4 m) (kcr3 m) n SYSCALL_MASK 0 entry [] (kmem m, kbitmap m) = Inr (proc, mem, bm)"
    "process_made (kmem m) (kbitmap m) (kpml4 m) n entry proc mem bm"
    using process_new_spec [OF ownedD(1) [OF o] free n, of entry "kcr3 m" SYSCALL_MASK 0 "[]"] by blast
  moreover have "card (free_set (kbitmap m)) \<le> card (free_set bm) + 11" using p(2) by (simp add: process_made_def)
  ultimately show ?thesis using o n e
    by (intro exI [of _ proc] exI [of _ mem] exI [of _ bm]) (simp add: boot_process_def spawns_def loadable_def)
qed

text \<open>What the machine needs before the scheduler starts.\<close>

definition boot_ready :: "nat set \<Rightarrow> image \<Rightarrow> machine \<Rightarrow> bool" where
  "boot_ready code im m \<longleftrightarrow> m_screen m \<and> length (kline m) = BUF_LEN \<and> dir_ok (kfs m) \<and> kimage_ok (kimg m)
     \<and> sched (kst m) = SCHEDULER_NEW \<and> knext_pid m = 3
     \<and> owned code (kmem m) (kbitmap m) (kpml4 m) 1 (processes SCHEDULER_NEW) \<and> 22 \<le> card (free_set (kbitmap m))
     \<and> loadable code (process_a im) \<and> loadable code (process_b im)"

definition first_two :: "process \<Rightarrow> process \<Rightarrow> scheduler" where
  "first_two a b = \<lparr>processes = Some a # Some b # replicate 62 None, current = 0, count = 2\<rparr>"

lemma add_first_two: "rbind (add_process a SCHEDULER_NEW) (\<lambda>sc. rbind (add_process b sc) f) = f (first_two a b)"
proof -
  have "position Option.is_none (take 64 (replicate 64 None)) = Some 0"
    "position Option.is_none (take 64 (Some a # replicate 63 None)) = Some 1"
    by (simp_all add: position_Some Option.is_none_def)
  then have "add_process a SCHEDULER_NEW = Inr \<lparr>processes = Some a # replicate 63 None, current = 0, count = Suc 0\<rparr>"
    "add_process b \<lparr>processes = Some a # replicate 63 None, current = 0, count = Suc 0\<rparr> = Inr (first_two a b)"
    by (simp_all add: add_process_def SCHEDULER_NEW_def first_two_def numeral_eq_Suc)
  then show ?thesis by simp
qed

text \<open>The two processes, made one after the other.\<close>

definition two_made :: "nat set \<Rightarrow> image \<Rightarrow> machine \<Rightarrow> process \<Rightarrow> process \<Rightarrow> mem \<Rightarrow> bitmap \<Rightarrow> bool" where
  "two_made code im m a b mem bm \<longleftrightarrow> (\<exists>mem1 bm1.
     spawns code (kmem m) (kbitmap m) (kpml4 m) 1 (processes SCHEDULER_NEW) (process_a im) a mem1 bm1 \<and>
     spawns code mem1 bm1 (kpml4 m) 2 ((processes SCHEDULER_NEW)[0 := Some a]) (process_b im) b mem bm)"

lemma two_processes:
  assumes "boot_ready code im m"
  shows "\<exists>a m1 b mem bm. boot_process 1 (process_a im) m = Inr (a, m1)
    \<and> boot_process 2 (process_b im) m1 = Inr (b, m\<lparr>kmem := mem, kbitmap := bm\<rparr>) \<and> two_made code im m a b mem bm"
proof -
  have o: "owned code (kmem m) (kbitmap m) (kpml4 m) 1 (processes SCHEDULER_NEW)" and free: "22 \<le> card (free_set (kbitmap m))"
    and e: "loadable code (process_a im)" "loadable code (process_b im)" using assms by (simp_all add: boot_ready_def)
  obtain a mem1 bm1 where a: "boot_process 1 (process_a im) m = Inr (a, m\<lparr>kmem := mem1, kbitmap := bm1\<rparr>)"
    "spawns code (kmem m) (kbitmap m) (kpml4 m) 1 (processes SCHEDULER_NEW) (process_a im) a mem1 bm1"
    "card (free_set (kbitmap m)) \<le> card (free_set bm1) + 11"
    using boot_process_spec [OF o _ _ e(1)] free by auto
  let ?m1 = "m\<lparr>kmem := mem1, kbitmap := bm1\<rparr>"
  have "owned code mem1 bm1 (kpml4 m) (1 + 1) ((processes SCHEDULER_NEW)[0 := Some a])"
    by (rule owned_spawn [OF a(2)]) (simp_all add: SCHEDULER_NEW_def)
  then have o1: "owned code (kmem ?m1) (kbitmap ?m1) (kpml4 ?m1) 2 ((processes SCHEDULER_NEW)[0 := Some a])" by simp
  obtain b mem bm where b: "boot_process 2 (process_b im) ?m1 = Inr (b, ?m1\<lparr>kmem := mem, kbitmap := bm\<rparr>)"
    "spawns code mem1 bm1 (kpml4 m) 2 ((processes SCHEDULER_NEW)[0 := Some a]) (process_b im) b mem bm"
    using boot_process_spec [OF o1 _ _ e(2)] a(3) free by auto
  then show ?thesis using a(1,2)
    by (intro exI [of _ a] exI [of _ ?m1] exI [of _ b] exI [of _ mem] exI [of _ bm]) (auto simp: two_made_def)
qed

lemma made_entry:
  assumes "process_made m bm pml4 p entry proc m' bm'" "unat p < 2 ^ 27"
  shows "translate m' pml4 (rip (ctx proc)) = Some (entry - KERNEL_VIRT)" "user_path m' pml4 (indices (rip (ctx proc)))"
    "rip (ctx proc) \<in> regions p"
proof -
  have off: "unat (entry AND 0xFFF) < 4096" by (simp only: unat_page_offset)
  note ep = entry_page [OF assms(2) off]
  have c: "user_mapped m' pml4 (code_virt p) ((entry - KERNEL_VIRT) AND NOT 0xFFF)"
    and r: "rip (ctx proc) = code_virt p + (entry AND 0xFFF)" using assms(1) by (simp_all only: process_made_def)
  then show "translate m' pml4 (rip (ctx proc)) = Some (entry - KERNEL_VIRT)" "user_path m' pml4 (indices (rip (ctx proc)))"
    using ep kernel_offset [of entry] by (simp_all only: user_mapped_def)
  have "unat (code_virt p + 0x2000) = unat (code_virt p) + 0x2000" "unat (code_virt p + (entry AND 0xFFF)) = unat (code_virt p) + unat (entry AND 0xFFF)"
    using assms(2) off unat_plus_nat [of "code_virt p" "0x2000"] unat_add_small [of "code_virt p" "entry AND 0xFFF"]
    by (simp_all add: region_arith)
  then show "rip (ctx proc) \<in> regions p" unfolding r regions_def using off
    by (auto simp: word_le_nat_alt word_less_nat_alt)
qed

lemma two_made_facts:
  assumes "two_made code im m a b mem bm"
  shows "owned code mem bm (kpml4 m) 3 (Some a # Some b # replicate 62 None)" "bitmap_ok bm"
    "user_space_ok mem (kpml4 m) a" "user_space_ok mem (kpml4 m) b" "proc_ok fs a" "proc_ok fs b"
    "pid a = 1" "pid b = 2" "state a = Running" "state b = Running"
    "translate mem (kpml4 m) (rip (ctx a)) = Some (process_a im - KERNEL_VIRT)" "user_path mem (kpml4 m) (indices (rip (ctx a)))"
proof -
  obtain mem1 bm1 where sa: "spawns code (kmem m) (kbitmap m) (kpml4 m) 1 (processes SCHEDULER_NEW) (process_a im) a mem1 bm1"
    and sb: "spawns code mem1 bm1 (kpml4 m) 2 ((processes SCHEDULER_NEW)[0 := Some a]) (process_b im) b mem bm"
    using assms by (auto simp: two_made_def)
  have ma: "process_made (kmem m) (kbitmap m) (kpml4 m) 1 (process_a im) a mem1 bm1"
    and mb: "process_made mem1 bm1 (kpml4 m) 2 (process_b im) b mem bm" using sa sb by (simp_all add: spawns_def)
  have ps: "(processes SCHEDULER_NEW)[0 := Some a] = Some a # replicate 63 None"
    "(Some a # replicate 63 None)[1 := Some b] = Some a # Some b # replicate 62 None"
    by (simp_all add: SCHEDULER_NEW_def numeral_eq_Suc)
  have "owned code mem bm (kpml4 m) (2 + 1) (((processes SCHEDULER_NEW)[0 := Some a])[1 := Some b])"
    by (rule owned_spawn [OF sb]) (simp_all add: ps)
  then show "owned code mem bm (kpml4 m) 3 (Some a # Some b # replicate 62 None)" by (simp only: ps) simp
  show "bitmap_ok bm" using tables_okD(1) [OF spawnsD(4) [OF sb]] .
  have "user_space_ok mem1 (kpml4 m) a" by (rule spawned_space(2) [OF sa])
  then show "user_space_ok mem (kpml4 m) a" using others_keep_space(2) [OF sb, of a] by (simp add: ps)
  show "user_space_ok mem (kpml4 m) b" by (rule spawned_space(2) [OF sb])
  show "proc_ok fs a" "proc_ok fs b" using proc_ok_made [OF ma] proc_ok_made [OF mb] .
  show "pid a = 1" "pid b = 2" "state a = Running" "state b = Running" using ma mb by (simp_all add: process_made_def)
  have one: "unat (1 :: u64) < 2 ^ 27" "unat (2 :: u64) < 2 ^ 27" by simp_all
  note e = made_entry [OF ma one(1)]
  have "indices (rip (ctx a)) \<notin> indices ` user_pages 2" by (rule other_region [OF one(2,1) _ e(3)]) simp
  then show "translate mem (kpml4 m) (rip (ctx a)) = Some (process_a im - KERNEL_VIRT)" "user_path mem (kpml4 m) (indices (rip (ctx a)))"
    using e(1,2) mb by (auto simp: process_made_def same_outside_def)
qed

text \<open>The rest of the step: the table, the shell, and the way out.\<close>

lemma shell_init_runs:
  assumes "screen_ok k"
  shows "\<exists>c. shell_init k = Inr (k\<lparr>klen := 0, kready := True, kconsole := c\<rparr>) \<and> screen_ok (k\<lparr>klen := 0, kready := True, kconsole := c\<rparr>)"
proof -
  let ?k = "k\<lparr>klen := 0, kready := True\<rparr>"
  have "screen_ok ?k" using assms by (simp add: screen_ok_def)
  then have "out ?k (shell_init k)" unfolding shell_init_def prompt_def by (intro out_rbind outs)
  then show ?thesis by (auto simp: out_def same_but_console_def)
qed

lemma kern_update [simp]: "kern (m\<lparr>kst := st\<rparr>) = (kern m)\<lparr>kst := st\<rparr>" "kern (m\<lparr>kconsole := c\<rparr>) = (kern m)\<lparr>kconsole := c\<rparr>"
  "kern (m\<lparr>kmem := x, kbitmap := y\<rparr>) = (kern m)\<lparr>kmem := x, kbitmap := y\<rparr>"
  "kern (m\<lparr>kif := f, scheduler_ready := g\<rparr>) = (kern m)\<lparr>kif := f\<rparr>"
  by (cases m; simp add: kern_def kernel.defs xhci.defs)+

lemma boot_scheduler_runs:
  assumes two: "boot_process 1 (process_a im) m = Inr (a, m1)" "boot_process 2 (process_b im) m1 = Inr (b, m\<lparr>kmem := mem, kbitmap := bm\<rparr>)"
    and ready: "boot_ready code im m"
  shows "\<exists>c m'. boot_scheduler im m =
      Inr (\<lparr>f_rip = rip (ctx a), f_cs = 0x23, f_rflags = 0x202, f_rsp = user_stack a, f_ss = 0x1B\<rparr>, m')
    \<and> scheduler_ready m' \<and> screen_ok (kern m') \<and> kern m' = (kern m)\<lparr>kmem := mem, kbitmap := bm,
       kst := (kst m)\<lparr>sched := first_two a b, rsp0 := kernel_stack a\<rparr>, kif := False, klen := 0, kready := True, kconsole := c\<rparr>"
proof -
  let ?m2 = "m\<lparr>kmem := mem, kbitmap := bm\<rparr>"
  let ?m3 = "?m2\<lparr>kst := (kst m)\<lparr>sched := first_two a b\<rparr>\<rparr>"
  have "m_screen ?m3" using ready by (simp add: boot_ready_def screen_kern screen_ok_def)
  then obtain c where c: "announce [S ''Scheduler ok\<newline>''] ?m3 = Inr (?m3\<lparr>kconsole := c\<rparr>)" "m_screen (?m3\<lparr>kconsole := c\<rparr>)"
    using announce_ok by blast
  let ?m4 = "?m3\<lparr>kconsole := c\<rparr>\<lparr>kif := False, scheduler_ready := True\<rparr>"
  have "screen_ok (kern ?m4)" using c(2) by (simp add: screen_kern screen_ok_def)
  then obtain d where d: "shell_init (kern ?m4) = Inr ((kern ?m4)\<lparr>klen := 0, kready := True, kconsole := d\<rparr>)"
    "screen_ok ((kern ?m4)\<lparr>klen := 0, kready := True, kconsole := d\<rparr>)" using shell_init_runs by blast
  let ?k5 = "(kern ?m4)\<lparr>klen := 0, kready := True, kconsole := d\<rparr>"
  let ?m6 = "(with_kern ?m4 ?k5)\<lparr>kst := (kst ?k5)\<lparr>rsp0 := kernel_stack a\<rparr>\<rparr>"
  have s: "sched (kst m) = SCHEDULER_NEW" using ready by (simp add: boot_ready_def)
  have "boot_scheduler im m =
      Inr (\<lparr>f_rip = rip (ctx a), f_cs = 0x23, f_rflags = 0x202, f_rsp = user_stack a, f_ss = 0x1B\<rparr>, ?m6)"
    using c(1) d(1)
    by (simp add: boot_scheduler_def two s add_first_two do_kernel_kern start_first_process_ring3_def) (simp add: first_two_def)
  moreover have "kern ?m6 = ?k5\<lparr>kst := (kst ?k5)\<lparr>rsp0 := kernel_stack a\<rparr>\<rparr>" by simp
  moreover have "screen_ok (kern ?m6)" using d(2) by (simp add: screen_ok_def)
  ultimately show ?thesis by (intro exI [of _ d] exI [of _ ?m6]) simp
qed

section \<open>Properties\<close>

text \<open>C2. The boot hands over a sound system: with the page tables, pages and programs in order and 22 pages free, the last
  step of the boot does not fail; it leaves two running processes with pids 1 and 2, the shell ready, interrupts off until
  the first return to ring 3, and the state in the invariant that every later event keeps; and the frame it returns through
  enters ring 3 at the first instruction of the first program.\<close>

theorem boot_starts_system:
  assumes "boot_ready code im m" "programs_ok code prog"
  shows "\<exists>fr m' a b. boot_scheduler im m = Inr (fr, m') \<and> sys_inv code prog (kern m') \<and> scheduler_ready m' \<and> kready m' \<and> \<not> kif m'
    \<and> processes (sched (kst m')) = Some a # Some b # replicate 62 None \<and> pid a = 1 \<and> pid b = 2 \<and> state a = Running \<and> state b = Running
    \<and> f_cs fr = 0x23 \<and> f_ss fr = 0x1B \<and> f_rflags fr = 0x202 \<and> rsp0 (kst m') = kernel_stack a
    \<and> translate (kmem m') (kpml4 m') (f_rip fr) = Some (process_a im - KERNEL_VIRT) \<and> user_path (kmem m') (kpml4 m') (indices (f_rip fr))"
proof -
  obtain a m1 b mem bm where two: "boot_process 1 (process_a im) m = Inr (a, m1)"
    "boot_process 2 (process_b im) m1 = Inr (b, m\<lparr>kmem := mem, kbitmap := bm\<rparr>)" "two_made code im m a b mem bm"
    using two_processes [OF assms(1)] by blast
  note F = two_made_facts [OF two(3)]
  obtain c m' where m': "boot_scheduler im m =
      Inr (\<lparr>f_rip = rip (ctx a), f_cs = 0x23, f_rflags = 0x202, f_rsp = user_stack a, f_ss = 0x1B\<rparr>, m')"
    "scheduler_ready m'" "screen_ok (kern m')" "kern m' = (kern m)\<lparr>kmem := mem, kbitmap := bm,
       kst := (kst m)\<lparr>sched := first_two a b, rsp0 := kernel_stack a\<rparr>, kif := False, klen := 0, kready := True, kconsole := c\<rparr>"
    using boot_scheduler_runs [OF two(1,2) assms(1)] by blast
  have "sched_ok (first_two a b)" by (simp add: first_two_def sched_ok_def used_def)
  then have "shell_inv (kern m')"
    using m'(3) assms(1) F(2-6) unfolding m'(4)
    by (auto simp: shell_inv_def kernel_inv_def kernel_ok_def users_ok_def boot_ready_def first_two_def)
  moreover have "owned code (kmem (kern m')) (kbitmap (kern m')) (kpml4 (kern m')) (knext_pid (kern m')) (processes (sched (kst (kern m'))))"
    using F(1) assms(1) unfolding m'(4) by (simp add: boot_ready_def first_two_def)
  ultimately have "sys_inv code prog (kern m')" using assms(2) by (simp add: sys_inv_def)
  moreover have "kready m'" "\<not> kif m'" "kst m' = (kst m)\<lparr>sched := first_two a b, rsp0 := kernel_stack a\<rparr>" "kmem m' = mem" "kpml4 m' = kpml4 m"
    using m'(4) kern_simps [of m'] by simp_all
  ultimately show ?thesis using m'(1,2) F(7-12) by (simp add: first_two_def)
qed

text \<open>A machine with empty page tables and 64 free pages.\<close>

definition idle_machine :: machine where
  "idle_machine = with_kern sample_machine idle_kernel"

lemma idle_boot_ready:
  "boot_ready {768, 769} (sample_image\<lparr>process_a := 0xFFFF800000300000, process_b := 0xFFFF800000300000\<rparr>) idle_machine"
proof -
  have "shell_inv idle_kernel" using idle_sys_inv by (simp add: sys_inv_def)
  note S = shell_invD [OF this]
  have k: "kern idle_machine = idle_kernel" by (simp add: idle_machine_def)
  have "card (free_set (kbitmap idle_kernel)) = 64" by (simp add: idle_kernel_def low_bitmap_free)
  then show ?thesis
    using S one_program_ok(1) idle_owned [of 1]
    unfolding boot_ready_def screen_kern k kern_simps [of idle_machine, unfolded k, symmetric]
    by (simp add: kernel_ok_def) (simp add: idle_kernel_def sample_kernel_def)
qed

theorem boot_starts_system_witness:
  "\<exists>fr m'. boot_scheduler (sample_image\<lparr>process_a := 0xFFFF800000300000, process_b := 0xFFFF800000300000\<rparr>) idle_machine = Inr (fr, m')
    \<and> sys_inv {768, 769} one_program (kern m') \<and> translate (kmem m') (kpml4 m') (f_rip fr) = Some 0x300000"
  using boot_starts_system [OF idle_boot_ready one_program_ok(2)] by (auto simp: KERNEL_VIRT_def)

end
