(* ===== verification/Spec2Isabelle.thy ===== *)
theory Spec2Isabelle
  imports Boot_Safety
begin

text \<open>
  \<^bold>\<open>Verification of the Tomorrow kernel.\<close>

  Tomorrow (\<^verbatim>\<open>src/src/*.rs\<close>) is a small x86-64 kernel: a page allocator and a heap, four-level page
  tables, processes in ring 3 with round-robin scheduling, a RAM file store filled from a boot
  archive, six system calls guarded by a call mask and by per-file grants, a frame-buffer console, a
  shell that runs in the keyboard interrupt, drivers for the PS/2 keyboard and for USB keyboards behind
  an xHCI controller, and a boot sequence that reads multiboot2 and ACPI tables. All of these are
  modelled here as executable functions over explicit state.

  \<^bold>\<open>How the code is modelled.\<close> Machine integers are words of their width. The kernel is shipped as a
  debug build, so overflow, an index out of range, \<^verbatim>\<open>unwrap\<close> on nothing and a failed \<^verbatim>\<open>assert!\<close> end the
  kernel: a computation that may do so has type \<open>'a res\<close> and a left value then. Physical memory is a
  function from addresses to bytes (the kernel runs on an identity map); static variables are fields
  of records that every operation takes and returns: \<open>kernel\<close> for the core, extended by \<open>xhci\<close> for the
  driver and by \<open>machine\<close> for the boot sequence. A device register is read through a parameter that
  gives the value for every register and time, and may write to memory between steps; a register
  written is recorded. Loops are recursive functions with termination proofs. Loops of the driver that
  wait for the device keep the iteration bound they have in the code. The loops that need not end (the
  memory map with an entry size of 0, a multiboot2 tag or a MADT entry of length 0, a keyboard controller
  that never runs empty) are partial functions whose value is \<open>None\<close> then.

  \<^bold>\<open>Theories.\<close>
  \<^item> \<open>Kernel_Prelude\<close>, \<open>Phys_Memory\<close>: panics, checked arithmetic, masks; bytes and little-endian words.
  \<^item> \<open>Pmm\<close> (\<^verbatim>\<open>pmm.rs\<close>): the bitmap, \<^verbatim>\<open>init\<close>, \<^verbatim>\<open>alloc\<close>, \<^verbatim>\<open>alloc_pages\<close>, \<^verbatim>\<open>free\<close>, \<^verbatim>\<open>reserve\<close>, \<^verbatim>\<open>free_pages\<close>. The
    abstraction is the set of free page numbers. The interface \<open>page_allocator\<close> is what the
    page tables and processes use.
  \<^item> \<open>Heap\<close> (\<^verbatim>\<open>heap.rs\<close>): the free list with first fit, layouts, the lock. Free nodes are a list of address
    and size instead of links inside the blocks. \<open>byte_allocator\<close> is its contract; in every history
    blocks are disjoint and nothing is lost.
  \<^item> \<open>Vmm\<close> (\<^verbatim>\<open>vmm.rs\<close>): \<^verbatim>\<open>PageTable::map\<close>, against the walk of the MMU.
  \<^item> \<open>Ramfs\<close> (\<^verbatim>\<open>ramfs.rs\<close>, \<^verbatim>\<open>shell::parse_octal\<close>): files, directory and archive; \<open>name_store\<close> is the contract
    of a map from names to contents. An \<^verbatim>\<open>Arc<Inode>\<close> is an index into a list of contents
    that never shrinks, so a deleted file stays readable through open descriptors as in the code.
  \<^item> \<open>Process\<close>, \<open>Scheduler\<close> (\<^verbatim>\<open>process.rs\<close>, \<^verbatim>\<open>scheduler.rs\<close>, the switch of \<^verbatim>\<open>main::timer_do_switch\<close>): creation of a
    process, isolation of address spaces, round robin and its fairness, reaping.
  \<^item> \<open>Console\<close> (\<^verbatim>\<open>console.rs\<close>, \<^verbatim>\<open>font.rs\<close>): drawing, cursor, numbers. The font file is a
    parameter of which \<open>font_ok\<close> asks the size of the PSF2 format.
  \<^item> \<open>Kernel_State\<close>: the static variables as the record \<open>kernel\<close>, user memory through the page tables,
    and the input line. \<open>User_Memory\<close>: writes through the tables of a process.
  \<^item> \<open>Syscall\<close>, \<open>Syscall_Safety\<close> (\<^verbatim>\<open>syscall.rs\<close>): the dispatcher and the handlers; no call can bring the
    kernel down, files are reached only through grants, a write changes one file and a read one
    buffer. \<open>Sample_Kernel\<close> is the concrete state their witnesses run on.
  \<^item> \<open>Shell\<close>, \<open>Shell_Safety\<close> (\<^verbatim>\<open>shell.rs\<close>): line editing and all commands. \<open>command_invariant\<close> is what an invariant
    must allow so that every command keeps it.
  \<^item> \<open>Xhci\<close> (\<^verbatim>\<open>xhci.rs\<close>): the whole driver. \<open>Xhci_Rings\<close>: the command, transfer and event rings against a
    controller that follows cycle bits and Link TRBs; the interface \<open>trb_producer\<close> covers both rings the driver fills.
    \<open>Xhci_Hid\<close>: parsing of the configuration descriptor, and which characters a keyboard report types.
  \<^item> \<open>Interrupts\<close> (\<^verbatim>\<open>idt.rs\<close>, \<^verbatim>\<open>tss.rs\<close>, \<^verbatim>\<open>pic.rs\<close>, \<^verbatim>\<open>lapic.rs\<close>, \<^verbatim>\<open>ioapic.rs\<close>, \<^verbatim>\<open>hpet.rs\<close>): descriptors against the
    processor's decoding, and controllers against their reaction to the writes.
  \<^item> \<open>Pci\<close> (\<^verbatim>\<open>pci.rs\<close>): enumeration, search for the controller, hand-over from the firmware.
  \<^item> \<open>Boot\<close> (\<^verbatim>\<open>main.rs\<close>, \<^verbatim>\<open>syscall::init\<close>, \<^verbatim>\<open>heap::self_test\<close>): \<^verbatim>\<open>kernel_main\<close> from the first tag to the first process.
    \<open>Boot_Tables\<close>, \<open>Multiboot_Tags\<close>: the MADT, the sleep package of the DSDT and the boot tags against well-formed tables.
  \<^item> \<open>Handlers\<close> (\<^verbatim>\<open>keyboard.rs\<close>, \<^verbatim>\<open>main::timer_do_switch\<close>): the two interrupt handlers.
  \<^item> \<open>Ownership\<close>: page tables, free pages, program code and process stacks never overlap, and creating or killing a
    process keeps it so. \<open>System\<close>: system calls, keys and ticks in any order, as an inductive reachability relation; the
    kernel stays up. \<open>Boot_Safety\<close>: the last step of the boot establishes the invariant.

  \<^bold>\<open>Assumptions.\<close> The invariants are predicates (\<open>bitmap_ok\<close>, \<open>tables_ok\<close>, \<open>heap_ok\<close>, \<open>fs_ok\<close>, \<open>sched_ok\<close>,
  \<open>console_ok\<close>, \<open>kernel_inv\<close>, \<open>shell_inv\<close>, \<open>sys_inv\<close>); theorems state which of them they need, and each has a
  concrete state that satisfies them. The heap is unbounded where \<^verbatim>\<open>Vec\<close> and \<^verbatim>\<open>String\<close> grow: exhaustion of
  the heap inside the allocating operations of the file store is not modelled. Interrupts happen
  between the modelled operations: handlers run with interrupts off, as in the code. The boot sequence is
  modelled without the timer interrupts that can arrive after \<^verbatim>\<open>sti\<close>; writes to device registers also change
  the byte of memory at that address, which no theorem relies on.

  \<^bold>\<open>Not modelled.\<close> Assembly: boot code (\<^verbatim>\<open>boot.rs\<close> only includes it), entry and exit of interrupts and system calls,
  \<^verbatim>\<open>context_switch\<close>, the demo programs \<^verbatim>\<open>process_a\<close> and following; \<^verbatim>\<open>PageTable::load\<close> (one move to CR3); what the panic
  handler prints; delay loops, which only burn time; the crate \<^verbatim>\<open>pc_keyboard\<close>, a parameter; \<^verbatim>\<open>build.rs\<close>.
\<close>

end
